(* ===== verification/Prelude.thy ===== *)
theory Prelude
  imports Main "HOL-Library.Word" "HOL-Library.Sublist"
begin

text \<open>
  Shared vocabulary of the development: the machine integers and byte strings of the C++
  sources, the exceptions they throw, the result type of a call that may throw, the state
  passing used for the classes that own a cursor or a buffer, and the generic lemmas on
  lists and words that the component theories use.
\<close>

section \<open>Types\<close>

type_synonym u8 = "8 word"
type_synonym u16 = "16 word"
type_synonym u32 = "32 word"
type_synonym u64 = "64 word"
type_synonym bytes = "u8 list"

text \<open>
  The C++ exceptions the modelled code throws, by class, with the fixed part of the
  message. The parts of a message that print run-time values are left out.
\<close>

datatype exn =
    range_error string
  | out_of_range string
  | runtime_error string
  | invalid_argument string
  | MOADNSException string
  | PDNSException string
  | NetmaskException string
  | logic_error string

type_synonym 'a result = "exn + 'a"

text \<open>Sequencing of calls that may throw: the first exception wins.\<close>

definition bindR :: "'a result \<Rightarrow> ('a \<Rightarrow> 'b result) \<Rightarrow> 'b result" where
  "bindR m f = (case m of Inl e \<Rightarrow> Inl e | Inr a \<Rightarrow> f a)"

text \<open>
  Calls on an object: the state is returned also when the call throws, because what the
  code wrote before it threw stays written.
\<close>

type_synonym ('s, 'a) call = "'s \<Rightarrow> 'a result \<times> 's"

definition returnC :: "'a \<Rightarrow> ('s, 'a) call" where
  "returnC a = (\<lambda>s. (Inr a, s))"

definition throwC :: "exn \<Rightarrow> ('s, 'a) call" where
  "throwC e = (\<lambda>s. (Inl e, s))"

definition bindC :: "('s, 'a) call \<Rightarrow> ('a \<Rightarrow> ('s, 'b) call) \<Rightarrow> ('s, 'b) call" where
  "bindC m f = (\<lambda>s. case m s of (Inl e, s') \<Rightarrow> (Inl e, s') | (Inr a, s') \<Rightarrow> f a s')"

definition getC :: "('s \<Rightarrow> 'a) \<Rightarrow> ('s, 'a) call" where
  "getC f = (\<lambda>s. (Inr (f s), s))"

definition putC :: "('s \<Rightarrow> 's) \<Rightarrow> ('s, unit) call" where
  "putC f = (\<lambda>s. (Inr (), f s))"

definition liftC :: "'a result \<Rightarrow> ('s, 'a) call" where
  "liftC r = (\<lambda>s. (r, s))"

text \<open>A \<^verbatim>\<open>for\<close> loop over a range; the body returns whether it breaks out of the loop.\<close>

fun forC :: "nat list \<Rightarrow> (nat \<Rightarrow> ('s, bool) call) \<Rightarrow> ('s, unit) call" where
  "forC [] body = returnC ()"
| "forC (n # ns) body = bindC (body n) (\<lambda>brk. if brk then returnC () else forC ns body)"

text \<open>\<open>std::string::at\<close>, \<open>std::string_view::at\<close> and \<open>std::vector::at\<close>.\<close>

definition at :: "'a list \<Rightarrow> nat \<Rightarrow> 'a result" where
  "at xs i = (if i < length xs then Inr (xs ! i) else Inl (out_of_range ''at''))"

text \<open>The bytes of an ASCII literal of the source.\<close>

definition ascii :: "string \<Rightarrow> bytes" where
  "ascii s = map (\<lambda>c. of_nat (of_char c)) s"

text \<open>Network byte order: reading and writing 16, 32 and 48 bit integers.\<close>

definition be16 :: "u8 \<Rightarrow> u8 \<Rightarrow> nat" where
  "be16 a b = unat a * 256 + unat b"

definition be32 :: "u8 \<Rightarrow> u8 \<Rightarrow> u8 \<Rightarrow> u8 \<Rightarrow> nat" where
  "be32 a b c d = ((unat a * 256 + unat b) * 256 + unat c) * 256 + unat d"

definition to_be16 :: "nat \<Rightarrow> bytes" where
  "to_be16 n = [of_nat (n div 256), of_nat n]"

definition to_be32 :: "nat \<Rightarrow> bytes" where
  "to_be32 n = [of_nat (n div 16777216), of_nat (n div 65536), of_nat (n div 256), of_nat n]"

definition to_be48 :: "nat \<Rightarrow> bytes" where
  "to_be48 n = [of_nat (n div 1099511627776), of_nat (n div 4294967296),
                of_nat (n div 16777216), of_nat (n div 65536), of_nat (n div 256), of_nat n]"

section \<open>Lemmas on results and calls\<close>

named_theorems call_simps \<open>unfolding of the sequencing operators\<close>

lemma bindR_simps [simp]:
  "bindR (Inl e) f = Inl e"
  "bindR (Inr a) f = f a"
  by (simp_all add: bindR_def)

lemma bindR_cong [fundef_cong]:
  "m = m' \<Longrightarrow> (\<And>a. m' = Inr a \<Longrightarrow> f a = f' a) \<Longrightarrow> bindR m f = bindR m' f'"
  by (cases m) auto

lemma bindC_cong [fundef_cong]:
  "m s = m' s' \<Longrightarrow> (\<And>a t. m' s' = (Inr a, t) \<Longrightarrow> f a t = f' a t) \<Longrightarrow> bindC m f s = bindC m' f' s'"
  by (auto simp: bindC_def split: prod.splits sum.splits)

lemma bindR_Inr_iff: "bindR m f = Inr b \<longleftrightarrow> (\<exists>a. m = Inr a \<and> f a = Inr b)"
  by (cases m) auto

lemma bindR_Inl_iff: "bindR m f = Inl e \<longleftrightarrow> m = Inl e \<or> (\<exists>a. m = Inr a \<and> f a = Inl e)"
  by (cases m) auto

lemma bindR_split: "P (bindR m f) \<longleftrightarrow> (\<forall>e. m = Inl e \<longrightarrow> P (Inl e)) \<and> (\<forall>a. m = Inr a \<longrightarrow> P (f a))"
  by (cases m) auto

lemma at_simps [simp]:
  "i < length xs \<Longrightarrow> at xs i = Inr (xs ! i)"
  "\<not> i < length xs \<Longrightarrow> at xs i = Inl (out_of_range ''at'')"
  by (simp_all add: at_def)

lemma at_Inr_iff: "at xs i = Inr x \<longleftrightarrow> i < length xs \<and> x = xs ! i"
  by (auto simp: at_def)

lemma bindC_apply [call_simps]:
  "bindC m f s = (case m s of (Inl e, s') \<Rightarrow> (Inl e, s') | (Inr a, s') \<Rightarrow> f a s')"
  by (simp add: bindC_def)

lemma returnC_apply [call_simps, simp]: "returnC a s = (Inr a, s)"
  by (simp add: returnC_def)

lemma throwC_apply [call_simps, simp]: "throwC e s = (Inl e, s)"
  by (simp add: throwC_def)

lemma getC_apply [call_simps, simp]: "getC f s = (Inr (f s), s)"
  by (simp add: getC_def)

lemma putC_apply [call_simps, simp]: "putC f s = (Inr (), f s)"
  by (simp add: putC_def)

lemma liftC_apply [call_simps, simp]: "liftC r s = (r, s)"
  by (simp add: liftC_def)

lemma bindC_Inr:
  "bindC m f s = (Inr b, s') \<longleftrightarrow> (\<exists>a t. m s = (Inr a, t) \<and> f a t = (Inr b, s'))"
  by (auto simp: bindC_def split: prod.splits sum.splits)

lemma bindC_Inl:
  "bindC m f s = (Inl e, s') \<longleftrightarrow>
     m s = (Inl e, s') \<or> (\<exists>a t. m s = (Inr a, t) \<and> f a t = (Inl e, s'))"
  by (auto simp: bindC_def split: prod.splits sum.splits)

lemma bindC_cong_ok [simp]: "m s = (Inr a, t) \<Longrightarrow> bindC m f s = f a t"
  by (simp add: bindC_def)

lemma bindC_cong_err [simp]: "m s = (Inl e, t) \<Longrightarrow> bindC m f s = (Inl e, t)"
  by (simp add: bindC_def)

text \<open>Monad laws.\<close>

lemma bindC_assoc: "bindC (bindC m f) g = bindC m (\<lambda>a. bindC (f a) g)"
  by (rule ext) (simp add: bindC_apply split: prod.split sum.split)

lemma bindC_returnC: "bindC (returnC a) f = f a"
  by (rule ext) simp

lemma bindC_returnC_right: "bindC m returnC = m"
  by (rule ext) (simp add: bindC_apply split: prod.split sum.split)

section \<open>Lemmas on lists and words\<close>

lemma unat_u8_less [simp]: "unat (x :: u8) < 256"
  using unsigned_less [of x] by simp

lemma unat_u8_le [simp]: "unat (x :: u8) \<le> 255"
  using unat_u8_less [of x] by linarith

lemma unat_of_nat_mod_u8: "unat (of_nat n :: u8) = n mod 256"
  by (simp add: unat_of_nat take_bit_eq_mod)

lemma unat_of_nat_u8: "n < 256 \<Longrightarrow> unat (of_nat n :: u8) = n"
  by (simp add: unat_of_nat_mod_u8)

lemma of_nat_u8_eq_iff: "(of_nat m :: u8) = of_nat n \<longleftrightarrow> m mod 256 = n mod 256"
  by (simp add: word_unat_eq_iff unat_of_nat_mod_u8)

lemma of_nat_u8_eq_0_iff: "n < 256 \<Longrightarrow> (of_nat n :: u8) = 0 \<longleftrightarrow> n = 0"
  by (simp add: word_unat_eq_iff unat_of_nat_mod_u8)

lemma unat_u8_pos: "x \<noteq> 0 \<Longrightarrow> 0 < unat (x :: u8)"
  by (simp add: word_neq_0_conv [symmetric] unat_gt_0)

lemma be16_less: "be16 a b < 65536"
  unfolding be16_def using unat_u8_less [of a] unat_u8_less [of b] by linarith

lemma four_digits_less:
  fixes a b c d :: nat
  assumes "a < 256" "b < 256" "c < 256" "d < 256"
  shows "((a * 256 + b) * 256 + c) * 256 + d < 4294967296"
  using assms by simp

lemma be32_less: "be32 a b c d < 4294967296"
  unfolding be32_def by (rule four_digits_less) simp_all

lemma be16_to_be16: "n < 65536 \<Longrightarrow> to_be16 n = [a, b] \<Longrightarrow> be16 a b = n"
  by (auto simp: to_be16_def be16_def unat_of_nat_mod_u8)

lemma to_be16_be16: "to_be16 (be16 a b) = [a, b]"
proof -
  let ?n = "unat a * 256 + unat b"
  have hi: "?n div 256 = unat a" by simp
  have "unat (of_nat ?n :: u8) = ?n mod 256" by (rule unat_of_nat_mod_u8)
  also have "\<dots> = unat b" by simp
  finally have "(of_nat ?n :: u8) = b" by (rule word_unat_eq_iff [THEN iffD2])
  then show ?thesis by (simp only: to_be16_def be16_def hi) simp
qed

lemma be32_to_be32: "n < 4294967296 \<Longrightarrow> to_be32 n = [a, b, c, d] \<Longrightarrow> be32 a b c d = n"
proof -
  assume n: "n < 4294967296" and eq: "to_be32 n = [a, b, c, d]"
  have "((n div 16777216 mod 256 * 256 + n div 65536 mod 256) * 256 + n div 256 mod 256) * 256 + n mod 256 = n"
  proof -
    have 1: "n div 16777216 = n div 256 div 256 div 256" "n div 65536 = n div 256 div 256" by (simp_all add: div_mult2_eq [symmetric])
    have "n div 256 div 256 div 256 < 256" using n by (simp add: div_mult2_eq [symmetric] less_mult_imp_div_less)
    then have "n div 256 div 256 div 256 mod 256 = n div 256 div 256 div 256" by simp
    then show ?thesis unfolding 1 by (simp only: div_mult_mod_eq)
  qed
  moreover have "a = of_nat (n div 16777216)" "b = of_nat (n div 65536)" "c = of_nat (n div 256)" "d = of_nat n"
    using eq by (simp_all add: to_be32_def)
  ultimately show ?thesis by (simp only: be32_def unat_of_nat_mod_u8)
qed

lemma of_nat_unat_u8: "(of_nat (unat x) :: u8) = x"
  by simp

lemma to_be32_be32: "to_be32 (be32 a b c d) = [a, b, c, d]"
proof -
  have digit: "(n * 256 + unat (x :: u8)) div 256 = n" for n x using unat_u8_less [of x] by simp
  have split: "n div 65536 = n div 256 div 256" "n div 16777216 = n div 256 div 256 div 256" for n :: nat
    by (simp_all add: div_mult2_eq [symmetric])
  have "be32 a b c d div 16777216 = unat a" "be32 a b c d div 65536 = unat a * 256 + unat b"
    "be32 a b c d div 256 = (unat a * 256 + unat b) * 256 + unat c"
    by (simp_all only: be32_def split digit)
  then have "to_be32 (be32 a b c d) = [of_nat (unat a), of_nat (unat a * 256 + unat b), of_nat ((unat a * 256 + unat b) * 256 + unat c),
      of_nat (((unat a * 256 + unat b) * 256 + unat c) * 256 + unat d)]"
    by (simp only: to_be32_def be32_def)
  moreover have "(of_nat (n * 256 + unat x) :: u8) = x" for n x
    unfolding word_unat_eq_iff unat_of_nat_mod_u8 by simp
  ultimately show ?thesis by (simp only: of_nat_unat_u8)
qed

lemma length_to_be16 [simp]: "length (to_be16 n) = 2"
  by (simp add: to_be16_def)

lemma length_to_be32 [simp]: "length (to_be32 n) = 4"
  by (simp add: to_be32_def)

lemma length_to_be48 [simp]: "length (to_be48 n) = 6"
  by (simp add: to_be48_def)

text \<open>A property of bytes is checked by evaluating it on all of them.\<close>

lemma u8_exhaust: "(\<forall>n \<in> set [0..<256]. P (of_nat n :: u8)) \<Longrightarrow> P x"
  using bspec [of "set [0..<256]" "\<lambda>n. P (of_nat n)" "unat x"] by simp

end
