(* ===== verification/CaseFold.thy ===== *)
theory CaseFold
  imports Prelude
begin

text \<open>
  Case folding and the case-insensitive comparisons of \<^verbatim>\<open>pdns/dnsname.hh\<close>, with the two
  lookup tables of \<^verbatim>\<open>pdns/dnsname.cc\<close>. The contract that every three-way comparison of the
  program keeps (a total preorder read off the sign of an \<open>int\<close>) is the locale
  \<open>three_way\<close>; the sets, maps and sorts that use a comparison rely on its lemmas only.
\<close>

section \<open>Tables and character classes\<close>

definition dns_isspace :: "u8 \<Rightarrow> bool" where
  "dns_isspace chr \<longleftrightarrow> chr = 32 \<or> chr = 9 \<or> chr = 13 \<or> chr = 10"

definition dns_toupper_table :: "u8 list" where
  "dns_toupper_table =
   [0, 1, 2, 3, 4, 5, 6, 7,
    8, 9, 10, 11, 12, 13, 14, 15,
    16, 17, 18, 19, 20, 21, 22, 23,
    24, 25, 26, 27, 28, 29, 30, 31,
    32, 33, 34, 35, 36, 37, 38, 39,
    40, 41, 42, 43, 44, 45, 46, 47,
    48, 49, 50, 51, 52, 53, 54, 55,
    56, 57, 58, 59, 60, 61, 62, 63,
    64, 65, 66, 67, 68, 69, 70, 71,
    72, 73, 74, 75, 76, 77, 78, 79,
    80, 81, 82, 83, 84, 85, 86, 87,
    88, 89, 90, 91, 92, 93, 94, 95,
    96, 65, 66, 67, 68, 69, 70, 71,
    72, 73, 74, 75, 76, 77, 78, 79,
    80, 81, 82, 83, 84, 85, 86, 87,
    88, 89, 90, 123, 124, 125, 126, 127,
    128, 129, 130, 131, 132, 133, 134, 135,
    136, 137, 138, 139, 140, 141, 142, 143,
    144, 145, 146, 147, 148, 149, 150, 151,
    152, 153, 154, 155, 156, 157, 158, 159,
    160, 161, 162, 163, 164, 165, 166, 167,
    168, 169, 170, 171, 172, 173, 174, 175,
    176, 177, 178, 179, 180, 181, 182, 183,
    184, 185, 186, 187, 188, 189, 190, 191,
    192, 193, 194, 195, 196, 197, 198, 199,
    200, 201, 202, 203, 204, 205, 206, 207,
    208, 209, 210, 211, 212, 213, 214, 215,
    216, 217, 218, 219, 220, 221, 222, 223,
    224, 225, 226, 227, 228, 229, 230, 231,
    232, 233, 234, 235, 236, 237, 238, 239,
    240, 241, 242, 243, 244, 245, 246, 247,
    248, 249, 250, 251, 252, 253, 254, 255]"

definition dns_tolower_table :: "u8 list" where
  "dns_tolower_table =
   [0, 1, 2, 3, 4, 5, 6, 7,
    8, 9, 10, 11, 12, 13, 14, 15,
    16, 17, 18, 19, 20, 21, 22, 23,
    24, 25, 26, 27, 28, 29, 30, 31,
    32, 33, 34, 35, 36, 37, 38, 39,
    40, 41, 42, 43, 44, 45, 46, 47,
    48, 49, 50, 51, 52, 53, 54, 55,
    56, 57, 58, 59, 60, 61, 62, 63,
    64, 97, 98, 99, 100, 101, 102, 103,
    104, 105, 106, 107, 108, 109, 110, 111,
    112, 113, 114, 115, 116, 117, 118, 119,
    120, 121, 122, 91, 92, 93, 94, 95,
    96, 97, 98, 99, 100, 101, 102, 103,
    104, 105, 106, 107, 108, 109, 110, 111,
    112, 113, 114, 115, 116, 117, 118, 119,
    120, 121, 122, 123, 124, 125, 126, 127,
    128, 129, 130, 131, 132, 133, 134, 135,
    136, 137, 138, 139, 140, 141, 142, 143,
    144, 145, 146, 147, 148, 149, 150, 151,
    152, 153, 154, 155, 156, 157, 158, 159,
    160, 161, 162, 163, 164, 165, 166, 167,
    168, 169, 170, 171, 172, 173, 174, 175,
    176, 177, 178, 179, 180, 181, 182, 183,
    184, 185, 186, 187, 188, 189, 190, 191,
    192, 193, 194, 195, 196, 197, 198, 199,
    200, 201, 202, 203, 204, 205, 206, 207,
    208, 209, 210, 211, 212, 213, 214, 215,
    216, 217, 218, 219, 220, 221, 222, 223,
    224, 225, 226, 227, 228, 229, 230, 231,
    232, 233, 234, 235, 236, 237, 238, 239,
    240, 241, 242, 243, 244, 245, 246, 247,
    248, 249, 250, 251, 252, 253, 254, 255]"

definition dns_toupper :: "u8 \<Rightarrow> u8" where
  "dns_toupper chr = dns_toupper_table ! unat chr"

definition dns_tolower :: "u8 \<Rightarrow> u8" where
  "dns_tolower chr = dns_tolower_table ! unat chr"

section \<open>Comparisons\<close>

text \<open>
  The loop runs while both strings have bytes left; what it returns is the difference of the
  folded bytes, or the sign of the length difference once one string is exhausted.
\<close>

fun pdns_ilexicographical_compare_three_way :: "bytes \<Rightarrow> bytes \<Rightarrow> int" where
  "pdns_ilexicographical_compare_three_way [] [] = 0"
| "pdns_ilexicographical_compare_three_way [] (b # bs) = -1"
| "pdns_ilexicographical_compare_three_way (a # as) [] = 1"
| "pdns_ilexicographical_compare_three_way (a # as) (b # bs) =
     (if a \<noteq> b then
        (let rc = int (unat (dns_tolower a)) - int (unat (dns_tolower b))
         in if rc \<noteq> 0 then rc else pdns_ilexicographical_compare_three_way as bs)
      else pdns_ilexicographical_compare_three_way as bs)"

definition pdns_ilexicographical_compare :: "bytes \<Rightarrow> bytes \<Rightarrow> bool" where
  "pdns_ilexicographical_compare a b \<longleftrightarrow> pdns_ilexicographical_compare_three_way a b < 0"

definition pdns_iequals :: "bytes \<Rightarrow> bytes \<Rightarrow> bool" where
  "pdns_iequals a b \<longleftrightarrow>
     (if length a \<noteq> length b then False
      else pdns_ilexicographical_compare_three_way a b = 0)"

definition pdns_iequals_ch :: "u8 \<Rightarrow> u8 \<Rightarrow> bool" where
  "pdns_iequals_ch a b \<longleftrightarrow> \<not> (a \<noteq> b \<and> dns_tolower a \<noteq> dns_tolower b)"

abbreviation foldc :: "bytes \<Rightarrow> bytes" where
  "foldc \<equiv> map dns_tolower"

section \<open>The three-way comparison contract\<close>

locale three_way =
  fixes cmp :: "'a \<Rightarrow> 'a \<Rightarrow> int"
  assumes cmp_swap: "cmp x y < 0 \<longleftrightarrow> 0 < cmp y x"
    and cmp_trans: "cmp x y \<le> 0 \<Longrightarrow> cmp y z \<le> 0 \<Longrightarrow> cmp x z \<le> 0"
begin

lemma cmp_refl: "cmp x x = 0"
  using cmp_swap [of x x] by linarith

lemma cmp_zero_sym: "cmp x y = 0 \<longleftrightarrow> cmp y x = 0"
  using cmp_swap [of x y] cmp_swap [of y x] by linarith

lemma cmp_le_swap: "cmp x y \<le> 0 \<longleftrightarrow> 0 \<le> cmp y x"
  using cmp_swap [of x y] cmp_swap [of y x] by linarith

lemma cmp_total: "cmp x y \<le> 0 \<or> cmp y x \<le> 0"
  using cmp_swap [of x y] cmp_swap [of y x] by linarith

lemma cmp_zero_trans: "cmp x y = 0 \<Longrightarrow> cmp y z = 0 \<Longrightarrow> cmp x z = 0"
  using cmp_trans [of x y z] cmp_trans [of z y x] cmp_zero_sym [of x y] cmp_zero_sym [of y z]
    cmp_le_swap [of z x] by linarith

lemma cmp_less_le_trans: "cmp x y < 0 \<Longrightarrow> cmp y z \<le> 0 \<Longrightarrow> cmp x z < 0"
  using cmp_trans [of x y z] cmp_trans [of y z x] cmp_swap [of x y] cmp_zero_sym [of x z] by linarith

lemma cmp_le_less_trans: "cmp x y \<le> 0 \<Longrightarrow> cmp y z < 0 \<Longrightarrow> cmp x z < 0"
  using cmp_trans [of x y z] cmp_trans [of z x y] cmp_swap [of y z] cmp_zero_sym [of x z] by linarith

lemma cmp_less_trans: "cmp x y < 0 \<Longrightarrow> cmp y z < 0 \<Longrightarrow> cmp x z < 0"
  using cmp_less_le_trans [of x y z] by linarith

lemma cmp_zero_less: "cmp x y = 0 \<Longrightarrow> cmp x z < 0 \<longleftrightarrow> cmp y z < 0"
  using cmp_le_less_trans [of x y z] cmp_le_less_trans [of y x z] cmp_zero_sym [of x y] by linarith

lemma cmp_zero_zero: "cmp x y = 0 \<Longrightarrow> cmp x z = 0 \<longleftrightarrow> cmp y z = 0"
  using cmp_zero_trans [of x y z] cmp_zero_trans [of y x z] cmp_zero_sym [of x y] by blast

end

section \<open>Facts about folding\<close>

lemma dns_tolower_table_eq:
  "dns_tolower_table = map (\<lambda>n. if 65 \<le> n \<and> n \<le> 90 then of_nat (n + 32) else of_nat n) [0..<256]"
  unfolding dns_tolower_table_def by code_simp

lemma dns_toupper_table_eq:
  "dns_toupper_table = map (\<lambda>n. if 97 \<le> n \<and> n \<le> 122 then of_nat (n - 32) else of_nat n) [0..<256]"
  unfolding dns_toupper_table_def by code_simp

lemma dns_tolower_eq: "dns_tolower c = (if 65 \<le> c \<and> c \<le> 90 then c + 32 else c)"
proof -
  have "dns_tolower c = (if 65 \<le> unat c \<and> unat c \<le> 90 then of_nat (unat c + 32) else of_nat (unat c))"
    by (simp add: dns_tolower_def dns_tolower_table_eq)
  then show ?thesis by (simp add: word_le_nat_alt)
qed

lemma dns_toupper_eq: "dns_toupper c = (if 97 \<le> c \<and> c \<le> 122 then c - 32 else c)"
proof -
  have "dns_toupper c = (if 97 \<le> unat c \<and> unat c \<le> 122 then of_nat (unat c - 32) else of_nat (unat c))"
    by (simp add: dns_toupper_def dns_toupper_table_eq)
  then show ?thesis by (simp add: word_le_nat_alt of_nat_diff)
qed

lemma dns_tolower_unat:
  "unat (dns_tolower c) = (if 65 \<le> unat c \<and> unat c \<le> 90 then unat c + 32 else unat c)"
proof -
  have "dns_tolower c = (if 65 \<le> unat c \<and> unat c \<le> 90 then of_nat (unat c + 32) else of_nat (unat c))"
    by (simp add: dns_tolower_def dns_tolower_table_eq)
  then show ?thesis by (simp add: unat_of_nat_u8 del: of_nat_add)
qed

lemma dns_tolower_idem [simp]: "dns_tolower (dns_tolower c) = dns_tolower c"
  by (rule word_unat_eq_iff [THEN iffD2]) (simp add: dns_tolower_unat)

lemma dns_tolower_small: "unat c \<le> 64 \<Longrightarrow> dns_tolower c = c"
  by (rule word_unat_eq_iff [THEN iffD2]) (simp add: dns_tolower_unat)

lemma dns_tolower_eq_small: "unat c \<le> 64 \<Longrightarrow> dns_tolower x = c \<longleftrightarrow> x = c"
  by (simp add: word_unat_eq_iff dns_tolower_unat)

lemma dns_tolower_eq_small': "unat c \<le> 64 \<Longrightarrow> dns_tolower x = dns_tolower c \<longleftrightarrow> x = c"
  by (simp add: dns_tolower_small dns_tolower_eq_small)

lemma dns_tolower_0 [simp]: "dns_tolower 0 = 0"
  by (simp add: dns_tolower_small)

lemma dns_tolower_eq_0_iff [simp]: "dns_tolower c = 0 \<longleftrightarrow> c = 0"
  by (simp add: dns_tolower_eq_small)

lemma dns_tolower_toupper [simp]: "dns_tolower (dns_toupper c) = dns_tolower c"
proof -
  have "unat (dns_toupper c) = (if 97 \<le> unat c \<and> unat c \<le> 122 then unat c - 32 else unat c)"
  proof -
    have "dns_toupper c = (if 97 \<le> unat c \<and> unat c \<le> 122 then of_nat (unat c - 32) else of_nat (unat c))"
      by (simp add: dns_toupper_def dns_toupper_table_eq)
    moreover have "unat c - 32 < 256" using unat_u8_less [of c] by linarith
    ultimately show ?thesis by (simp add: unat_of_nat_u8 del: of_nat_diff)
  qed
  then show ?thesis
    by (intro word_unat_eq_iff [THEN iffD2]) (auto simp: dns_tolower_unat)
qed

lemma foldc_idem [simp]: "foldc (foldc xs) = foldc xs"
  by simp

lemma foldc_eq_length: "foldc xs = foldc ys \<Longrightarrow> length xs = length ys"
  by (metis length_map)

section \<open>Facts about the comparisons\<close>

lemma three_way_step:
  "pdns_ilexicographical_compare_three_way (a # as) (b # bs) =
     (if dns_tolower a = dns_tolower b then pdns_ilexicographical_compare_three_way as bs
      else int (unat (dns_tolower a)) - int (unat (dns_tolower b)))"
proof (cases "a = b")
  case False
  have "uint (dns_tolower a) - uint (dns_tolower b) = 0 \<longleftrightarrow> dns_tolower a = dns_tolower b"
    by (auto simp: word_uint_eq_iff)
  with False show ?thesis by (simp add: Let_def)
qed simp

declare pdns_ilexicographical_compare_three_way.simps(4) [simp del]
declare three_way_step [simp]

lemma ilex_eq_0_iff: "pdns_ilexicographical_compare_three_way a b = 0 \<longleftrightarrow> foldc a = foldc b"
  by (induction a b rule: list_induct2') (auto simp: word_uint_eq_iff)

lemma ilex_swap:
  "pdns_ilexicographical_compare_three_way a b < 0 \<longleftrightarrow> 0 < pdns_ilexicographical_compare_three_way b a"
  by (induction a b rule: list_induct2') auto

lemma ilex_trans:
  "pdns_ilexicographical_compare_three_way a b \<le> 0 \<Longrightarrow>
   pdns_ilexicographical_compare_three_way b c \<le> 0 \<Longrightarrow>
   pdns_ilexicographical_compare_three_way a c \<le> 0"
proof (induction a b arbitrary: c rule: list_induct2')
  case (4 a as b bs)
  then obtain x xs where c: "c = x # xs" by (cases c) auto
  from "4.prems" c have ab: "uint (dns_tolower a) \<le> uint (dns_tolower b)"
    and bc: "uint (dns_tolower b) \<le> uint (dns_tolower x)"
    by (auto split: if_splits)
  show ?case
  proof (cases "dns_tolower a = dns_tolower x")
    case True
    with ab bc have "dns_tolower b = dns_tolower a" by (simp add: word_uint_eq_iff)
    with True "4.prems" c "4.IH" show ?thesis by auto
  next
    case False
    with ab bc c show ?thesis by auto
  qed
next
  case 1
  then show ?case by (cases c) auto
next
  case 2
  then show ?case by auto
next
  case 3
  then show ?case by (cases c) auto
qed

interpretation ilex: three_way pdns_ilexicographical_compare_three_way
  by unfold_locales (rule ilex_swap, rule ilex_trans)

lemma pdns_iequals_iff: "pdns_iequals a b \<longleftrightarrow> foldc a = foldc b"
  by (auto simp: pdns_iequals_def ilex_eq_0_iff dest: foldc_eq_length)

lemma pdns_iequals_ch_iff: "pdns_iequals_ch a b \<longleftrightarrow> dns_tolower a = dns_tolower b"
  by (auto simp: pdns_iequals_ch_def)

lemma ilex_foldc:
  "pdns_ilexicographical_compare_three_way (foldc a) (foldc b) = pdns_ilexicographical_compare_three_way a b"
  by (induction a b rule: list_induct2') auto

end
