(* ===== verification/NameCore.thy ===== *)
theory NameCore
  imports CaseFold
begin

text \<open>
  The class \<^verbatim>\<open>DNSName\<close> of \<^verbatim>\<open>pdns/dnsname.hh\<close> and \<^verbatim>\<open>pdns/dnsname.cc\<close>: its storage, the
  operations on labels, equality, and the label visitor. A name is its raw storage in DNS
  label format with a trailing zero byte, or the empty storage of an unset name. The class
  invariant \<open>DNSName_inv\<close> and the abstraction to a list of labels come after the operations;
  each operation is then related to the list operation it implements.

  The storage is a \<open>char\<close> string in the source. Label length bytes are at most 63 in every
  name that satisfies the invariant, so reading them as signed or unsigned is the same.
\<close>

section \<open>The class and its operations\<close>

datatype DNSName = DNSName (d_storage: bytes)

definition s_maxDNSNameLength :: nat where
  "s_maxDNSNameLength = 255"

definition s_maxDNSLabelLength :: nat where
  "s_maxDNSLabelLength = 63"

definition g_rootdnsname :: DNSName where
  "g_rootdnsname = DNSName [0]"

definition g_wildcarddnsname :: DNSName where
  "g_wildcarddnsname = DNSName [1, 42, 0]"

definition DNSName_empty :: "DNSName \<Rightarrow> bool" where
  "DNSName_empty n \<longleftrightarrow> d_storage n = []"

definition DNSName_isRoot :: "DNSName \<Rightarrow> bool" where
  "DNSName_isRoot n \<longleftrightarrow> length (d_storage n) = 1 \<and> d_storage n ! 0 = 0"

definition DNSName_hasLabels :: "DNSName \<Rightarrow> bool" where
  "DNSName_hasLabels n \<longleftrightarrow> \<not> DNSName_empty n \<and> \<not> DNSName_isRoot n"

definition DNSName_clear :: "DNSName \<Rightarrow> DNSName" where
  "DNSName_clear n = DNSName []"

text \<open>The parameter is a \<^verbatim>\<open>uint8_t\<close>: the callers' lengths are narrowed to eight bits.\<close>

definition checkLabelLength :: "u8 \<Rightarrow> unit result" where
  "checkLabelLength len =
     (if len = 0 then Inl (range_error ''no such thing as an empty label to append'')
      else if unat len > s_maxDNSLabelLength then Inl (range_error ''label too long to append'')
      else Inr ())"

definition appendRawLabel :: "DNSName \<Rightarrow> bytes \<Rightarrow> DNSName result" where
  "appendRawLabel n label =
     bindR (checkLabelLength (of_nat (length label))) (\<lambda>_.
       if length (d_storage n) + length label > s_maxDNSNameLength - 1
       then Inl (range_error ''name too long to append'')
       else
         let storage = (if d_storage n = [] then [of_nat (length label)]
                        else butlast (d_storage n) @ [of_nat (length label)])
         in Inr (DNSName (storage @ label @ [0])))"

definition prependRawLabel :: "DNSName \<Rightarrow> bytes \<Rightarrow> DNSName result" where
  "prependRawLabel n label =
     bindR (checkLabelLength (of_nat (length label))) (\<lambda>_.
       if length (d_storage n) + length label > s_maxDNSNameLength - 1
       then Inl (range_error ''name too long to prepend'')
       else
         let storage = (if d_storage n = [] then [0] else d_storage n);
             prep = [of_nat (length label)] @ label
         in Inr (DNSName (prep @ storage)))"

text \<open>The walk over the labels, from a position of the storage to the terminating zero.\<close>

fun rawLabels :: "bytes \<Rightarrow> bytes list" where
  "rawLabels [] = []"
| "rawLabels (p # rest) =
     (if p = 0 then [] else take (unat p) rest # rawLabels (drop (unat p) rest))"

definition getRawLabels :: "DNSName \<Rightarrow> bytes list" where
  "getRawLabels n = rawLabels (d_storage n)"

fun getRawLabel_loop :: "bytes \<Rightarrow> nat \<Rightarrow> nat \<Rightarrow> bytes result" where
  "getRawLabel_loop [] currentPos pos = Inl (out_of_range ''trying to get label at position'')"
| "getRawLabel_loop (p # rest) currentPos pos =
     (if p = 0 then Inl (out_of_range ''trying to get label at position'')
      else if currentPos = pos then Inr (take (unat p) rest)
      else getRawLabel_loop (drop (unat p) rest) (Suc currentPos) pos)"

definition getRawLabel :: "DNSName \<Rightarrow> nat \<Rightarrow> bytes result" where
  "getRawLabel n pos = getRawLabel_loop (d_storage n) 0 pos"

fun countLabels_loop :: "bytes \<Rightarrow> nat \<Rightarrow> nat" where
  "countLabels_loop [] count = count"
| "countLabels_loop (p # rest) count =
     (if p = 0 then count else countLabels_loop (drop (unat p) rest) (count + 1))"

definition countLabels :: "DNSName \<Rightarrow> nat" where
  "countLabels n = countLabels_loop (d_storage n) 0"

definition chopOff :: "DNSName \<Rightarrow> bool \<times> DNSName" where
  "chopOff n =
     (case d_storage n of
        [] \<Rightarrow> (False, n)
      | c # rest \<Rightarrow>
          if c = 0 then (False, n) else (True, DNSName (drop (unat c + 1) (d_storage n))))"

fun chopOff_times :: "nat \<Rightarrow> DNSName \<Rightarrow> DNSName" where
  "chopOff_times 0 n = n"
| "chopOff_times (Suc k) n = chopOff_times k (snd (chopOff n))"

text \<open>The loop of \<^verbatim>\<open>trimToLabels\<close> runs once for each label beyond the requested number.\<close>

definition trimToLabels :: "DNSName \<Rightarrow> nat \<Rightarrow> DNSName" where
  "trimToLabels n to =
     (if to \<noteq> 0 then chopOff_times (countLabels n - to) n
      else if \<not> DNSName_empty n then g_rootdnsname
      else n)"

definition getLastLabel :: "DNSName \<Rightarrow> DNSName" where
  "getLastLabel n = trimToLabels n 1"

definition isWildcard :: "DNSName \<Rightarrow> bool" where
  "isWildcard n \<longleftrightarrow>
     (if length (d_storage n) < 2 then False
      else d_storage n ! 0 = 1 \<and> d_storage n ! 1 = 42)"

definition wirelength :: "DNSName \<Rightarrow> nat" where
  "wirelength n = length (d_storage n)"

definition toDNSString :: "DNSName \<Rightarrow> bytes result" where
  "toDNSString n =
     (if DNSName_empty n then Inl (out_of_range ''Attempt to DNSString an unset DNSName'')
      else Inr (d_storage n))"

definition toDNSStringLC :: "DNSName \<Rightarrow> bytes result" where
  "toDNSStringLC n = bindR (toDNSString n) (\<lambda>r. Inr (map dns_tolower r))"

definition makeUsLowerCase :: "DNSName \<Rightarrow> DNSName" where
  "makeUsLowerCase n = DNSName (map dns_tolower (d_storage n))"

definition makeLowerCase :: "DNSName \<Rightarrow> DNSName" where
  "makeLowerCase n = makeUsLowerCase n"

text \<open>\<^verbatim>\<open>operator==\<close>: same size, and bytewise equal after folding.\<close>

fun DNSName_eq_loop :: "bytes \<Rightarrow> bytes \<Rightarrow> bool" where
  "DNSName_eq_loop (u # us) (p # ps) =
     (if dns_tolower p \<noteq> dns_tolower u then False else DNSName_eq_loop us ps)"
| "DNSName_eq_loop us ps = True"

definition DNSName_eq :: "DNSName \<Rightarrow> DNSName \<Rightarrow> bool" where
  "DNSName_eq n rhs \<longleftrightarrow>
     (if DNSName_empty rhs \<noteq> DNSName_empty n \<or> length (d_storage rhs) \<noteq> length (d_storage n)
      then False
      else DNSName_eq_loop (d_storage n) (d_storage rhs))"

text \<open>
  \<^verbatim>\<open>operator<\<close>: \<^verbatim>\<open>std::lexicographical_compare\<close> over the reversed storages with folded
  bytes.
\<close>

fun lexicographical_compare_lc :: "bytes \<Rightarrow> bytes \<Rightarrow> bool" where
  "lexicographical_compare_lc [] [] = False"
| "lexicographical_compare_lc [] (b # bs) = True"
| "lexicographical_compare_lc (a # as) [] = False"
| "lexicographical_compare_lc (a # as) (b # bs) =
     (if dns_tolower a < dns_tolower b then True
      else if dns_tolower b < dns_tolower a then False
      else lexicographical_compare_lc as bs)"

definition DNSName_less :: "DNSName \<Rightarrow> DNSName \<Rightarrow> bool" where
  "DNSName_less n rhs = lexicographical_compare_lc (rev (d_storage n)) (rev (d_storage rhs))"

definition DNSName_append :: "DNSName \<Rightarrow> DNSName \<Rightarrow> DNSName result" where
  "DNSName_append n rhs =
     (if length (d_storage n) + length (d_storage rhs) > s_maxDNSNameLength + 1
      then Inl (range_error ''resulting name too long'')
      else if DNSName_empty rhs then Inr n
      else if d_storage n = [] then Inr (DNSName (d_storage rhs))
      else Inr (DNSName (butlast (d_storage n) @ d_storage rhs)))"

fun isPartOf_loop :: "bytes \<Rightarrow> bytes \<Rightarrow> bool result" where
  "isPartOf_loop [] parent = Inr False"
| "isPartOf_loop (u # us) parent =
     (if length (u # us) < length parent then Inr False
      else if length (u # us) = length parent then Inr (map dns_tolower (u # us) = map dns_tolower parent)
      else if unat u > s_maxDNSLabelLength then Inl (out_of_range ''illegal label length in DNSName'')
      else isPartOf_loop (drop (unat u) us) parent)"

definition isPartOf :: "DNSName \<Rightarrow> DNSName \<Rightarrow> bool result" where
  "isPartOf n parent =
     (if DNSName_empty parent \<or> DNSName_empty n
      then Inl (out_of_range ''empty DNSNames aren't part of anything'')
      else if length (d_storage parent) > length (d_storage n) then Inr False
      else isPartOf_loop (d_storage n) (d_storage parent))"

definition makeUsRelative :: "DNSName \<Rightarrow> DNSName \<Rightarrow> DNSName result" where
  "makeUsRelative n zone =
     bindR (isPartOf n zone) (\<lambda>part.
       if part
       then Inr (DNSName (take (length (d_storage n) - length (d_storage zone)) (d_storage n) @ [0]))
       else Inr (DNSName_clear n))"

definition makeRelative :: "DNSName \<Rightarrow> DNSName \<Rightarrow> DNSName result" where
  "makeRelative n zone = makeUsRelative n zone"

text \<open>The label lists are walked from their ends.\<close>

fun getCommonLabels_loop :: "bytes list \<Rightarrow> bytes list \<Rightarrow> DNSName \<Rightarrow> DNSName result" where
  "getCommonLabels_loop (ourLabel # ours) (otherLabel # others) res =
     (if \<not> pdns_iequals ourLabel otherLabel then Inr res
      else bindR (prependRawLabel res ourLabel) (getCommonLabels_loop ours others))"
| "getCommonLabels_loop ours others res = Inr res"

definition getCommonLabels :: "DNSName \<Rightarrow> DNSName \<Rightarrow> DNSName result" where
  "getCommonLabels n other =
     (if DNSName_empty n \<or> DNSName_empty other then Inr (DNSName [])
      else getCommonLabels_loop (rev (getRawLabels n)) (rev (getRawLabels other)) g_rootdnsname)"

fun appendRawLabels :: "DNSName \<Rightarrow> bytes list \<Rightarrow> DNSName result" where
  "appendRawLabels n [] = Inr n"
| "appendRawLabels n (l # ls) = bindR (appendRawLabel n l) (\<lambda>n'. appendRawLabels n' ls)"

definition labelReverse :: "DNSName \<Rightarrow> DNSName result" where
  "labelReverse n =
     (if DNSName_isRoot n then Inr n
      else if \<not> DNSName_empty n then appendRawLabels (DNSName []) (rev (getRawLabels n))
      else Inr (DNSName []))"

definition matchesUncompressedName :: "DNSName \<Rightarrow> bytes \<Rightarrow> bool" where
  "matchesUncompressedName n wire_uncompressed \<longleftrightarrow>
     (if (wire_uncompressed = []) \<noteq> DNSName_empty n \<or>
         length wire_uncompressed < length (d_storage n)
      then False
      else pdns_ilexicographical_compare_three_way
             (take (length (d_storage n)) wire_uncompressed) (d_storage n) = 0)"

text \<open>\<^verbatim>\<open>has8bitBytes\<close>: the inner loop over one label, then the next length byte.\<close>

definition is_name_char :: "u8 \<Rightarrow> bool" where
  "is_name_char c \<longleftrightarrow>
     (97 \<le> c \<and> c \<le> 122) \<or> (65 \<le> c \<and> c \<le> 90) \<or> (48 \<le> c \<and> c \<le> 57) \<or>
     c = 45 \<or> c = 95 \<or> c = 42 \<or> c = 46 \<or> c = 47 \<or> c = 64 \<or> c = 32 \<or> c = 92 \<or> c = 58"

fun has8bitBytes_label :: "bytes \<Rightarrow> nat \<Rightarrow> nat \<Rightarrow> (bool \<times> nat) result" where
  "has8bitBytes_label s pos 0 = Inr (False, pos)"
| "has8bitBytes_label s pos (Suc k) =
     bindR (at s (pos + 1)) (\<lambda>c.
       if \<not> is_name_char c then Inr (True, pos + 1) else has8bitBytes_label s (pos + 1) k)"

lemma has8bitBytes_label_pos:
  "has8bitBytes_label s pos k = Inr (found, pos') \<Longrightarrow> pos \<le> pos' \<and> (\<not> found \<longrightarrow> pos' = pos + k)"
  by (induction s pos k rule: has8bitBytes_label.induct) (auto simp: bindR_Inr_iff split: if_splits)

function has8bitBytes_loop :: "bytes \<Rightarrow> nat \<Rightarrow> u8 \<Rightarrow> bool result" where
  "has8bitBytes_loop s pos len =
     (if len = 0 then Inr False
      else bindR (has8bitBytes_label s pos (unat len)) (\<lambda>r.
        if fst r then Inr True
        else bindR (at s (snd r + 1)) (\<lambda>len'. has8bitBytes_loop s (snd r + 1) len')))"
  by pat_completeness auto
termination
  by (relation "measure (\<lambda>(s, pos, len). length s - pos)")
    (auto simp: at_Inr_iff dest!: has8bitBytes_label_pos)

definition has8bitBytes :: "DNSName \<Rightarrow> bool result" where
  "has8bitBytes n = bindR (at (d_storage n) 0) (\<lambda>len. has8bitBytes_loop (d_storage n) 0 len)"

section \<open>The label visitor\<close>

text \<open>
  \<^verbatim>\<open>RawLabelsVisitor\<close>: the constructor records the position of each label in an array of 128
  bytes; \<open>d_position\<close> is the number of labels left.
\<close>

record RawLabelsVisitor =
  d_labelPositions :: "u8 list"
  v_storage :: bytes
  d_position :: nat

function RawLabelsVisitor_fill :: "bytes \<Rightarrow> nat \<Rightarrow> u8 list \<Rightarrow> nat \<Rightarrow> (u8 list \<times> nat) result" where
  "RawLabelsVisitor_fill storage position positions dpos =
     (if position < length storage then
        (let labelLength = storage ! position in
         if labelLength = 0 then Inr (positions, dpos)
         else if dpos < length positions
         then RawLabelsVisitor_fill storage (position + unat labelLength + 1)
                (positions[dpos := of_nat position]) (dpos + 1)
         else Inl (out_of_range ''at''))
      else Inr (positions, dpos))"
  by pat_completeness auto
termination
  by (relation "measure (\<lambda>(storage, position, positions, dpos). length storage - position)") auto

definition getRawLabelsVisitor :: "DNSName \<Rightarrow> RawLabelsVisitor result" where
  "getRawLabelsVisitor n =
     bindR (RawLabelsVisitor_fill (d_storage n) 0 (replicate 128 0) 0) (\<lambda>(positions, dpos).
       Inr \<lparr>d_labelPositions = positions, v_storage = d_storage n, d_position = dpos\<rparr>)"

definition visitor_front :: "RawLabelsVisitor \<Rightarrow> bytes result" where
  "visitor_front v =
     (if d_position v = 0
      then Inl (out_of_range ''trying to access the front of an empty DNSName::RawLabelsVisitor'')
      else bindR (at (v_storage v) 0) (\<lambda>len.
             if len = 0 then Inr []
             else bindR (at (v_storage v) 1) (\<lambda>_. Inr (take (unat len) (drop 1 (v_storage v))))))"

definition visitor_back :: "RawLabelsVisitor \<Rightarrow> bytes result" where
  "visitor_back v =
     (if d_position v = 0
      then Inl (out_of_range ''trying to access the back of an empty DNSName::RawLabelsVisitor'')
      else bindR (at (d_labelPositions v) (d_position v - 1)) (\<lambda>offset.
             bindR (at (v_storage v) (unat offset)) (\<lambda>len.
               if len = 0 then Inr []
               else bindR (at (v_storage v) (unat offset + 1)) (\<lambda>_.
                      Inr (take (unat len) (drop (unat offset + 1) (v_storage v)))))))"

definition visitor_pop_back :: "RawLabelsVisitor \<Rightarrow> bool \<times> RawLabelsVisitor" where
  "visitor_pop_back v =
     (if d_position v > 0 then (True, v\<lparr>d_position := d_position v - 1\<rparr>) else (False, v))"

definition visitor_empty :: "RawLabelsVisitor \<Rightarrow> bool" where
  "visitor_empty v \<longleftrightarrow> d_position v = 0"

section \<open>The class invariant and the label abstraction\<close>

text \<open>
  A storage is well formed when it is a sequence of labels of 1 to 63 bytes, each after its
  length byte, closed by one zero byte. \<open>encode\<close> is the storage of a list of labels.
\<close>

fun wf_labels :: "bytes \<Rightarrow> bool" where
  "wf_labels [] = False"
| "wf_labels (p # rest) =
     (if p = 0 then rest = []
      else unat p \<le> s_maxDNSLabelLength \<and> unat p \<le> length rest \<and> wf_labels (drop (unat p) rest))"

definition DNSName_inv :: "DNSName \<Rightarrow> bool" where
  "DNSName_inv n \<longleftrightarrow>
     d_storage n = [] \<or> (wf_labels (d_storage n) \<and> length (d_storage n) \<le> s_maxDNSNameLength)"

definition enc_label :: "bytes \<Rightarrow> bytes" where
  "enc_label l = of_nat (length l) # l"

definition encode :: "bytes list \<Rightarrow> bytes" where
  "encode ls = concat (map enc_label ls) @ [0]"

definition valid_label :: "bytes \<Rightarrow> bool" where
  "valid_label l \<longleftrightarrow> 1 \<le> length l \<and> length l \<le> s_maxDNSLabelLength"

definition valid_labels :: "bytes list \<Rightarrow> bool" where
  "valid_labels ls \<longleftrightarrow> list_all valid_label ls \<and> length (encode ls) \<le> s_maxDNSNameLength"

abbreviation name_of :: "bytes list \<Rightarrow> DNSName" where
  "name_of ls \<equiv> DNSName (encode ls)"

lemmas maxlen_simps [simp] = s_maxDNSNameLength_def s_maxDNSLabelLength_def

subsection \<open>The encoding\<close>

lemma length_enc_label [simp]: "length (enc_label l) = Suc (length l)"
  by (simp add: enc_label_def)

lemma encode_Nil [simp]: "encode [] = [0]"
  by (simp add: encode_def)

lemma encode_Cons [simp]: "encode (l # ls) = of_nat (length l) # l @ encode ls"
  by (simp add: encode_def enc_label_def)

lemma encode_append: "encode (ls @ ks) = butlast (encode ls) @ encode ks"
  by (simp add: encode_def)

lemma encode_not_Nil [simp]: "encode ls \<noteq> []" "[] \<noteq> encode ls"
  by (simp_all add: encode_def)

lemma length_encode_pos [simp]: "0 < length (encode ls)"
  by simp

lemma length_encode: "length (encode ls) = Suc (\<Sum>l\<leftarrow>ls. Suc (length l))"
  by (induction ls) simp_all

lemma length_encode_append: "length (encode (ls @ ks)) = length (encode ls) + length (encode ks) - 1"
  by (simp add: length_encode)

lemma length_encode_rev [simp]: "length (encode (rev ls)) = length (encode ls)"
  by (simp add: length_encode rev_map [symmetric] sum_list_rev)

lemma last_encode [simp]: "last (encode ls) = 0"
  by (simp add: encode_def)

lemma foldc_encode: "list_all valid_label ls \<Longrightarrow> foldc (encode ls) = encode (map foldc ls)"
  by (induction ls) (auto simp: valid_label_def dns_tolower_small unat_of_nat_u8)

lemma valid_label_foldc [simp]: "valid_label (foldc l) = valid_label l"
  by (simp add: valid_label_def)

lemma valid_labels_Nil [simp]: "valid_labels []"
  by (simp add: valid_labels_def)

lemma valid_labels_Cons:
  "valid_labels (l # ls) \<Longrightarrow> valid_label l \<and> valid_labels ls"
  by (simp add: valid_labels_def)

lemma valid_labels_append:
  "valid_labels (ls @ ks) \<Longrightarrow> valid_labels ls \<and> valid_labels ks"
  by (auto simp: valid_labels_def length_encode)

lemma valid_labels_rev [simp]: "valid_labels (rev ls) = valid_labels ls"
  by (simp add: valid_labels_def list_all_iff)

lemma valid_label_head:
  assumes "valid_label l"
  shows "(of_nat (length l) :: u8) \<noteq> 0" "unat (of_nat (length l) :: u8) = length l"
  using assms by (auto simp: valid_label_def unat_of_nat_u8 of_nat_u8_eq_0_iff)

lemma rawLabels_encode: "list_all valid_label ls \<Longrightarrow> rawLabels (encode ls) = ls"
  by (induction ls) (auto simp: valid_label_head)

lemma wf_labels_encode: "list_all valid_label ls \<Longrightarrow> wf_labels (encode ls)"
  by (induction ls) (auto simp: valid_label_head, auto simp: valid_label_def)

lemma encode_rawLabels: "wf_labels s \<Longrightarrow> encode (rawLabels s) = s"
  by (induction s rule: rawLabels.induct) (auto split: if_splits)

lemma valid_rawLabels: "wf_labels s \<Longrightarrow> list_all valid_label (rawLabels s)"
proof (induction s rule: rawLabels.induct)
  case (2 p rest)
  then show ?case
    by (auto simp: valid_label_def Suc_le_eq unat_u8_pos split: if_splits)
qed simp

lemma encode_inject:
  "list_all valid_label ls \<Longrightarrow> list_all valid_label ks \<Longrightarrow> encode ls = encode ks \<longleftrightarrow> ls = ks"
  by (metis rawLabels_encode)

lemma wf_labels_iff: "wf_labels s \<longleftrightarrow> (\<exists>ls. list_all valid_label ls \<and> s = encode ls)"
  by (metis encode_rawLabels valid_rawLabels wf_labels_encode)

lemma inv_name_of [simp]: "valid_labels ls \<Longrightarrow> DNSName_inv (name_of ls)"
  by (simp add: DNSName_inv_def valid_labels_def wf_labels_encode)

lemma inv_cases:
  assumes "DNSName_inv n"
  obtains (unset) "n = DNSName []"
    | (labels) ls where "n = name_of ls" "valid_labels ls"
proof (cases "d_storage n = []")
  case True
  then show thesis using unset by (cases n) simp
next
  case False
  with assms have wf: "wf_labels (d_storage n)" and len: "length (d_storage n) \<le> 255"
    by (auto simp: DNSName_inv_def)
  from wf obtain ls where "list_all valid_label ls" "d_storage n = encode ls"
    by (auto simp: wf_labels_iff)
  with len show thesis using labels [of ls] by (cases n) (simp add: valid_labels_def)
qed

lemma inv_labels:
  assumes "DNSName_inv n" "\<not> DNSName_empty n"
  obtains ls where "n = name_of ls" "valid_labels ls"
  using assms by (cases n rule: inv_cases) (auto simp: DNSName_empty_def)

subsection \<open>Each operation on the label abstraction\<close>

named_theorems name_refine \<open>the operations on encoded label lists\<close>

lemma empty_name_of [simp]: "\<not> DNSName_empty (name_of ls)"
  by (simp add: DNSName_empty_def)

lemma isRoot_name_of [name_refine]: "valid_labels ls \<Longrightarrow> DNSName_isRoot (name_of ls) \<longleftrightarrow> ls = []"
  by (cases ls) (auto simp: DNSName_isRoot_def valid_labels_def valid_label_def)

lemma getRawLabels_name_of [name_refine]: "valid_labels ls \<Longrightarrow> getRawLabels (name_of ls) = ls"
  by (simp add: getRawLabels_def valid_labels_def rawLabels_encode)

lemma countLabels_loop_encode:
  "list_all valid_label ls \<Longrightarrow> countLabels_loop (encode ls) c = c + length ls"
  by (induction ls arbitrary: c) (auto simp: valid_label_head)

lemma countLabels_name_of [name_refine]: "valid_labels ls \<Longrightarrow> countLabels (name_of ls) = length ls"
  by (simp add: countLabels_def valid_labels_def countLabels_loop_encode)

lemma getRawLabel_loop_encode:
  "list_all valid_label ls \<Longrightarrow> c \<le> i \<Longrightarrow>
   getRawLabel_loop (encode ls) c i =
     (if i - c < length ls then Inr (ls ! (i - c))
      else Inl (out_of_range ''trying to get label at position''))"
proof (induction ls arbitrary: c)
  case (Cons l ls)
  show ?case
  proof (cases "c = i")
    case False
    with Cons.prems have "i - c = Suc (i - Suc c)" "Suc c \<le> i" by simp_all
    with False Cons show ?thesis by (simp add: valid_label_head)
  qed (use Cons.prems in \<open>simp add: valid_label_head\<close>)
qed simp

lemma getRawLabel_name_of [name_refine]:
  "valid_labels ls \<Longrightarrow>
   getRawLabel (name_of ls) i =
     (if i < length ls then Inr (ls ! i)
      else Inl (out_of_range ''trying to get label at position''))"
  by (simp add: getRawLabel_def valid_labels_def getRawLabel_loop_encode)

lemma chopOff_name_of [name_refine]:
  "valid_labels ls \<Longrightarrow> chopOff (name_of ls) = (ls \<noteq> [], name_of (tl ls))"
  by (cases ls) (auto simp: chopOff_def valid_labels_def valid_label_head)

lemma chopOff_times_name_of:
  "valid_labels ls \<Longrightarrow> chopOff_times k (name_of ls) = name_of (drop k ls)"
proof (induction k arbitrary: ls)
  case (Suc k)
  then have "valid_labels (tl ls)"
    by (cases ls) (auto dest: valid_labels_Cons)
  with Suc show ?case by (simp add: chopOff_name_of drop_Suc)
qed simp

lemma trimToLabels_name_of [name_refine]:
  "valid_labels ls \<Longrightarrow> trimToLabels (name_of ls) k = name_of (drop (length ls - k) ls)"
  by (auto simp: trimToLabels_def chopOff_times_name_of countLabels_name_of g_rootdnsname_def)

lemma checkLabelLength_iff:
  "checkLabelLength (of_nat n) = Inr u \<longleftrightarrow> 1 \<le> n mod 256 \<and> n mod 256 \<le> 63"
  by (auto simp: checkLabelLength_def word_unat_eq_iff unat_of_nat_mod_u8)

lemma valid_labels_snoc:
  "valid_labels (ls @ [l]) \<longleftrightarrow>
   list_all valid_label ls \<and> valid_label l \<and> length (encode ls) + length l \<le> 254"
  by (auto simp: valid_labels_def length_encode)

lemma valid_labels_Cons_iff:
  "valid_labels (l # ls) \<longleftrightarrow>
   list_all valid_label ls \<and> valid_label l \<and> length (encode ls) + length l \<le> 254"
  by (auto simp: valid_labels_def)

lemma appendRawLabel_name_of [name_refine]:
  assumes "valid_labels ls"
  shows "appendRawLabel (name_of ls) l = Inr n \<longleftrightarrow> valid_labels (ls @ [l]) \<and> n = name_of (ls @ [l])"
proof -
  have "appendRawLabel (name_of ls) l = Inr n \<longleftrightarrow>
      (1 \<le> length l mod 256 \<and> length l mod 256 \<le> 63) \<and> length (encode ls) + length l \<le> 254 \<and>
      n = name_of (ls @ [l])"
    by (auto simp: appendRawLabel_def bindR_Inr_iff checkLabelLength_iff encode_append Let_def)
  moreover from assms have "list_all valid_label ls" by (simp add: valid_labels_def)
  ultimately show ?thesis by (auto simp: valid_labels_snoc valid_label_def)
qed

lemma appendRawLabel_unset [name_refine]:
  "appendRawLabel (DNSName []) l = Inr n \<longleftrightarrow> valid_label l \<and> n = name_of [l]"
  by (auto simp: appendRawLabel_def bindR_Inr_iff checkLabelLength_iff valid_label_def)

lemma prependRawLabel_name_of [name_refine]:
  assumes "valid_labels ls"
  shows "prependRawLabel (name_of ls) l = Inr n \<longleftrightarrow> valid_labels (l # ls) \<and> n = name_of (l # ls)"
proof -
  have "prependRawLabel (name_of ls) l = Inr n \<longleftrightarrow>
      (1 \<le> length l mod 256 \<and> length l mod 256 \<le> 63) \<and> length (encode ls) + length l \<le> 254 \<and>
      n = name_of (l # ls)"
    by (auto simp: prependRawLabel_def bindR_Inr_iff checkLabelLength_iff Let_def)
  moreover from assms have "list_all valid_label ls" by (simp add: valid_labels_def)
  ultimately show ?thesis by (auto simp: valid_labels_Cons_iff valid_label_def)
qed

lemma prependRawLabel_unset [name_refine]:
  "prependRawLabel (DNSName []) l = Inr n \<longleftrightarrow> valid_label l \<and> n = name_of [l]"
  by (auto simp: prependRawLabel_def bindR_Inr_iff checkLabelLength_iff valid_label_def)

lemma isWildcard_name_of [name_refine]:
  assumes "valid_labels ls"
  shows "isWildcard (name_of ls) \<longleftrightarrow> (\<exists>ks. ls = [42] # ks)"
proof (cases ls)
  case (Cons l ks)
  with assms have "valid_label l" by (auto dest: valid_labels_Cons)
  then have len: "(of_nat (length l) :: u8) = 1 \<longleftrightarrow> length l = 1"
    by (auto simp: valid_label_def word_unat_eq_iff unat_of_nat_mod_u8)
  from \<open>valid_label l\<close> obtain c cs where "l = c # cs" by (cases l) (auto simp: valid_label_def)
  with Cons len show ?thesis by (auto simp: isWildcard_def)
qed (simp add: isWildcard_def)

text \<open>Equality and order.\<close>

lemma DNSName_eq_loop_iff: "length us = length ps \<Longrightarrow> DNSName_eq_loop us ps \<longleftrightarrow> foldc us = foldc ps"
  by (induction us ps rule: list_induct2) auto

lemma DNSName_eq_iff: "DNSName_eq a b \<longleftrightarrow> foldc (d_storage a) = foldc (d_storage b)"
  by (auto simp: DNSName_eq_def DNSName_empty_def DNSName_eq_loop_iff dest: foldc_eq_length)

lemma DNSName_eq_refl [simp]: "DNSName_eq a a"
  by (simp add: DNSName_eq_iff)

lemma DNSName_eq_sym: "DNSName_eq a b \<longleftrightarrow> DNSName_eq b a"
  by (auto simp: DNSName_eq_iff)

lemma DNSName_eq_trans: "DNSName_eq a b \<Longrightarrow> DNSName_eq b c \<Longrightarrow> DNSName_eq a c"
  by (simp add: DNSName_eq_iff)

lemma length_encode_foldc [simp]: "length (encode (map foldc ls)) = length (encode ls)"
  by (induction ls) simp_all

lemma valid_labels_foldc [simp]: "valid_labels (map foldc ls) = valid_labels ls"
  by (simp add: valid_labels_def list_all_iff)

lemma list_all_valid_foldc [simp]: "list_all valid_label (map foldc ls) = list_all valid_label ls"
  by (simp add: list_all_iff)

lemma DNSName_eq_name_of [name_refine]:
  "valid_labels ls \<Longrightarrow> valid_labels ks \<Longrightarrow>
   DNSName_eq (name_of ls) (name_of ks) \<longleftrightarrow> map foldc ls = map foldc ks"
  by (simp add: DNSName_eq_iff valid_labels_def foldc_encode encode_inject)

lemma makeLowerCase_name_of [name_refine]:
  "valid_labels ls \<Longrightarrow> makeLowerCase (name_of ls) = name_of (map foldc ls)"
  by (simp add: makeLowerCase_def makeUsLowerCase_def valid_labels_def foldc_encode)

text \<open>Concatenation.\<close>

lemma DNSName_append_name_of [name_refine]:
  assumes "valid_labels ls" "valid_labels ks"
  shows "DNSName_append (name_of ls) (name_of ks) =
           (if valid_labels (ls @ ks) then Inr (name_of (ls @ ks))
            else Inl (range_error ''resulting name too long''))"
proof -
  have "valid_labels (ls @ ks) \<longleftrightarrow> length (encode ls) + length (encode ks) \<le> 256"
    using assms by (auto simp: valid_labels_def length_encode)
  then show ?thesis by (auto simp: DNSName_append_def encode_append)
qed

text \<open>Being part of a zone is having its labels as a suffix, up to case.\<close>

lemma suffix_length_encode: "suffix ks ls \<Longrightarrow> length (encode ks) \<le> length (encode ls)"
  by (auto simp: suffix_def length_encode)

lemma suffix_length_encode_eq:
  "suffix ks ls \<Longrightarrow> length (encode ks) = length (encode ls) \<Longrightarrow> ks = ls"
proof -
  assume "suffix ks ls" and len: "length (encode ks) = length (encode ls)"
  then obtain ps where "ls = ps @ ks" by (auto simp: suffix_def)
  with len show "ks = ls" by (cases ps) (auto simp: length_encode)
qed

lemma isPartOf_loop_encode:
  "list_all valid_label ls \<Longrightarrow> list_all valid_label ks \<Longrightarrow>
   isPartOf_loop (encode ls) (encode ks) = Inr (suffix (map foldc ks) (map foldc ls))"
proof (induction ls)
  case Nil
  have "encode ks = [0] \<longleftrightarrow> ks = []"
    using Nil.prems encode_inject [of ks "[]"] by simp
  moreover have "length (encode ks) = 1 \<Longrightarrow> ks = []"
    by (cases ks) simp_all
  ultimately show ?case
    by (cases ks) auto
next
  case (Cons l ls)
  let ?ls = "l # ls"
  from Cons.prems have v: "valid_label l" "list_all valid_label ls" by simp_all
  consider "length (encode ?ls) < length (encode ks)" | "length (encode ?ls) = length (encode ks)"
    | "length (encode ?ls) > length (encode ks)" by linarith
  then show ?case
  proof cases
    case 1
    then have "\<not> suffix (map foldc ks) (map foldc ?ls)"
      using suffix_length_encode [of "map foldc ks" "map foldc ?ls"]
      by (simp only: length_encode_foldc) linarith
    with 1 show ?thesis by simp
  next
    case 2
    then have "suffix (map foldc ks) (map foldc ?ls) \<longleftrightarrow> map foldc ?ls = map foldc ks"
      using suffix_length_encode_eq [of "map foldc ks" "map foldc ?ls"]
      by (metis length_encode_foldc suffix_order.refl)
    moreover have "foldc (encode ?ls) = foldc (encode ks) \<longleftrightarrow> map foldc ?ls = map foldc ks"
      using Cons.prems foldc_encode [of ?ls] foldc_encode [of ks]
        encode_inject [of "map foldc ?ls" "map foldc ks"] by (simp only: list_all_valid_foldc)
    ultimately show ?thesis using 2 by (simp del: list.map)
  next
    case 3
    then have "map foldc ?ls \<noteq> map foldc ks"
      by (metis length_encode_foldc less_irrefl)
    then have "suffix (map foldc ks) (map foldc ?ls) \<longleftrightarrow> suffix (map foldc ks) (map foldc ls)"
      by (auto simp: suffix_Cons)
    moreover have "unat (of_nat (length l) :: u8) = length l" "length l \<le> 63"
      using v by (simp_all add: valid_label_head, simp add: valid_label_def)
    ultimately show ?thesis using 3 Cons.IH Cons.prems by simp
  qed
qed

lemma isPartOf_name_of [name_refine]:
  assumes "valid_labels ls" "valid_labels ks"
  shows "isPartOf (name_of ls) (name_of ks) = Inr (suffix (map foldc ks) (map foldc ls))"
proof (cases "length (encode ks) > length (encode ls)")
  case True
  then have "\<not> suffix (map foldc ks) (map foldc ls)"
    using suffix_length_encode [of "map foldc ks" "map foldc ls"] by auto
  with True show ?thesis by (simp add: isPartOf_def)
next
  case False
  with assms show ?thesis by (simp add: isPartOf_def isPartOf_loop_encode valid_labels_def)
qed

lemma suffix_foldc_split:
  assumes "suffix (map foldc ks) (map foldc ls)"
  shows "map foldc (drop (length ls - length ks) ls) = map foldc ks"
proof -
  from assms obtain zs where zs: "map foldc ls = zs @ map foldc ks" by (auto simp: suffix_def)
  then have "length zs = length ls - length ks" by (metis add_diff_cancel_right' length_append length_map)
  with zs show ?thesis by (simp add: drop_map [symmetric])
qed

lemma makeUsRelative_name_of [name_refine]:
  assumes "valid_labels ls" "valid_labels ks"
  shows "makeUsRelative (name_of ls) (name_of ks) =
           Inr (if suffix (map foldc ks) (map foldc ls)
                then name_of (take (length ls - length ks) ls) else DNSName [])"
proof (cases "suffix (map foldc ks) (map foldc ls)")
  case True
  let ?p = "take (length ls - length ks) ls" and ?q = "drop (length ls - length ks) ls"
  have "length (encode ks) = length (encode ?q)"
    by (metis length_encode_foldc suffix_foldc_split [OF True])
  moreover have "encode ls = butlast (encode ?p) @ encode ?q"
    by (metis encode_append append_take_drop_id)
  ultimately have "take (length (encode ls) - length (encode ks)) (encode ls) = butlast (encode ?p)"
    by simp
  moreover have "butlast (encode ?p) @ [0] = encode ?p"
    by (simp add: encode_def)
  ultimately show ?thesis
    using True assms by (simp add: makeUsRelative_def isPartOf_name_of)
qed (use assms in \<open>simp add: makeUsRelative_def isPartOf_name_of DNSName_clear_def\<close>)

text \<open>Common labels: the longest common suffix up to case, spelled as in the first name.\<close>

definition common_suffix :: "bytes list \<Rightarrow> bytes list \<Rightarrow> bytes list" where
  "common_suffix ls ks =
     drop (length ls - length (longest_common_prefix (map foldc (rev ls)) (map foldc (rev ks)))) ls"

lemma getCommonLabels_loop_name_of:
  assumes "valid_labels (rev ours @ res)"
  shows "getCommonLabels_loop ours others (name_of res) =
    Inr (name_of (rev (take (length (longest_common_prefix (map foldc ours) (map foldc others))) ours) @ res))"
  using assms
proof (induction ours others arbitrary: res rule: list_induct2')
  case (4 a ours b others)
  have v: "valid_labels (rev ours @ a # res)" using "4.prems" by simp
  then have "valid_labels (a # res)" "valid_labels res"
    using valid_labels_append [of "rev ours" "a # res"] valid_labels_Cons by blast+
  then have "prependRawLabel (name_of res) a = Inr (name_of (a # res))"
    by (simp add: prependRawLabel_name_of)
  with "4.IH" [OF v] show ?case by (simp add: pdns_iequals_iff del: encode_Cons)
qed simp_all

lemma getCommonLabels_name_of [name_refine]:
  assumes "valid_labels ls" "valid_labels ks"
  shows "getCommonLabels (name_of ls) (name_of ks) = Inr (name_of (common_suffix ls ks))"
proof -
  have "getCommonLabels_loop (rev ls) (rev ks) (name_of []) =
      Inr (name_of (rev (take (length (longest_common_prefix (map foldc (rev ls)) (map foldc (rev ks)))) (rev ls))))"
    using getCommonLabels_loop_name_of [of "rev ls" "[]" "rev ks"] assms by simp
  with assms show ?thesis
    by (simp add: getCommonLabels_def getRawLabels_name_of g_rootdnsname_def common_suffix_def take_rev)
qed

lemma appendRawLabels_name_of:
  "valid_labels (ks @ ls) \<Longrightarrow> appendRawLabels (name_of ks) ls = Inr (name_of (ks @ ls))"
proof (induction ls arbitrary: ks)
  case (Cons l ls)
  then have "valid_labels (ks @ [l])" "valid_labels ks"
    using valid_labels_append [of "ks @ [l]" ls] valid_labels_append [of ks "[l]"] by simp_all
  then have "appendRawLabel (name_of ks) l = Inr (name_of (ks @ [l]))"
    by (simp add: appendRawLabel_name_of)
  with Cons.IH [of "ks @ [l]"] Cons.prems show ?case by simp
qed simp

lemma appendRawLabels_unset:
  assumes "valid_labels ls" "ls \<noteq> []"
  shows "appendRawLabels (DNSName []) ls = Inr (name_of ls)"
proof -
  from assms obtain l ks where ls: "ls = l # ks" by (cases ls) auto
  with assms have "valid_label l" "valid_labels ([l] @ ks)"
    by (auto dest: valid_labels_Cons)
  moreover from this have "appendRawLabel (DNSName []) l = Inr (name_of [l])"
    by (simp add: appendRawLabel_unset)
  ultimately show ?thesis using appendRawLabels_name_of [of "[l]" ks] ls by simp
qed

lemma labelReverse_name_of [name_refine]:
  "valid_labels ls \<Longrightarrow> labelReverse (name_of ls) = Inr (name_of (rev ls))"
  by (cases "ls = []")
    (auto simp: labelReverse_def isRoot_name_of getRawLabels_name_of appendRawLabels_unset
      simp del: encode_Nil)

text \<open>Matching against uncompressed wire data.\<close>

lemma matchesUncompressedName_iff:
  assumes "\<not> DNSName_empty n"
  shows "matchesUncompressedName n w \<longleftrightarrow>
           foldc (take (length (d_storage n)) w) = foldc (d_storage n)"
  using assms
  by (auto simp: matchesUncompressedName_def DNSName_empty_def ilex_eq_0_iff dest: foldc_eq_length)

text \<open>The visitor walks the labels from the last to the first.\<close>

definition label_offset :: "bytes list \<Rightarrow> nat \<Rightarrow> nat" where
  "label_offset ls i = length (encode (take i ls)) - 1"

definition visitor_at :: "bytes list \<Rightarrow> nat \<Rightarrow> RawLabelsVisitor \<Rightarrow> bool" where
  "visitor_at ls k v \<longleftrightarrow>
     k \<le> length ls \<and> v_storage v = encode ls \<and> d_position v = k \<and> length (d_labelPositions v) = 128 \<and>
     (\<forall>i < k. unat (d_labelPositions v ! i) = label_offset ls i)"

lemma label_count_bound: "list_all valid_label ls \<Longrightarrow> 2 * length ls < length (encode ls)"
  by (induction ls) (auto simp: valid_label_def)

lemma label_offset_Suc: "i < length ls \<Longrightarrow> label_offset ls (Suc i) = label_offset ls i + length (ls ! i) + 1"
  by (simp add: label_offset_def take_Suc_conv_app_nth length_encode)

lemma drop_label_offset: "i \<le> length ls \<Longrightarrow> drop (label_offset ls i) (encode ls) = encode (drop i ls)"
proof -
  have "encode ls = butlast (encode (take i ls)) @ encode (drop i ls)"
    by (metis append_take_drop_id encode_append)
  then show ?thesis by (simp add: label_offset_def)
qed

lemma label_offset_less: "i \<le> length ls \<Longrightarrow> label_offset ls i < length (encode ls)"
  using drop_label_offset [of i ls] by (metis drop_eq_Nil encode_not_Nil(1) not_le)

lemma nth_label_offset:
  "i \<le> length ls \<Longrightarrow> encode ls ! label_offset ls i = (if i < length ls then of_nat (length (ls ! i)) else 0)"
proof -
  assume i: "i \<le> length ls"
  have "encode ls ! label_offset ls i = hd (drop (label_offset ls i) (encode ls))"
    using label_offset_less [OF i] by (simp add: hd_drop_conv_nth)
  also have "\<dots> = hd (encode (drop i ls))" using i by (simp add: drop_label_offset)
  finally show ?thesis using i by (auto simp: Cons_nth_drop_Suc [symmetric])
qed

lemma RawLabelsVisitor_fill_encode:
  assumes "valid_labels ls" "i \<le> length ls" "length ps = 128"
    and "\<forall>j < i. unat (ps ! j) = label_offset ls j"
  shows "\<exists>qs. RawLabelsVisitor_fill (encode ls) (label_offset ls i) ps i = Inr (qs, length ls) \<and>
           length qs = 128 \<and> (\<forall>j < length ls. unat (qs ! j) = label_offset ls j)"
  using assms(2-4)
proof (induction "length ls - i" arbitrary: i ps)
  case 0
  then have "i = length ls" by simp
  with 0 show ?case
    by (simp add: RawLabelsVisitor_fill.simps label_offset_less nth_label_offset)
next
  case (Suc d)
  then have i: "i < length ls" by linarith
  have vi: "valid_label (ls ! i)"
    using assms(1) i by (simp add: valid_labels_def list_all_length)
  have "2 * length ls < 255" using assms(1) label_count_bound [of ls] by (simp add: valid_labels_def)
  then have i128: "i < 128" using i by linarith
  have off: "label_offset ls i < 255"
    using label_offset_less [of i ls] i assms(1) by (simp add: valid_labels_def)
  let ?ps = "ps[i := of_nat (label_offset ls i)]"
  have "\<forall>j < Suc i. unat (?ps ! j) = label_offset ls j"
    using Suc.prems i128 off by (auto simp: less_Suc_eq unat_of_nat_u8)
  with Suc.hyps(1) [of "Suc i" ?ps] Suc.hyps(2) Suc.prems i
  have "\<exists>qs. RawLabelsVisitor_fill (encode ls) (label_offset ls (Suc i)) ?ps (Suc i) = Inr (qs, length ls) \<and>
           length qs = 128 \<and> (\<forall>j < length ls. unat (qs ! j) = label_offset ls j)"
    by simp
  then show ?case
    using i i128 vi Suc.prems
    by (simp add: RawLabelsVisitor_fill.simps [of "encode ls" "label_offset ls i"] label_offset_less
        nth_label_offset valid_label_head label_offset_Suc Let_def)
qed

lemma getRawLabelsVisitor_name_of:
  assumes "valid_labels ls"
  shows "\<exists>v. getRawLabelsVisitor (name_of ls) = Inr v \<and> visitor_at ls (length ls) v"
  using RawLabelsVisitor_fill_encode [OF assms, of 0 "replicate 128 0"]
  by (auto simp: getRawLabelsVisitor_def visitor_at_def label_offset_def)

lemma visitor_back_at:
  assumes "visitor_at ls (Suc k) v" "valid_labels ls"
  shows "visitor_back v = Inr (ls ! k)"
proof -
  from assms have k: "k < length ls" and vk: "valid_label (ls ! k)"
    by (auto simp: visitor_at_def valid_labels_def list_all_length)
  then have d: "drop (label_offset ls k) (encode ls) = of_nat (length (ls ! k)) # ls ! k @ encode (drop (Suc k) ls)"
    by (simp add: drop_label_offset Cons_nth_drop_Suc [symmetric])
  then have t: "take (length (ls ! k)) (drop (Suc (label_offset ls k)) (encode ls)) = ls ! k"
    by (simp add: drop_Suc tl_drop [symmetric])
  have "length (encode ls) - label_offset ls k = Suc (length (ls ! k) + length (encode (drop (Suc k) ls)))"
    using arg_cong [OF d, of length] by simp
  then have "Suc (label_offset ls k) < length (encode ls)"
    using vk unfolding valid_label_def by linarith
  moreover have "k < 128"
    using assms(2) label_count_bound [of ls] k by (auto simp: valid_labels_def)
  ultimately show ?thesis
    using assms(1) k vk t
    by (simp add: visitor_back_def visitor_at_def nth_label_offset valid_label_head)
qed

lemma visitor_pop_back_at:
  "visitor_at ls (Suc k) v \<Longrightarrow> \<exists>v'. visitor_pop_back v = (True, v') \<and> visitor_at ls k v'"
  by (auto simp: visitor_pop_back_def visitor_at_def)

lemma visitor_empty_at: "visitor_at ls k v \<Longrightarrow> visitor_empty v \<longleftrightarrow> k = 0"
  by (auto simp: visitor_empty_def visitor_at_def)

text \<open>Bytes outside the hostname-like set.\<close>

lemma has8bitBytes_label_iff:
  "pos + k < length s \<Longrightarrow>
   (\<exists>p. has8bitBytes_label s pos k = Inr (True, p)) \<and> \<not> list_all is_name_char (take k (drop (Suc pos) s)) \<or>
   has8bitBytes_label s pos k = Inr (False, pos + k) \<and> list_all is_name_char (take k (drop (Suc pos) s))"
proof (induction s pos k rule: has8bitBytes_label.induct)
  case (2 s pos k)
  then have "take (Suc k) (drop (Suc pos) s) = s ! Suc pos # take k (drop (Suc (Suc pos)) s)"
    by (simp add: Cons_nth_drop_Suc [symmetric])
  with 2 show ?case by auto
qed simp

lemma has8bitBytes_loop_encode:
  assumes "list_all valid_label ls" "i \<le> length ls"
  shows "has8bitBytes_loop (encode ls) (label_offset ls i) (encode ls ! label_offset ls i) =
           Inr (\<not> list_all (list_all is_name_char) (drop i ls))"
  using assms(2)
proof (induction "length ls - i" arbitrary: i)
  case 0
  then show ?case by (simp add: has8bitBytes_loop.simps nth_label_offset)
next
  case (Suc d)
  then have i: "i < length ls" by linarith
  have vi: "valid_label (ls ! i)" using assms(1) i by (simp add: list_all_length)
  have IH: "has8bitBytes_loop (encode ls) (label_offset ls (Suc i)) (encode ls ! label_offset ls (Suc i)) =
      Inr (\<not> list_all (list_all is_name_char) (drop (Suc i) ls))"
    using Suc.hyps i by simp
  have off: "label_offset ls (Suc i) = label_offset ls i + length (ls ! i) + 1"
    using i by (rule label_offset_Suc)
  have less: "label_offset ls (Suc i) < length (encode ls)"
    using i by (simp add: label_offset_less)
  have "drop (label_offset ls i) (encode ls) = of_nat (length (ls ! i)) # ls ! i @ encode (drop (Suc i) ls)"
    using i by (simp add: drop_label_offset Cons_nth_drop_Suc [symmetric])
  then have t: "take (length (ls ! i)) (drop (Suc (label_offset ls i)) (encode ls)) = ls ! i"
    by (simp add: drop_Suc tl_drop [symmetric])
  have "label_offset ls i + length (ls ! i) < length (encode ls)" using off less by linarith
  from has8bitBytes_label_iff [OF this] t
  consider p where "has8bitBytes_label (encode ls) (label_offset ls i) (length (ls ! i)) = Inr (True, p)"
      "\<not> list_all is_name_char (ls ! i)"
    | "has8bitBytes_label (encode ls) (label_offset ls i) (length (ls ! i)) =
         Inr (False, label_offset ls i + length (ls ! i))" "list_all is_name_char (ls ! i)"
    by auto
  then show ?case
    using i vi IH less off
    by cases (simp_all add: has8bitBytes_loop.simps [of "encode ls" "label_offset ls i"]
        nth_label_offset valid_label_head Cons_nth_drop_Suc [symmetric])
qed

lemma has8bitBytes_name_of [name_refine]:
  "valid_labels ls \<Longrightarrow> has8bitBytes (name_of ls) = Inr (\<not> list_all (list_all is_name_char) ls)"
  using has8bitBytes_loop_encode [of ls 0] by (simp add: has8bitBytes_def valid_labels_def label_offset_def)

declare encode_Nil [simp del] encode_Cons [simp del]

end
