(* ===== verification/NameOrder.thy ===== *)
theory NameOrder
  imports NameCore
begin

text \<open>
  The orders on names of \<^verbatim>\<open>pdns/dnsname.cc\<close> and \<^verbatim>\<open>pdns/dnsname.hh\<close>: the canonical order
  (\<^verbatim>\<open>slowCanonCompare_three_way\<close> on label vectors and the allocation-free
  \<^verbatim>\<open>canonCompare_three_way\<close>) and \<^verbatim>\<open>operator<\<close>. The fast routine is proved equal to the slow
  one on every name, the slow one to be the canonical order of RFC 4034, section 6.1, and
  both orders to be strict weak orders. The variant for display (\<^verbatim>\<open>pretty\<close>) is not.
\<close>

section \<open>The comparisons\<close>

text \<open>The loop of the slow comparison runs over the label vectors from their ends.\<close>

fun slowCanonCompare_loop :: "bytes list \<Rightarrow> bytes list \<Rightarrow> int" where
  "slowCanonCompare_loop (l # ours) (r # rhsLabels) =
     (let res = pdns_ilexicographical_compare_three_way l r
      in if res \<noteq> 0 then res else slowCanonCompare_loop ours rhsLabels)"
| "slowCanonCompare_loop [] (r # rhsLabels) = -1"
| "slowCanonCompare_loop (l # ours) [] = 1"
| "slowCanonCompare_loop [] [] = 0"

definition slowCanonCompare_three_way :: "DNSName \<Rightarrow> DNSName \<Rightarrow> int" where
  "slowCanonCompare_three_way n rhs =
     slowCanonCompare_loop (rev (getRawLabels n)) (rev (getRawLabels rhs))"

text \<open>The positions of the labels, at most 64 of them, as bytes.\<close>

function canon_positions :: "bytes \<Rightarrow> nat \<Rightarrow> u8 list \<Rightarrow> u8 list" where
  "canon_positions storage pos positions =
     (if pos < length storage \<and> storage ! pos \<noteq> 0 \<and> length positions < 64
      then canon_positions storage (pos + unat (storage ! pos) + 1) (positions @ [of_nat pos])
      else positions)"
  by pat_completeness auto
termination
  by (relation "measure (\<lambda>(storage, pos, positions). length storage - pos)") auto

declare canon_positions.simps [simp del]

definition is_digit :: "u8 \<Rightarrow> bool" where
  "is_digit c \<longleftrightarrow> 48 \<le> c \<and> c \<le> 57"

definition canon_label :: "bytes \<Rightarrow> u8 \<Rightarrow> bytes" where
  "canon_label storage p = take (unat (storage ! unat p)) (drop (unat p + 1) storage)"

fun canonCompare_loop :: "bytes \<Rightarrow> u8 list \<Rightarrow> bytes \<Rightarrow> u8 list \<Rightarrow> bool \<Rightarrow> nat \<Rightarrow> nat \<Rightarrow> int" where
  "canonCompare_loop us ourpos rhs rhspos pretty 0 0 = 0"
| "canonCompare_loop us ourpos rhs rhspos pretty 0 (Suc rhscount) = -1"
| "canonCompare_loop us ourpos rhs rhspos pretty (Suc ourcount) 0 = 1"
| "canonCompare_loop us ourpos rhs rhspos pretty (Suc ourcount) (Suc rhscount) =
     (let ourstr = canon_label us (ourpos ! ourcount);
          rhsstr = canon_label rhs (rhspos ! rhscount);
          ourlen = us ! unat (ourpos ! ourcount);
          rhslen = rhs ! unat (rhspos ! rhscount)
      in if pretty \<and> ourlen \<noteq> rhslen \<and> list_all is_digit ourstr \<and> list_all is_digit rhsstr
         then (if ourlen < rhslen then -1 else 1)
         else let res = pdns_ilexicographical_compare_three_way ourstr rhsstr
              in if res \<noteq> 0 then res
                 else canonCompare_loop us ourpos rhs rhspos pretty ourcount rhscount)"

definition canonCompare_three_way :: "DNSName \<Rightarrow> DNSName \<Rightarrow> bool \<Rightarrow> int" where
  "canonCompare_three_way n rhs pretty =
     (let ourpos = canon_positions (d_storage n) 0 [];
          rhspos = canon_positions (d_storage rhs) 0 []
      in if length ourpos = 64 \<or> length rhspos = 64 then slowCanonCompare_three_way n rhs
         else canonCompare_loop (d_storage n) ourpos (d_storage rhs) rhspos pretty
                (length ourpos) (length rhspos))"

definition canonCompare :: "DNSName \<Rightarrow> DNSName \<Rightarrow> bool \<Rightarrow> bool" where
  "canonCompare n rhs pretty \<longleftrightarrow> canonCompare_three_way n rhs pretty < 0"

section \<open>Lexicographic lifting of a comparison\<close>

fun lex3 :: "('a \<Rightarrow> 'a \<Rightarrow> int) \<Rightarrow> 'a list \<Rightarrow> 'a list \<Rightarrow> int" where
  "lex3 cmp (x # xs) (y # ys) = (if cmp x y \<noteq> 0 then cmp x y else lex3 cmp xs ys)"
| "lex3 cmp [] (y # ys) = -1"
| "lex3 cmp (x # xs) [] = 1"
| "lex3 cmp [] [] = 0"

context three_way
begin

lemma lex3_swap: "lex3 cmp xs ys < 0 \<longleftrightarrow> 0 < lex3 cmp ys xs"
  using cmp_swap cmp_zero_sym by (induction xs ys rule: list_induct2') auto

lemma lex3_trans: "lex3 cmp xs ys \<le> 0 \<Longrightarrow> lex3 cmp ys zs \<le> 0 \<Longrightarrow> lex3 cmp xs zs \<le> 0"
proof (induction xs arbitrary: ys zs)
  case Nil
  then show ?case by (cases zs) auto
next
  case (Cons x xs)
  then obtain y ys' z zs' where s: "ys = y # ys'" "zs = z # zs'"
    by (cases ys; cases zs) auto
  have "cmp x y \<le> 0" "cmp y z \<le> 0" using Cons.prems s by (auto split: if_splits)
  then consider "cmp x z < 0" | "cmp x y = 0" "cmp y z = 0" "cmp x z = 0"
    using cmp_less_le_trans [of x y z] cmp_le_less_trans [of x y z] cmp_zero_trans [of x y z] by linarith
  then show ?case using Cons s by cases auto
qed

end

lemma lex3_zero_iff:
  "(\<And>x y. cmp x y = 0 \<longleftrightarrow> f x = f y) \<Longrightarrow> lex3 cmp xs ys = 0 \<longleftrightarrow> map f xs = map f ys"
  by (induction xs ys rule: list_induct2') auto

lemma lex3_less_lexord:
  "(\<And>x y. cmp x y = 0 \<longleftrightarrow> f x = f y) \<Longrightarrow> (\<And>x y. cmp x y < 0 \<longleftrightarrow> (f x, f y) \<in> r) \<Longrightarrow>
   lex3 cmp xs ys < 0 \<longleftrightarrow> (map f xs, map f ys) \<in> lexord r"
  by (induction xs ys rule: list_induct2') (auto, metis less_irrefl)

section \<open>The canonical order\<close>

lemma slowCanonCompare_lex3: "slowCanonCompare_loop = lex3 pdns_ilexicographical_compare_three_way"
proof (intro ext)
  show "slowCanonCompare_loop xs ys = lex3 pdns_ilexicographical_compare_three_way xs ys" for xs ys
    by (induction xs ys rule: list_induct2') (auto simp: Let_def)
qed

interpretation canon: three_way slowCanonCompare_three_way
proof unfold_locales
  show "slowCanonCompare_three_way x y < 0 \<longleftrightarrow> 0 < slowCanonCompare_three_way y x" for x y
    by (simp add: slowCanonCompare_three_way_def slowCanonCompare_lex3 ilex.lex3_swap)
  show "slowCanonCompare_three_way x y \<le> 0 \<Longrightarrow> slowCanonCompare_three_way y z \<le> 0 \<Longrightarrow>
      slowCanonCompare_three_way x z \<le> 0" for x y z
    using ilex.lex3_trans by (simp add: slowCanonCompare_three_way_def slowCanonCompare_lex3)
qed

lemma ilex_less_lexord:
  "pdns_ilexicographical_compare_three_way a b < 0 \<longleftrightarrow> (foldc a, foldc b) \<in> lexord {(x, y). x < y}"
  by (induction a b rule: list_induct2') (auto simp: three_way_step word_less_def)

lemma slow_less_lexord:
  "slowCanonCompare_three_way n m < 0 \<longleftrightarrow>
     (map foldc (rev (getRawLabels n)), map foldc (rev (getRawLabels m))) \<in>
       lexord {(a, b). (a, b) \<in> lexord {(x, y). x < y}}"
  unfolding slowCanonCompare_three_way_def slowCanonCompare_lex3
  by (rule lex3_less_lexord) (simp_all add: ilex_eq_0_iff ilex_less_lexord)

lemma slow_zero_iff:
  "slowCanonCompare_three_way n m = 0 \<longleftrightarrow> map foldc (getRawLabels n) = map foldc (getRawLabels m)"
  unfolding slowCanonCompare_three_way_def slowCanonCompare_lex3
  by (subst lex3_zero_iff [where f = foldc]) (auto simp: ilex_eq_0_iff rev_map [symmetric])

section \<open>The fast comparison\<close>

lemma canon_positions_encode:
  assumes "list_all valid_label ls" "i \<le> length ls" "i \<le> 64"
  shows "canon_positions (encode ls) (label_offset ls i) (map (\<lambda>j. of_nat (label_offset ls j)) [0..<min 64 i]) =
           map (\<lambda>j. of_nat (label_offset ls j)) [0..<min 64 (length ls)]"
  using assms(2,3)
proof (induction "length ls - i" arbitrary: i)
  case 0
  then show ?case by (subst canon_positions.simps) (auto simp: nth_label_offset)
next
  case (Suc d)
  then have i: "i < length ls" by linarith
  have vi: "valid_label (ls ! i)" using assms(1) i by (simp add: list_all_length)
  show ?case
  proof (cases "i < 64")
    case True
    with Suc.hyps(1) [of "Suc i"] Suc.hyps(2) i vi show ?thesis
      by (subst canon_positions.simps)
        (simp add: nth_label_offset label_offset_less valid_label_head label_offset_Suc)
  next
    case False
    then show ?thesis using Suc.prems i by (subst canon_positions.simps) simp
  qed
qed

lemma canon_positions_name_of:
  "valid_labels ls \<Longrightarrow> canon_positions (encode ls) 0 [] = map (\<lambda>j. of_nat (label_offset ls j)) [0..<min 64 (length ls)]"
  using canon_positions_encode [of ls 0] by (simp add: valid_labels_def label_offset_def encode_Nil)

lemma label_position:
  assumes "valid_labels ls" "k < length ls"
  shows "unat (of_nat (label_offset ls k) :: u8) = label_offset ls k"
    "canon_label (encode ls) (of_nat (label_offset ls k)) = ls ! k"
    "encode ls ! label_offset ls k = of_nat (length (ls ! k))"
proof -
  show u: "unat (of_nat (label_offset ls k) :: u8) = label_offset ls k"
    using label_offset_less [of k ls] assms by (simp add: unat_of_nat_u8 valid_labels_def)
  have vk: "valid_label (ls ! k)" using assms by (simp add: valid_labels_def list_all_length)
  have "drop (label_offset ls k) (encode ls) = of_nat (length (ls ! k)) # ls ! k @ encode (drop (Suc k) ls)"
    using assms by (simp add: drop_label_offset Cons_nth_drop_Suc [symmetric] encode_Cons)
  then have "take (length (ls ! k)) (drop (Suc (label_offset ls k)) (encode ls)) = ls ! k"
    by (simp add: drop_Suc tl_drop [symmetric])
  then show "canon_label (encode ls) (of_nat (label_offset ls k)) = ls ! k"
    using assms vk by (simp add: canon_label_def u nth_label_offset valid_label_head)
  show "encode ls ! label_offset ls k = of_nat (length (ls ! k))" using assms by (simp add: nth_label_offset)
qed

text \<open>What one round of the loop compares.\<close>

definition label_cmp :: "bool \<Rightarrow> bytes \<Rightarrow> bytes \<Rightarrow> int" where
  "label_cmp pretty l r =
     (if pretty \<and> length l \<noteq> length r \<and> list_all is_digit l \<and> list_all is_digit r then (if length l < length r then -1 else 1)
      else pdns_ilexicographical_compare_three_way l r)"

lemma label_lengths:
  assumes "valid_label l" "valid_label r"
  shows "(of_nat (length l) :: u8) = of_nat (length r) \<longleftrightarrow> length l = length r"
    "(of_nat (length l) :: u8) < of_nat (length r) \<longleftrightarrow> length l < length r"
  using assms by (simp_all add: word_unat_eq_iff word_less_nat_alt unat_of_nat_u8 valid_label_def)

lemma canonCompare_loop_lex3:
  assumes "valid_labels ls" "valid_labels ks"
    and op: "\<And>i. i < length ls \<Longrightarrow> i < c \<Longrightarrow> op ! i = of_nat (label_offset ls i)"
    and rp: "\<And>i. i < length ks \<Longrightarrow> i < d \<Longrightarrow> rp ! i = of_nat (label_offset ks i)"
    and "c \<le> length ls" "d \<le> length ks"
  shows "canonCompare_loop (encode ls) op (encode ks) rp pretty c d = lex3 (label_cmp pretty) (rev (take c ls)) (rev (take d ks))"
  using assms(3-)
proof (induction c arbitrary: d)
  case 0
  then show ?case by (cases d) (auto simp: take_Suc_conv_app_nth)
next
  case (Suc c)
  show ?case
  proof (cases d)
    case 0
    then show ?thesis using Suc.prems by (simp add: take_Suc_conv_app_nth)
  next
    case (Suc d')
    then have "valid_label (ls ! c)" "valid_label (ks ! d')"
      using Suc.prems assms(1,2) by (simp_all add: valid_labels_def list_all_length)
    with Suc Suc.IH [of d'] Suc.prems assms(1,2) show ?thesis
      by (simp add: take_Suc_conv_app_nth label_position label_lengths label_cmp_def Let_def)
  qed
qed

lemma canonCompare_lex3:
  assumes "valid_labels ls" "valid_labels ks" "length ls < 64" "length ks < 64"
  shows "canonCompare_three_way (name_of ls) (name_of ks) pretty = lex3 (label_cmp pretty) (rev ls) (rev ks)"
  using assms canonCompare_loop_lex3 [OF assms(1,2), of "length ls" _ "length ks"]
  by (simp add: canonCompare_three_way_def canon_positions_name_of Let_def)

lemma canonCompare_slow:
  assumes "valid_labels ls" "valid_labels ks"
  shows "canonCompare_three_way (name_of ls) (name_of ks) False = slowCanonCompare_three_way (name_of ls) (name_of ks)"
proof (cases "length ls \<ge> 64 \<or> length ks \<ge> 64")
  case True
  then show ?thesis using assms by (auto simp: canonCompare_three_way_def canon_positions_name_of Let_def)
next
  case False
  have "label_cmp False = pdns_ilexicographical_compare_three_way" by (intro ext) (simp add: label_cmp_def)
  then show ?thesis using False canonCompare_lex3 [OF assms, of False] assms
    by (simp add: slowCanonCompare_three_way_def slowCanonCompare_lex3 getRawLabels_name_of)
qed

text \<open>
  Claim C24 (the allocation-free comparison equals the reference): on all valid names, also
  those with 64 labels or more, \<^verbatim>\<open>canonCompare_three_way\<close> without display order returns the
  very value of \<^verbatim>\<open>slowCanonCompare_three_way\<close>.
\<close>

theorem canonCompare_three_way_slow:
  assumes "DNSName_inv n" "DNSName_inv m" "\<not> DNSName_empty n" "\<not> DNSName_empty m"
  shows "canonCompare_three_way n m False = slowCanonCompare_three_way n m"
  using assms by (auto simp: DNSName_empty_def canonCompare_slow elim!: inv_cases)

theorem canonCompare_three_way_slow_witness:
  "canonCompare_three_way (DNSName [1, 97, 1, 98, 0]) (DNSName [1, 66, 0]) False =
   slowCanonCompare_three_way (DNSName [1, 97, 1, 98, 0]) (DNSName [1, 66, 0])"
proof -
  have "DNSName_inv (DNSName [1, 97, 1, 98, 0])" "DNSName_inv (DNSName [1, 66, 0])"
    "\<not> DNSName_empty (DNSName [1, 97, 1, 98, 0])" "\<not> DNSName_empty (DNSName [1, 66, 0])" by code_simp+
  then show ?thesis by (rule canonCompare_three_way_slow)
qed

text \<open>
  Claim C9 (canonical DNS order): the comparison is the order of RFC 4034, section 6.1. A name
  sorts before another exactly when its labels, read from the right and with upper-case
  letters replaced by lower-case ones, come first lexicographically, labels being compared as
  unsigned octet strings; and it compares equal exactly to the names that \<^verbatim>\<open>operator==\<close> takes for
  equal.
\<close>

theorem canonCompare_rfc4034:
  assumes "valid_labels ls" "valid_labels ks"
  shows "(canonCompare (name_of ls) (name_of ks) False \<longleftrightarrow>
      (map foldc (rev ls), map foldc (rev ks)) \<in> lexord {(a, b). (a, b) \<in> lexord {(x, y). x < y}}) \<and>
    (canonCompare_three_way (name_of ls) (name_of ks) False = 0 \<longleftrightarrow> DNSName_eq (name_of ls) (name_of ks))"
  using assms
  by (simp add: canonCompare_def canonCompare_slow slow_less_lexord slow_zero_iff getRawLabels_name_of
      DNSName_eq_name_of)

theorem canonCompare_rfc4034_witness:
  "canonCompare (name_of [[90], [97]]) (name_of [[65], [98]]) False \<longleftrightarrow>
     (map foldc (rev [[90], [97]]), map foldc (rev [[65], [98]])) \<in> lexord {(a, b). (a, b) \<in> lexord {(x, y). x < y}}"
proof -
  have "valid_labels [[90], [97]]" "valid_labels [[65], [98]]" by code_simp+
  from canonCompare_rfc4034 [OF this] show ?thesis by blast
qed

lemma lex3_common_prefix: "(\<And>x. cmp x x = 0) \<Longrightarrow> lex3 cmp (zs @ xs) (zs @ ys) = lex3 cmp xs ys"
  by (induction zs) auto

lemma label_cmp_refl: "label_cmp pretty l l = 0"
  by (simp add: label_cmp_def ilex_eq_0_iff)

lemma canonCompare_siblings:
  assumes "valid_labels (a # parent)" "valid_labels (b # parent)" "length parent < 63"
  shows "canonCompare (name_of (a # parent)) (name_of (b # parent)) pretty \<longleftrightarrow> label_cmp pretty a b < 0"
  using assms by (simp add: canonCompare_def canonCompare_lex3 lex3_common_prefix label_cmp_refl)



section \<open>The storage order\<close>

lemma lexicographical_compare_lc_iff:
  "lexicographical_compare_lc a b \<longleftrightarrow> pdns_ilexicographical_compare_three_way a b < 0"
  by (induction a b rule: lexicographical_compare_lc.induct) (auto simp: three_way_step word_less_def word_uint_eq_iff)

lemma DNSName_less_cmp:
  "DNSName_less n m \<longleftrightarrow> pdns_ilexicographical_compare_three_way (rev (d_storage n)) (rev (d_storage m)) < 0"
  by (simp add: DNSName_less_def lexicographical_compare_lc_iff)

lemma DNSName_eq_cmp:
  "DNSName_eq n m \<longleftrightarrow> pdns_ilexicographical_compare_three_way (rev (d_storage n)) (rev (d_storage m)) = 0"
  by (simp add: DNSName_eq_iff ilex_eq_0_iff rev_map [symmetric])

text \<open>
  Names with \<^verbatim>\<open>operator<\<close> and \<^verbatim>\<open>operator==\<close> are a preordered type, so the library's facts on
  sorted lists apply to ordered sets of names.
\<close>

instantiation DNSName :: preorder
begin

definition less_eq_DNSName :: "DNSName \<Rightarrow> DNSName \<Rightarrow> bool" where
  "less_eq_DNSName n m \<longleftrightarrow> DNSName_less n m \<or> DNSName_eq n m"

definition less_DNSName :: "DNSName \<Rightarrow> DNSName \<Rightarrow> bool" where
  "less_DNSName n m \<longleftrightarrow> DNSName_less n m"

instance
proof
  show "n < m \<longleftrightarrow> n \<le> m \<and> \<not> m \<le> n" for n m :: DNSName
    using ilex.cmp_swap [of "rev (d_storage n)" "rev (d_storage m)"]
      ilex.cmp_swap [of "rev (d_storage m)" "rev (d_storage n)"]
    by (auto simp: less_eq_DNSName_def less_DNSName_def DNSName_less_cmp DNSName_eq_cmp)
  show "n \<le> n" for n :: DNSName by (simp add: less_eq_DNSName_def)
  show "n \<le> m \<Longrightarrow> m \<le> k \<Longrightarrow> n \<le> k" for n m k :: DNSName
    using ilex.cmp_trans [of "rev (d_storage n)" "rev (d_storage m)" "rev (d_storage k)"]
    by (auto simp: less_eq_DNSName_def DNSName_less_cmp DNSName_eq_cmp)
qed

end

text \<open>
  Claim C25 (\<^verbatim>\<open>operator<\<close> is a strict weak order): it is irreflexive and transitive on all names, and
  two names are equivalent under it, neither before the other, exactly when \<^verbatim>\<open>operator==\<close> holds.
  Ordered sets and maps of names thus identify names up to case.
\<close>

theorem DNSName_less_strict_weak_order:
  "\<not> DNSName_less a a \<and>
   (DNSName_less a b \<and> DNSName_less b c \<longrightarrow> DNSName_less a c) \<and>
   (\<not> DNSName_less a b \<and> \<not> DNSName_less b a \<longleftrightarrow> DNSName_eq a b)"
  using ilex.cmp_less_trans [of "rev (d_storage a)" "rev (d_storage b)" "rev (d_storage c)"]
    ilex.cmp_swap [of "rev (d_storage a)" "rev (d_storage b)"]
    ilex.cmp_swap [of "rev (d_storage b)" "rev (d_storage a)"]
  by (auto simp: DNSName_less_cmp DNSName_eq_cmp ilex.cmp_refl)

theorem DNSName_less_strict_weak_order_witness:
  "DNSName_less (DNSName [1, 97, 0]) (DNSName [1, 66, 0]) \<and> DNSName_less (DNSName [1, 66, 0]) (DNSName [1, 99, 0]) \<and>
   DNSName_less (DNSName [1, 97, 0]) (DNSName [1, 99, 0])"
proof -
  have "DNSName_less (DNSName [1, 97, 0]) (DNSName [1, 66, 0])" "DNSName_less (DNSName [1, 66, 0]) (DNSName [1, 99, 0])"
    by code_simp+
  with DNSName_less_strict_weak_order [of "DNSName [1, 97, 0]" "DNSName [1, 66, 0]" "DNSName [1, 99, 0]"]
  show ?thesis by blast
qed

end
