(* ===== verification/NameText.thy ===== *)
theory NameText
  imports NameCore
begin

text \<open>
  The presentation format of names (\<^verbatim>\<open>pdns/dnsname.cc\<close>, \<^verbatim>\<open>pdns/dnslabeltext.rl\<close>): printing with
  escapes, the constructor from text, and the Ragel machine \<^verbatim>\<open>dnsnameraw\<close> it uses for text with
  backslashes. Printing and parsing are proved inverse on every valid name, and every name
  the constructor returns satisfies the class invariant.
\<close>

section \<open>Printing\<close>

text \<open>Three decimal digits, as \<^verbatim>\<open>snprintf\<close> prints a byte with \<^verbatim>\<open>%03u\<close>; it always fits its buffer.\<close>

definition decimal3 :: "u8 \<Rightarrow> bytes" where
  "decimal3 p =
     [of_nat (48 + unat p div 100), of_nat (48 + unat p div 10 mod 10), of_nat (48 + unat p mod 10)]"

definition escape_char :: "u8 \<Rightarrow> bytes" where
  "escape_char p =
     (if p = 46 then [92, 46]
      else if p = 92 then [92, 92]
      else if 0x20 < p \<and> p < 0x7f then [p]
      else 92 # decimal3 p)"

definition appendEscapedLabel :: "bytes \<Rightarrow> bytes \<Rightarrow> bytes" where
  "appendEscapedLabel appendTo orig = fold (\<lambda>p out. out @ escape_char p) orig appendTo"

fun toString_loop :: "bytes \<Rightarrow> bytes \<Rightarrow> bytes \<Rightarrow> bytes" where
  "toString_loop [] separator output = output"
| "toString_loop (p # rest) separator output =
     (if p = 0 then output
      else toString_loop (drop (unat p) rest) separator
             (appendEscapedLabel output (take (unat p) rest) @ separator))"

definition DNSName_toString :: "DNSName \<Rightarrow> bytes \<Rightarrow> bool \<Rightarrow> bytes result" where
  "DNSName_toString n separator trailing =
     (if DNSName_empty n then Inl (out_of_range ''Attempt to print an unset DNSName'')
      else if DNSName_isRoot n then Inr (if trailing then separator else [])
      else
        let output = toString_loop (d_storage n) separator []
        in Inr (if \<not> trailing then take (length output - length separator) output else output))"

definition toStringNoDot :: "DNSName \<Rightarrow> bytes result" where
  "toStringNoDot n = DNSName_toString n (ascii ''.'') False"

definition toStringRootDot :: "DNSName \<Rightarrow> bytes result" where
  "toStringRootDot n = (if DNSName_isRoot n then Inr (ascii ''.'') else DNSName_toString n (ascii ''.'') False)"

definition DNSName_toLogString :: "DNSName \<Rightarrow> bytes result" where
  "DNSName_toLogString n = (if DNSName_empty n then Inr (ascii ''(empty)'') else toStringRootDot n)"

section \<open>The machine for escaped text\<close>

text \<open>
  States of \<^verbatim>\<open>dnsnameraw\<close>: before any input, inside a label, after a backslash, after one, two
  and three digits of an escape, after a dot. The error state is the raised exception.
\<close>

datatype raw_cs = raw_start | raw_label | raw_esc | raw_d1 | raw_d2 | raw_num | raw_dot

record raw_state =
  r_cs :: raw_cs
  r_ret :: bytes
  r_val :: u8
  r_labellen :: u8
  r_lenpos :: nat

definition labelEnd :: "raw_state \<Rightarrow> raw_state result" where
  "labelEnd s =
     (if unat (r_labellen s) > 63 then Inl (runtime_error ''Unable to parse DNS name: invalid label length'')
      else Inr (s\<lparr>r_ret := (r_ret s)[r_lenpos s := r_labellen s], r_labellen := 0\<rparr>))"

definition labelBegin :: "raw_state \<Rightarrow> raw_state" where
  "labelBegin s = s\<lparr>r_lenpos := length (r_ret s), r_ret := r_ret s @ [0], r_labellen := 0\<rparr>"

definition reportPlain :: "u8 \<Rightarrow> raw_state \<Rightarrow> raw_state" where
  "reportPlain c s = s\<lparr>r_ret := r_ret s @ [c], r_labellen := r_labellen s + 1\<rparr>"

definition reportEscapedNumber :: "u8 \<Rightarrow> raw_state \<Rightarrow> raw_state" where
  "reportEscapedNumber c s = s\<lparr>r_val := r_val s * 10 + (c - 48)\<rparr>"

definition doneEscapedNumber :: "raw_state \<Rightarrow> raw_state" where
  "doneEscapedNumber s = s\<lparr>r_ret := r_ret s @ [r_val s], r_labellen := r_labellen s + 1, r_val := 0\<rparr>"

text \<open>
  \<^verbatim>\<open>doneEscapedNumber\<close> is a leaving action: it runs on the transition after the third digit, or
  at the end of the input.
\<close>

definition leave_number :: "raw_state \<Rightarrow> raw_state" where
  "leave_number s = (if r_cs s = raw_num then (doneEscapedNumber s)\<lparr>r_cs := raw_label\<rparr> else s)"

definition labelElement :: "u8 \<Rightarrow> raw_state \<Rightarrow> raw_state" where
  "labelElement c s = (if c = 92 then s\<lparr>r_cs := raw_esc\<rparr> else (reportPlain c s)\<lparr>r_cs := raw_label\<rparr>)"

definition raw_digit :: "u8 \<Rightarrow> bool" where
  "raw_digit c \<longleftrightarrow> 48 \<le> c \<and> c \<le> 57"

definition raw_error :: "raw_state result" where
  "raw_error = Inl (runtime_error ''Unable to parse DNS name: cs'')"

definition raw_step :: "u8 \<Rightarrow> raw_state \<Rightarrow> raw_state result" where
  "raw_step c s0 =
     (let s = leave_number s0 in
      case r_cs s of
        raw_start \<Rightarrow> if c = 46 then raw_error else Inr (labelElement c (labelBegin s))
      | raw_dot \<Rightarrow> if c = 46 then raw_error else Inr (labelElement c (labelBegin s))
      | raw_label \<Rightarrow> if c = 46 then bindR (labelEnd s) (\<lambda>s. Inr (s\<lparr>r_cs := raw_dot\<rparr>)) else Inr (labelElement c s)
      | raw_esc \<Rightarrow> if raw_digit c then Inr ((reportEscapedNumber c s)\<lparr>r_cs := raw_d1\<rparr>)
                   else Inr ((reportPlain c s)\<lparr>r_cs := raw_label\<rparr>)
      | raw_d1 \<Rightarrow> if raw_digit c then Inr ((reportEscapedNumber c s)\<lparr>r_cs := raw_d2\<rparr>) else raw_error
      | raw_d2 \<Rightarrow> if raw_digit c then Inr ((reportEscapedNumber c s)\<lparr>r_cs := raw_num\<rparr>) else raw_error
      | raw_num \<Rightarrow> raw_error)"

fun raw_run :: "bytes \<Rightarrow> raw_state \<Rightarrow> raw_state result" where
  "raw_run [] s = Inr s"
| "raw_run (c # cs) s = bindR (raw_step c s) (raw_run cs)"

definition raw_eof :: "raw_state \<Rightarrow> bytes result" where
  "raw_eof s0 =
     (let s = leave_number s0 in
      case r_cs s of
        raw_label \<Rightarrow> bindR (labelEnd s) (\<lambda>s. Inr (r_ret s @ [0]))
      | raw_dot \<Rightarrow> Inr (r_ret s @ [0])
      | _ \<Rightarrow> Inl (runtime_error ''Unable to parse DNS name: cs''))"

definition segmentDNSNameRaw :: "bytes \<Rightarrow> bytes result" where
  "segmentDNSNameRaw input =
     bindR (at input 0) (\<lambda>c.
       if c = 0 \<or> c = 46 then Inr [0]
       else bindR (raw_run input \<lparr>r_cs = raw_start, r_ret = [], r_val = 0, r_labellen = 0, r_lenpos = 0\<rparr>) raw_eof)"

section \<open>The constructor from text\<close>

text \<open>
  The loop for text without backslash. \<open>lenpos\<close> and \<open>labellen\<close> are bytes in the source.
\<close>

function from_string_loop :: "bytes \<Rightarrow> nat \<Rightarrow> bytes \<Rightarrow> bytes result" where
  "from_string_loop content position storage =
     (if position < length content then
        (let lenpos = (of_nat (length storage) :: u8) in
         if content ! position = 46 then Inl (range_error ''Found . in wrong position in DNSName: '')
         else
           let label = takeWhile (\<lambda>c. c \<noteq> 46) (drop position content);
               labellen = (of_nat (length label) :: u8);
               storage1 = storage @ [0] @ label;
               position1 = position + length label;
               position2 = (if position1 < length content then position1 + 1 else position1)
           in if unat labellen > s_maxDNSLabelLength then Inl (range_error ''label too long to append: '')
              else if position2 > s_maxDNSNameLength - 1 then Inl (range_error ''name too long to append: '')
              else from_string_loop content position2 (storage1[unat lenpos := labellen]))
      else Inr storage)"
  by pat_completeness auto
termination
proof (relation "measure (\<lambda>(content, position, storage). length content - position)", goal_cases)
  case (2 content position storage lenpos label labellen storage1 position1 position2)
  then have "label \<noteq> []" by (simp add: takeWhile_eq_Nil_iff hd_drop_conv_nth)
  then have "position < position2" using 2(7,8) by simp
  then show ?case using 2(1) by (simp add: diff_less_mono2)
qed simp

declare from_string_loop.simps [simp del]

definition DNSName_from_string :: "bytes \<Rightarrow> DNSName result" where
  "DNSName_from_string content =
     (if content = [] \<or> content = [46] then Inr (DNSName [0])
      else if 92 \<in> set content then
        bindR (segmentDNSNameRaw content) (\<lambda>storage.
          if length storage > s_maxDNSNameLength then Inl (range_error ''name too long: '')
          else Inr (DNSName storage))
      else
        bindR (from_string_loop content 0 []) (\<lambda>storage.
          if length storage > s_maxDNSNameLength - 1 then Inl (range_error ''name too long: '')
          else Inr (DNSName (storage @ [0]))))"

section \<open>The machine reads back what printing writes\<close>

lemma raw_run_append: "raw_run (xs @ ys) s = bindR (raw_run xs s) (raw_run ys)"
  by (induction xs arbitrary: s) (auto split: bindR_split)

lemmas raw_defs = raw_step_def leave_number_def doneEscapedNumber_def labelElement_def reportPlain_def
  reportEscapedNumber_def Let_def

text \<open>\<open>raw_at s ls cur\<close>: the labels \<open>ls\<close> are complete and \<open>cur\<close> is the part of the current label read so far.\<close>

definition raw_at :: "raw_state \<Rightarrow> bytes list \<Rightarrow> bytes \<Rightarrow> bool" where
  "raw_at s ls cur \<longleftrightarrow>
     (let t = leave_number s in
      r_cs t = raw_label \<and> r_ret t = concat (map enc_label ls) @ 0 # cur \<and>
      r_lenpos t = length (concat (map enc_label ls)) \<and> r_labellen t = of_nat (length cur) \<and> r_val t = 0)"

definition raw_before :: "raw_state \<Rightarrow> bytes list \<Rightarrow> bool" where
  "raw_before s ls \<longleftrightarrow> (r_cs s = raw_start \<or> r_cs s = raw_dot) \<and> r_ret s = concat (map enc_label ls) \<and> r_val s = 0"

lemma raw_digit_of_nat: "(d :: nat) < 10 \<Longrightarrow> raw_digit (of_nat (48 + d))"
  by (simp only: raw_digit_def word_le_nat_alt unat_of_nat_u8) simp

lemma decimal3_digits:
  fixes p :: u8
  shows "raw_digit (of_nat (48 + unat p div 100))" "raw_digit (of_nat (48 + unat p div 10 mod 10))"
  "raw_digit (of_nat (48 + unat p mod 10))"
proof -
  have "unat p < 10 * 100" using unat_u8_less [of p] by linarith
  then have "unat p div 100 < 10" "unat p div 10 mod 10 < 10" "unat p mod 10 < 10"
    using less_mult_imp_div_less [of "unat p" 10 100] by simp_all
  then show "raw_digit (of_nat (48 + unat p div 100))" "raw_digit (of_nat (48 + unat p div 10 mod 10))"
    "raw_digit (of_nat (48 + unat p mod 10))" by (simp_all only: raw_digit_of_nat)
qed

lemma decimal3_value:
  "((of_nat (unat p div 100) * 10 + of_nat (unat p div 10 mod 10)) * 10 + of_nat (unat p mod 10)) = (p :: u8)"
proof -
  have "(unat p div 100 * 10 + unat p div 10 mod 10) * 10 + unat p mod 10 = unat p"
    using div_mult2_eq [of "unat p" 10 10] by simp
  then have "of_nat ((unat p div 100 * 10 + unat p div 10 mod 10) * 10 + unat p mod 10) = p" by simp
  then show ?thesis by (simp only: of_nat_add of_nat_mult of_nat_numeral)
qed

lemma not_digits: "\<not> raw_digit 46" "\<not> raw_digit 92"
  by (simp_all add: raw_digit_def)

text \<open>Reading an escaped byte is the same as leaving a number first.\<close>

lemma raw_step_leave: "raw_step c (leave_number s) = raw_step c s"
  by (simp add: raw_defs)

lemma raw_run_leave: "xs \<noteq> [] \<Longrightarrow> raw_run xs (leave_number s) = raw_run xs s"
  by (cases xs) (simp_all add: raw_step_leave)

lemma run_plain:
  "r_cs (leave_number s) = raw_label \<Longrightarrow> c \<noteq> 46 \<Longrightarrow> c \<noteq> 92 \<Longrightarrow>
   raw_run [c] s = Inr ((reportPlain c (leave_number s))\<lparr>r_cs := raw_label\<rparr>)"
  by (simp add: raw_step_def labelElement_def Let_def)

lemma run_escaped:
  "r_cs (leave_number s) = raw_label \<Longrightarrow> \<not> raw_digit c \<Longrightarrow>
   raw_run [92, c] s = Inr ((reportPlain c (leave_number s))\<lparr>r_cs := raw_label\<rparr>)"
  by (simp add: raw_step_def labelElement_def Let_def reportPlain_def leave_number_def [of "r_cs_update _ _"])

lemma run_number:
  "r_cs (leave_number s) = raw_label \<Longrightarrow> r_val (leave_number s) = 0 \<Longrightarrow>
   raw_run (92 # decimal3 p) s = Inr ((leave_number s)\<lparr>r_cs := raw_num, r_val := p\<rparr>)"
  using decimal3_value [of p]
  by (simp add: decimal3_def raw_step_def labelElement_def Let_def reportEscapedNumber_def decimal3_digits [simplified]
      leave_number_def [of "r_cs_update _ _"] leave_number_def [of "r_val_update _ _"])

lemma raw_read_char:
  assumes "raw_at s ls cur"
  obtains s' where "raw_run (escape_char c) s = Inr s'" "raw_at s' ls (cur @ [c])"
proof -
  let ?t = "leave_number s"
  have t: "r_cs ?t = raw_label" "r_ret ?t = concat (map enc_label ls) @ 0 # cur"
    "r_lenpos ?t = length (concat (map enc_label ls))" "r_labellen ?t = of_nat (length cur)" "r_val ?t = 0"
    using assms by (auto simp: raw_at_def Let_def)
  let ?p = "(reportPlain c ?t)\<lparr>r_cs := raw_label\<rparr>" and ?n = "?t\<lparr>r_cs := raw_num, r_val := c\<rparr>"
  have "raw_at ?p ls (cur @ [c])" "raw_at ?n ls (cur @ [c])"
    using t by (simp_all add: raw_at_def leave_number_def [of "r_cs_update _ _"] leave_number_def [of "r_val_update _ _"]
        reportPlain_def doneEscapedNumber_def)
  moreover have "raw_run (escape_char c) s = Inr ?p \<or> raw_run (escape_char c) s = Inr ?n"
    using run_plain [OF t(1)] run_escaped [OF t(1)] run_number [OF t(1,5)] not_digits
    by (simp add: escape_char_def)
  ultimately show thesis using that by blast
qed

lemma raw_run_begin:
  "raw_before s ls \<Longrightarrow> c \<noteq> 46 \<Longrightarrow> raw_run (c # cs) s = raw_run (c # cs) ((labelBegin s)\<lparr>r_cs := raw_label\<rparr>)"
  by (auto simp: raw_before_def raw_step_def Let_def leave_number_def labelElement_def reportPlain_def)

lemma escape_char_head: "\<exists>d ds. escape_char c = d # ds \<and> d \<noteq> 46 \<and> d \<noteq> 0"
  by (auto simp: escape_char_def)

lemma raw_begin_char:
  assumes "raw_before s ls"
  obtains s' where "raw_run (escape_char c) s = Inr s'" "raw_at s' ls [c]"
proof -
  have "raw_at ((labelBegin s)\<lparr>r_cs := raw_label\<rparr>) ls []"
    using assms by (simp add: raw_at_def raw_before_def labelBegin_def leave_number_def)
  moreover have "raw_run (escape_char c) s = raw_run (escape_char c) ((labelBegin s)\<lparr>r_cs := raw_label\<rparr>)"
    using escape_char_head [of c] raw_run_begin [OF assms] by auto
  ultimately show thesis using raw_read_char that by (metis append_Nil)
qed

lemma raw_read_rest:
  assumes "raw_at s ls cur"
  obtains s' where "raw_run (concat (map escape_char cs)) s = Inr s'" "raw_at s' ls (cur @ cs)"
  using assms
proof (induction cs arbitrary: s cur thesis)
  case (Cons c cs)
  obtain s1 where s1: "raw_run (escape_char c) s = Inr s1" "raw_at s1 ls (cur @ [c])"
    using raw_read_char [OF Cons.prems(2)] by blast
  obtain s2 where s2: "raw_run (concat (map escape_char cs)) s1 = Inr s2" "raw_at s2 ls ((cur @ [c]) @ cs)"
    using Cons.IH [OF _ s1(2)] by blast
  show ?case using Cons.prems(1) [of s2] s1 s2 by (simp add: raw_run_append)
qed simp

lemma raw_read_label:
  assumes "raw_before s ls" "l \<noteq> []"
  obtains s' where "raw_run (concat (map escape_char l)) s = Inr s'" "raw_at s' ls l"
proof -
  obtain c cs where l: "l = c # cs" using assms(2) by (cases l) auto
  obtain s1 where s1: "raw_run (escape_char c) s = Inr s1" "raw_at s1 ls [c]"
    using raw_begin_char [OF assms(1)] by blast
  obtain s2 where "raw_run (concat (map escape_char cs)) s1 = Inr s2" "raw_at s2 ls ([c] @ cs)"
    using raw_read_rest [OF s1(2)] by blast
  then show thesis using that s1 l by (simp add: raw_run_append)
qed

lemma raw_label_end:
  assumes "raw_at s ls l" "valid_label l"
  shows "\<exists>s'. labelEnd (leave_number s) = Inr s' \<and> r_ret s' = concat (map enc_label (ls @ [l])) \<and> r_val s' = 0"
  using assms by (auto simp: raw_at_def Let_def labelEnd_def valid_label_def enc_label_def unat_of_nat_u8)

lemma raw_read_dot:
  assumes "raw_at s ls l" "valid_label l"
  obtains s' where "raw_step 46 s = Inr s'" "raw_before s' (ls @ [l])" "r_cs s' = raw_dot"
proof -
  obtain s1 where s1: "labelEnd (leave_number s) = Inr s1" "r_ret s1 = concat (map enc_label (ls @ [l]))" "r_val s1 = 0"
    using raw_label_end [OF assms] by blast
  have "r_cs (leave_number s) = raw_label" using assms(1) by (simp add: raw_at_def Let_def)
  then have "raw_step 46 s = Inr (s1\<lparr>r_cs := raw_dot\<rparr>)" using s1 by (simp add: raw_step_def Let_def)
  then show thesis using that s1 by (simp add: raw_before_def)
qed

text \<open>The text of a list of labels, each followed by a dot, and without the last dot.\<close>

definition dotted :: "bytes list \<Rightarrow> bytes" where
  "dotted ls = concat (map (\<lambda>l. concat (map escape_char l) @ [46]) ls)"

lemma raw_run_dotted:
  "raw_before s ks \<Longrightarrow> list_all valid_label ls \<Longrightarrow>
   \<exists>s'. raw_run (dotted ls) s = Inr s' \<and> raw_before s' (ks @ ls) \<and> (ls \<noteq> [] \<longrightarrow> r_cs s' = raw_dot)"
proof (induction ls arbitrary: s ks)
  case Nil
  then show ?case by (simp add: dotted_def)
next
  case (Cons l ls)
  have l: "valid_label l" "l \<noteq> []" using Cons.prems(2) by (auto simp: valid_label_def)
  obtain s1 where s1: "raw_run (concat (map escape_char l)) s = Inr s1" "raw_at s1 ks l"
    using raw_read_label [OF Cons.prems(1) l(2)] by blast
  obtain s2 where s2: "raw_step 46 s1 = Inr s2" "raw_before s2 (ks @ [l])" "r_cs s2 = raw_dot"
    using raw_read_dot [OF s1(2) l(1)] by blast
  obtain s3 where s3: "raw_run (dotted ls) s2 = Inr s3" "raw_before s3 ((ks @ [l]) @ ls)" "ls \<noteq> [] \<longrightarrow> r_cs s3 = raw_dot"
    using Cons.IH [OF s2(2)] Cons.prems(2) by auto
  have "r_cs s3 = raw_dot" using s2(3) s3 by (cases "ls = []") (auto simp: dotted_def)
  then show ?case using s1 s2 s3 by (simp add: dotted_def raw_run_append)
qed

definition undotted :: "bytes list \<Rightarrow> bytes" where
  "undotted ls = (if ls = [] then [] else dotted (butlast ls) @ concat (map escape_char (last ls)))"

lemma dotted_undotted: "ls \<noteq> [] \<Longrightarrow> dotted ls = undotted ls @ [46]"
  by (cases ls rule: rev_cases) (simp_all add: undotted_def dotted_def)

lemma undotted_head: "ls \<noteq> [] \<Longrightarrow> list_all valid_label ls \<Longrightarrow> \<exists>c cs. undotted ls = c # cs \<and> c \<noteq> 0 \<and> c \<noteq> 46"
proof -
  assume ls: "ls \<noteq> []" and v: "list_all valid_label ls"
  have label: "\<exists>c cs. concat (map escape_char l) = c # cs \<and> c \<noteq> 0 \<and> c \<noteq> 46" if "valid_label l" for l
    using that escape_char_head [of "hd l"] by (cases l) (auto simp: valid_label_def)
  show ?thesis
  proof (cases "butlast ls")
    case Nil
    have "valid_label (last ls)" using ls v by (simp add: list_all_iff)
    then show ?thesis using label [of "last ls"] ls Nil by (simp add: undotted_def dotted_def)
  next
    case (Cons l ks)
    have "valid_label l" using v Cons by (metis in_set_butlastD list.set_intros(1) list_all_iff)
    then show ?thesis using label [of l] ls Cons by (auto simp: undotted_def dotted_def)
  qed
qed

lemma segment_dotted:
  assumes "ls \<noteq> []" "list_all valid_label ls"
  shows "segmentDNSNameRaw (dotted ls) = Inr (encode ls)" "segmentDNSNameRaw (undotted ls) = Inr (encode ls)"
proof -
  let ?s = "\<lparr>r_cs = raw_start, r_ret = [], r_val = 0, r_labellen = 0, r_lenpos = 0\<rparr>"
  have init: "raw_before ?s []" by (simp add: raw_before_def)
  obtain c cs where head: "undotted ls = c # cs" "c \<noteq> 0" "c \<noteq> 46" using undotted_head [OF assms] by blast
  obtain s1 where s1: "raw_run (dotted ls) ?s = Inr s1" "raw_before s1 ([] @ ls)" "r_cs s1 = raw_dot"
    using raw_run_dotted [OF init assms(2)] assms(1) by blast
  then have "raw_eof s1 = Inr (encode ls)"
    by (simp add: raw_eof_def leave_number_def raw_before_def encode_def)
  then show "segmentDNSNameRaw (dotted ls) = Inr (encode ls)"
    using s1 head assms(1) by (simp add: segmentDNSNameRaw_def dotted_undotted)
  have bl: "list_all valid_label (butlast ls)" "valid_label (last ls)" "last ls \<noteq> []"
    using assms by (cases ls rule: rev_cases; auto simp: valid_label_def)+
  obtain s2 where s2: "raw_run (dotted (butlast ls)) ?s = Inr s2" "raw_before s2 ([] @ butlast ls)"
    using raw_run_dotted [OF init bl(1)] by blast
  obtain s3 where s3: "raw_run (concat (map escape_char (last ls))) s2 = Inr s3" "raw_at s3 (butlast ls) (last ls)"
    using raw_read_label [OF s2(2) bl(3)] by auto
  obtain s4 where "labelEnd (leave_number s3) = Inr s4" "r_ret s4 = concat (map enc_label (butlast ls @ [last ls]))"
    using raw_label_end [OF s3(2) bl(2)] by blast
  then have "raw_eof s3 = Inr (encode ls)"
    using s3(2) assms(1) by (simp add: raw_eof_def raw_at_def Let_def encode_def)
  moreover have "raw_run (undotted ls) ?s = Inr s3"
    using s2 s3 assms(1) by (simp add: undotted_def raw_run_append)
  ultimately show "segmentDNSNameRaw (undotted ls) = Inr (encode ls)"
    using head by (simp add: segmentDNSNameRaw_def)
qed

section \<open>The loop for plain text\<close>

lemma from_string_loop_label:
  assumes "valid_label l" "46 \<notin> set l" "rest = [] \<or> hd rest = 46" "length storage = length pre"
    "length pre + length l + length rest \<le> 254"
  shows "from_string_loop (pre @ l @ rest) (length pre) storage =
    from_string_loop (pre @ l @ rest) (length pre + length l + (if rest = [] then 0 else 1)) (storage @ enc_label l)"
proof -
  obtain c cs where l: "l = c # cs" "c \<noteq> 46" using assms(1,2) by (cases l) (auto simp: valid_label_def)
  have tw: "takeWhile (\<lambda>c. c \<noteq> 46) (l @ rest) = l"
    using assms(2,3) by (cases rest) (auto simp: takeWhile_append takeWhile_eq_all_conv)
  have n: "(pre @ l @ rest) ! length pre = c" using l by (simp add: nth_append)
  have u: "unat (of_nat (length pre) :: u8) = length pre" "unat (of_nat (length l) :: u8) = length l"
    using assms(1,5) by (simp_all add: unat_of_nat_u8 valid_label_def)
  have up: "(storage @ 0 # l)[length pre := of_nat (length l)] = storage @ enc_label l"
    by (simp add: enc_label_def flip: assms(4))
  have bounds: "\<not> 63 < length l" "l \<noteq> []" "length pre + length l \<le> 254" "rest \<noteq> [] \<Longrightarrow> \<not> 253 < length pre + length l"
    using assms(1,5) by (auto simp: valid_label_def Suc_le_eq neq_Nil_conv)
  show ?thesis
    using l(2) bounds assms(4) by (subst from_string_loop.simps) (simp add: n tw u up Let_def)
qed

text \<open>Plain labels separated by dots; the dot after the last one is \<open>fin\<close>.\<close>

lemma from_string_loop_labels:
  assumes "list_all valid_label ls" "\<forall>l \<in> set ls. 46 \<notin> set l" "length storage = length pre"
    "length pre + length (concat (map enc_label ls)) \<le> 254"
  shows "from_string_loop (pre @ concat (map (\<lambda>l. l @ [46]) ls)) (length pre) storage =
    Inr (storage @ concat (map enc_label ls))"
  using assms
proof (induction ls arbitrary: pre storage)
  case Nil
  then show ?case by (simp add: from_string_loop.simps)
next
  case (Cons l ls)
  let ?rest = "46 # concat (map (\<lambda>l. l @ [46]) ls)"
  have len: "length (concat (map (\<lambda>l. l @ [46 :: u8]) ls)) = length (concat (map enc_label ls))"
    by (induction ls) auto
  have "from_string_loop (pre @ l @ ?rest) (length pre) storage =
      from_string_loop (pre @ l @ ?rest) (length pre + length l + 1) (storage @ enc_label l)"
    using Cons.prems len by (subst from_string_loop_label) auto
  also have "\<dots> = from_string_loop ((pre @ l @ [46]) @ concat (map (\<lambda>l. l @ [46]) ls)) (length (pre @ l @ [46]))
      (storage @ enc_label l)" by simp
  also have "\<dots> = Inr ((storage @ enc_label l) @ concat (map enc_label ls))"
    using Cons.prems by (intro Cons.IH) auto
  finally show ?case by simp
qed

lemma from_string_loop_last:
  assumes "list_all valid_label ls" "\<forall>l \<in> set ls. 46 \<notin> set l" "length storage = length pre"
    "length pre + length (concat (map enc_label ls)) \<le> 254" "ls \<noteq> []"
  shows "from_string_loop (pre @ concat (map (\<lambda>l. l @ [46]) (butlast ls)) @ last ls) (length pre) storage =
    Inr (storage @ concat (map enc_label ls))"
  using assms
proof (induction ls arbitrary: pre storage)
  case (Cons l ls)
  show ?case
  proof (cases "ls = []")
    case True
    then show ?thesis using Cons.prems from_string_loop_label [of l "[]" storage pre]
      by (simp add: from_string_loop.simps [of "pre @ l" "length pre + length l"])
  next
    case False
    let ?tail = "concat (map (\<lambda>l. l @ [46]) (butlast ls)) @ last ls"
    have len: "length ?tail + 1 = length (concat (map enc_label ls))"
      using False by (induction ls) (auto simp: neq_Nil_conv)
    have "from_string_loop (pre @ l @ 46 # ?tail) (length pre) storage =
        from_string_loop (pre @ l @ 46 # ?tail) (length pre + length l + 1) (storage @ enc_label l)"
      using Cons.prems len by (subst from_string_loop_label) auto
    also have "\<dots> = from_string_loop ((pre @ l @ [46]) @ ?tail) (length (pre @ l @ [46])) (storage @ enc_label l)"
      by simp
    also have "\<dots> = Inr ((storage @ enc_label l) @ concat (map enc_label ls))"
      using Cons.prems False by (intro Cons.IH) auto
    finally show ?thesis using False by simp
  qed
qed simp

section \<open>Printing then parsing\<close>

lemma appendEscapedLabel_concat: "appendEscapedLabel out l = out @ concat (map escape_char l)"
  unfolding appendEscapedLabel_def by (induction l arbitrary: out) auto

lemma toString_loop_encode:
  "list_all valid_label ls \<Longrightarrow>
   toString_loop (encode ls) sep out = out @ concat (map (\<lambda>l. concat (map escape_char l) @ sep) ls)"
  by (induction ls arbitrary: out)
    (auto simp: encode_Nil encode_Cons appendEscapedLabel_concat valid_label_head)

lemma ascii_dot: "ascii ''.'' = [46]"
  by code_simp

lemma toString_name_of:
  assumes "valid_labels ls"
  shows "DNSName_toString (name_of ls) (ascii ''.'') True = Inr (if ls = [] then [46] else dotted ls)"
    "DNSName_toString (name_of ls) (ascii ''.'') False = Inr (undotted ls)"
proof -
  have "toString_loop (encode ls) [46] [] = dotted ls"
    using assms by (simp add: toString_loop_encode valid_labels_def dotted_def)
  then show "DNSName_toString (name_of ls) (ascii ''.'') True = Inr (if ls = [] then [46] else dotted ls)"
    "DNSName_toString (name_of ls) (ascii ''.'') False = Inr (undotted ls)"
    using assms isRoot_name_of [OF assms]
    by (auto simp: DNSName_toString_def ascii_dot dotted_undotted) (simp add: undotted_def)
qed

lemma escape_char_plain: "92 \<notin> set (escape_char c) \<Longrightarrow> escape_char c = [c] \<and> c \<noteq> 46"
  by (auto simp: escape_char_def split: if_splits)

lemma escape_label_plain: "92 \<notin> set (concat (map escape_char l)) \<Longrightarrow> concat (map escape_char l) = l \<and> 46 \<notin> set l"
  by (induction l) (auto dest: escape_char_plain)

lemma from_string_dotted:
  assumes "valid_labels ls" "ls \<noteq> []"
  shows "DNSName_from_string (dotted ls) = Inr (name_of ls)" "DNSName_from_string (undotted ls) = Inr (name_of ls)"
proof -
  have v: "list_all valid_label ls" "length (encode ls) \<le> 255" using assms(1) by (auto simp: valid_labels_def)
  obtain c cs where head: "undotted ls = c # cs" "c \<noteq> 0" "c \<noteq> 46" using undotted_head [OF assms(2) v(1)] by blast
  have seps: "dotted ls \<noteq> []" "dotted ls \<noteq> [46]" "undotted ls \<noteq> []" "undotted ls \<noteq> [46]"
    using head dotted_undotted [OF assms(2)] by auto
  have set: "92 \<in> set (dotted ls) \<longleftrightarrow> 92 \<in> set (undotted ls)"
    using dotted_undotted [OF assms(2)] by auto
  show "DNSName_from_string (dotted ls) = Inr (name_of ls)" "DNSName_from_string (undotted ls) = Inr (name_of ls)"
  proof (atomize (full), cases "92 \<in> set (dotted ls)")
    case True
    then show "DNSName_from_string (dotted ls) = Inr (name_of ls) \<and> DNSName_from_string (undotted ls) = Inr (name_of ls)"
      using segment_dotted [OF assms(2) v(1)] v(2) seps set by (simp add: DNSName_from_string_def)
  next
    case False
    have plain: "concat (map escape_char l) = l \<and> 46 \<notin> set l" if "l \<in> set ls" for l
      using that False by (intro escape_label_plain) (auto simp: dotted_def split: if_splits)
    have d: "dotted ls = concat (map (\<lambda>l. l @ [46]) ls)"
      using plain by (simp add: dotted_def cong: map_cong)
    have u: "undotted ls = concat (map (\<lambda>l. l @ [46]) (butlast ls)) @ last ls"
      using plain assms(2) by (simp add: undotted_def dotted_def in_set_butlastD cong: map_cong)
    have len: "length (concat (map enc_label ls)) \<le> 254" using v(2) by (simp add: encode_def)
    have "from_string_loop (dotted ls) 0 [] = Inr (concat (map enc_label ls))"
      "from_string_loop (undotted ls) 0 [] = Inr (concat (map enc_label ls))"
      unfolding d u using from_string_loop_labels [OF v(1), of "[]" "[]"] from_string_loop_last [OF v(1), of "[]" "[]"]
        plain len assms(2) by auto
    then show "DNSName_from_string (dotted ls) = Inr (name_of ls) \<and> DNSName_from_string (undotted ls) = Inr (name_of ls)"
      using seps set False len by (simp add: DNSName_from_string_def encode_def)
  qed
qed

text \<open>
  Claim C8 (presentation round trip): printing a valid name, with or without the trailing dot,
  and constructing a name from the text gives the same name back, byte for byte, whatever
  bytes its labels hold: dots, backslashes and control characters are escaped and unescaped
  exactly.
\<close>

theorem DNSName_text_roundtrip:
  assumes "valid_labels ls"
  shows "bindR (DNSName_toString (name_of ls) (ascii ''.'') trailing) DNSName_from_string = Inr (name_of ls)"
proof (cases "ls = []")
  case True
  then show ?thesis using toString_name_of [of "[]"] assms
    by (cases trailing) (auto simp: DNSName_from_string_def undotted_def encode_Nil)
next
  case False
  then show ?thesis using toString_name_of [OF assms] from_string_dotted [OF assms] by (cases trailing) auto
qed

theorem DNSName_text_roundtrip_witness:
  "bindR (DNSName_toString (name_of [[46, 0, 200], [92]]) (ascii ''.'') True) DNSName_from_string =
     Inr (name_of [[46, 0, 200], [92]])"
proof -
  have "valid_labels [[46, 0, 200], [92]]" by code_simp
  then show ?thesis by (rule DNSName_text_roundtrip)
qed

section \<open>Every constructed name is valid\<close>

text \<open>
  A label length that the machine writes is the length of the label modulo 256; the final
  check of the name's size rules out that it wrapped.
\<close>

definition raw_labels_ok :: "bytes list \<Rightarrow> bool" where
  "raw_labels_ok ls \<longleftrightarrow> list_all (\<lambda>l. l \<noteq> [] \<and> unat (of_nat (length l) :: u8) \<le> 63) ls"

definition raw_inside :: "raw_state \<Rightarrow> bytes list \<Rightarrow> bytes \<Rightarrow> bool" where
  "raw_inside s ls cur \<longleftrightarrow>
     r_ret s = concat (map enc_label ls) @ 0 # cur \<and> r_lenpos s = length (concat (map enc_label ls)) \<and>
     r_labellen s = of_nat (length cur)"

definition raw_inv :: "raw_state \<Rightarrow> bool" where
  "raw_inv s \<longleftrightarrow>
     (\<exists>ls. raw_labels_ok ls \<and>
       (if r_cs s = raw_start \<or> r_cs s = raw_dot then r_ret s = concat (map enc_label ls)
        else \<exists>cur. raw_inside s ls cur \<and> (r_cs s = raw_label \<longrightarrow> cur \<noteq> [])))"

lemma raw_inside_simps [simp]:
  "raw_inside (s\<lparr>r_cs := x\<rparr>) ls cur = raw_inside s ls cur"
  "raw_inside (s\<lparr>r_val := v\<rparr>) ls cur = raw_inside s ls cur"
  "raw_inside (reportEscapedNumber c s) ls cur = raw_inside s ls cur"
  by (simp_all add: raw_inside_def reportEscapedNumber_def)

lemma raw_inside_plain:
  "raw_inside s ls cur \<Longrightarrow> raw_inside (reportPlain c s) ls (cur @ [c])"
  "raw_inside s ls cur \<Longrightarrow> raw_inside (doneEscapedNumber s) ls (cur @ [r_val s])"
  by (simp_all add: raw_inside_def reportPlain_def doneEscapedNumber_def)

lemma raw_inside_begin: "r_ret s = concat (map enc_label ls) \<Longrightarrow> raw_inside (labelBegin s) ls []"
  by (simp add: raw_inside_def labelBegin_def)

lemma raw_invI:
  "raw_labels_ok ls \<Longrightarrow> raw_inside s ls cur \<Longrightarrow> r_cs s \<noteq> raw_start \<Longrightarrow> r_cs s \<noteq> raw_dot \<Longrightarrow>
   (r_cs s = raw_label \<Longrightarrow> cur \<noteq> []) \<Longrightarrow> raw_inv s"
  by (auto simp: raw_inv_def)

lemma raw_inv_leave: "raw_inv s \<Longrightarrow> raw_inv (leave_number s)"
  by (auto simp: raw_inv_def leave_number_def) (metis raw_inside_plain(2) snoc_eq_iff_butlast)

lemma raw_inv_labelEnd:
  assumes "raw_inv s" "r_cs s = raw_label" "labelEnd s = Inr s'"
  shows "\<exists>ls. raw_labels_ok ls \<and> r_ret s' = concat (map enc_label ls)"
proof -
  obtain ls cur where "raw_labels_ok ls" "raw_inside s ls cur" "cur \<noteq> []"
    using assms(1,2) by (auto simp: raw_inv_def)
  then show ?thesis using assms(3)
    by (intro exI [of _ "ls @ [cur]"])
      (auto simp: labelEnd_def raw_inside_def raw_labels_ok_def enc_label_def split: if_splits)
qed

lemma raw_inv_element:
  assumes "raw_labels_ok ls" "raw_inside s ls cur"
  shows "raw_inv (labelElement c s)"
proof (cases "c = 92")
  case True
  then show ?thesis using assms by (intro raw_invI [of ls _ cur]) (auto simp: labelElement_def)
next
  case False
  then show ?thesis using assms raw_inside_plain(1) [OF assms(2)]
    by (intro raw_invI [of ls _ "cur @ [c]"]) (auto simp: labelElement_def)
qed

lemma raw_inv_step:
  assumes "raw_inv s" "raw_step c s = Inr s'"
  shows "raw_inv s'"
proof -
  let ?t = "leave_number s"
  have t: "raw_inv ?t" "r_cs ?t \<noteq> raw_num" using raw_inv_leave [OF assms(1)] by (auto simp: leave_number_def)
  consider "r_cs ?t = raw_start \<or> r_cs ?t = raw_dot" | "r_cs ?t = raw_label" "c = 46" | "r_cs ?t = raw_label" "c \<noteq> 46"
    | "r_cs ?t = raw_esc" | "r_cs ?t = raw_d1 \<or> r_cs ?t = raw_d2" using t(2) by (cases "r_cs ?t") auto
  then show ?thesis
  proof cases
    case 1
    then obtain ls where "raw_labels_ok ls" "r_ret ?t = concat (map enc_label ls)" using t(1) by (auto simp: raw_inv_def)
    then show ?thesis using 1 assms(2) raw_inv_element [OF _ raw_inside_begin, of ls ?t c]
      by (auto simp: raw_step_def Let_def raw_error_def split: if_splits)
  next
    case 2
    then obtain s1 where s1: "labelEnd ?t = Inr s1" "s' = s1\<lparr>r_cs := raw_dot\<rparr>"
      using assms(2) by (auto simp: raw_step_def Let_def bindR_Inr_iff)
    with raw_inv_labelEnd [OF t(1) 2(1) s1(1)] show ?thesis by (simp add: raw_inv_def)
  next
    case 3
    then obtain ls cur where "raw_labels_ok ls" "raw_inside ?t ls cur" using t(1) by (auto simp: raw_inv_def)
    then show ?thesis using 3 assms(2) raw_inv_element [of ls ?t cur c] by (simp add: raw_step_def Let_def)
  next
    case 4
    then obtain ls cur where l: "raw_labels_ok ls" "raw_inside ?t ls cur" using t(1) by (auto simp: raw_inv_def)
    show ?thesis
    proof (cases "raw_digit c")
      case True
      then show ?thesis using 4 l assms(2) by (intro raw_invI [of ls _ cur]) (auto simp: raw_step_def Let_def)
    next
      case False
      then show ?thesis using 4 l assms(2) raw_inside_plain(1) [OF l(2), of c]
        by (intro raw_invI [of ls _ "cur @ [c]"]) (auto simp: raw_step_def Let_def)
    qed
  next
    case 5
    then obtain ls cur where "raw_labels_ok ls" "raw_inside ?t ls cur" using t(1) by (auto simp: raw_inv_def)
    then show ?thesis using 5 assms(2)
      by (intro raw_invI [of ls _ cur]) (auto simp: raw_step_def Let_def raw_error_def split: if_splits)
  qed
qed

lemma raw_inv_run: "raw_inv s \<Longrightarrow> raw_run cs s = Inr s' \<Longrightarrow> raw_inv s'"
  by (induction cs arbitrary: s) (auto simp: bindR_Inr_iff dest: raw_inv_step)

lemma raw_eof_labels:
  assumes "raw_inv s" "raw_eof s = Inr st"
  shows "\<exists>ls. raw_labels_ok ls \<and> st = encode ls"
proof (cases "r_cs (leave_number s)")
  case raw_label
  then obtain s1 where "labelEnd (leave_number s) = Inr s1" "st = r_ret s1 @ [0]"
    using assms(2) by (auto simp: raw_eof_def Let_def bindR_Inr_iff)
  then show ?thesis using raw_inv_labelEnd [OF raw_inv_leave [OF assms(1)] raw_label] by (auto simp: encode_def)
next
  case raw_dot
  then show ?thesis using raw_inv_leave [OF assms(1)] assms(2) by (auto simp: raw_inv_def raw_eof_def encode_def)
qed (use assms(2) in \<open>auto simp: raw_eof_def\<close>)

lemma raw_labels_valid: "raw_labels_ok ls \<Longrightarrow> length (encode ls) \<le> 255 \<Longrightarrow> valid_labels ls"
proof -
  assume ok: "raw_labels_ok ls" and len: "length (encode ls) \<le> 255"
  have "length l < 256" if "l \<in> set ls" for l
    using that len by (induction ls) (auto simp: encode_Cons)
  then have "list_all valid_label ls"
    using ok by (auto simp: raw_labels_ok_def list_all_iff valid_label_def unat_of_nat_u8 Suc_le_eq)
  then show ?thesis using len by (simp add: valid_labels_def)
qed

lemma segment_valid:
  assumes "segmentDNSNameRaw t = Inr st" "length st \<le> 255"
  shows "\<exists>ls. valid_labels ls \<and> st = encode ls"
proof (cases "st = [0]")
  case True
  then show ?thesis by (intro exI [of _ "[]"]) (simp add: encode_Nil)
next
  case False
  then obtain s where s: "raw_run t \<lparr>r_cs = raw_start, r_ret = [], r_val = 0, r_labellen = 0, r_lenpos = 0\<rparr> = Inr s"
    "raw_eof s = Inr st"
    using assms(1) by (auto simp: segmentDNSNameRaw_def bindR_Inr_iff split: if_splits)
  have "raw_inv \<lparr>r_cs = raw_start, r_ret = [], r_val = 0, r_labellen = 0, r_lenpos = 0\<rparr>"
    by (auto simp: raw_inv_def raw_labels_ok_def intro: exI [of _ "[]"])
  from raw_eof_labels [OF raw_inv_run [OF this s(1)] s(2)] show ?thesis
    using raw_labels_valid assms(2) by blast
qed

lemma from_string_loop_valid:
  "from_string_loop content pos storage = Inr st \<Longrightarrow> storage = concat (map enc_label ls) \<Longrightarrow>
   list_all valid_label ls \<Longrightarrow> pos < length content \<Longrightarrow> length storage = pos \<Longrightarrow>
   \<exists>ks. list_all valid_label ks \<and> st = concat (map enc_label ks)"
proof (induction "length content - pos" arbitrary: pos storage ls rule: less_induct)
  case less
  let ?l = "takeWhile (\<lambda>c. c \<noteq> 46) (drop pos content)"
  let ?p2 = "if pos + length ?l < length content then pos + length ?l + 1 else pos + length ?l"
  have c: "content ! pos \<noteq> 46" and small: "unat (of_nat (length ?l) :: u8) \<le> 63" and p2: "?p2 \<le> 254"
    and rec: "from_string_loop content ?p2
      ((storage @ [0] @ ?l)[unat (of_nat (length storage) :: u8) := of_nat (length ?l)]) = Inr st"
    using less.prems(1,4) by (subst (asm) from_string_loop.simps, auto simp: Let_def split: if_splits)+
  have ne: "?l \<noteq> []" using c less.prems(4) by (simp add: takeWhile_eq_Nil_iff hd_drop_conv_nth)
  have len: "length ?l \<le> 254" "length storage \<le> 254" using p2 less.prems(5) by (auto split: if_splits)
  then have v: "valid_label ?l" using small ne by (simp add: valid_label_def unat_of_nat_u8 Suc_le_eq)
  have "(storage @ [0] @ ?l)[unat (of_nat (length storage) :: u8) := of_nat (length ?l)] =
      concat (map enc_label (ls @ [?l]))"
    using len less.prems(2) by (simp add: unat_of_nat_u8 enc_label_def)
  with rec have rec': "from_string_loop content ?p2 (concat (map enc_label (ls @ [?l]))) = Inr st" by simp
  show ?case
  proof (cases "?p2 < length content")
    case True
    have lv: "list_all valid_label (ls @ [?l])" using less.prems(3) v by simp
    have "length (concat (map enc_label (ls @ [?l]))) = ?p2"
      using True less.prems(2,5) by (auto split: if_splits)
    moreover have "length content - ?p2 < length content - pos" using ne True less.prems(4) by auto
    ultimately show ?thesis using less.hyps [OF _ rec' refl lv True] by blast
  next
    case False
    then have "st = concat (map enc_label (ls @ [?l]))" using rec' by (subst (asm) from_string_loop.simps) auto
    then show ?thesis using less.prems(3) v by (intro exI [of _ "ls @ [?l]"]) simp
  qed
qed

lemma from_string_valid:
  assumes "DNSName_from_string t = Inr n"
  shows "\<exists>ls. n = name_of ls \<and> valid_labels ls"
proof -
  consider "t = [] \<or> t = [46]" | st where "segmentDNSNameRaw t = Inr st" "length st \<le> 255" "n = DNSName st"
    | st where "t \<noteq> []" "from_string_loop t 0 [] = Inr st" "length st \<le> 254" "n = DNSName (st @ [0])"
    using assms by (auto simp: DNSName_from_string_def bindR_Inr_iff split: if_splits)
  then show ?thesis
  proof cases
    case 1
    then have "n = name_of []" using assms by (auto simp: DNSName_from_string_def encode_Nil)
    then show ?thesis using valid_labels_Nil by blast
  next
    case 2
    then show ?thesis using segment_valid by blast
  next
    case 3
    then obtain ks where "list_all valid_label ks" "st = concat (map enc_label ks)"
      using from_string_loop_valid [OF 3(2), of "[]"] by auto
    then show ?thesis using 3 by (intro exI [of _ ks]) (simp add: encode_def valid_labels_def)
  qed
qed

text \<open>
  Claim C23 (the text constructor establishes the class invariant): whatever the text, a name
  that the constructor returns is set and well formed: labels of 1 to 63 bytes, at most 255
  bytes in all, although the label lengths are counted in a byte that may wrap.
\<close>

theorem DNSName_from_string_inv:
  assumes "DNSName_from_string t = Inr n"
  shows "DNSName_inv n \<and> \<not> DNSName_empty n"
  using from_string_valid [OF assms] by auto

theorem DNSName_from_string_inv_witness:
  "\<exists>n. DNSName_from_string (ascii ''a.b'' @ [92] @ ascii ''046'') = Inr n \<and> DNSName_inv n \<and> \<not> DNSName_empty n"
proof -
  have "DNSName_from_string (ascii ''a.b'' @ [92] @ ascii ''046'') = Inr (DNSName [1, 97, 2, 98, 46, 0])" by code_simp
  with DNSName_from_string_inv [OF this] show ?thesis by blast
qed

section \<open>A leading dot\<close>

text \<open>
  Leading dots: text that starts with a dot and goes on is rejected when it holds no
  backslash, but when it does hold one the rest of the text is dropped and the root is
  returned.
\<close>

lemma DNSName_from_string_leading_dot:
  assumes "rest \<noteq> []"
  shows "DNSName_from_string (46 # rest) =
    (if 92 \<in> set rest then Inr g_rootdnsname else Inl (range_error ''Found . in wrong position in DNSName: ''))"
  using assms
  by (simp add: DNSName_from_string_def segmentDNSNameRaw_def g_rootdnsname_def from_string_loop.simps [of "46 # rest" 0])

lemma DNSName_from_string_leading_dot_witness:
  "DNSName_from_string (46 # ascii ''a'' @ [92] @ ascii ''.com'') = Inr g_rootdnsname"
  using DNSName_from_string_leading_dot [of "ascii ''a'' @ [92] @ ascii ''.com''"] by simp

end
