(* ===== verification/Burtle.thy ===== *)
theory Burtle
  imports NameCore
begin

text \<open>
  The hash functions of \<^verbatim>\<open>pdns/burtle.hh\<close> on 32-bit words, and \<^verbatim>\<open>DNSName::hash\<close>. Lengths are
  below 4 GiB, so the 32-bit length of the source is the length of the byte string. The
  case-insensitive hash is the plain hash of the folded bytes, hence names that compare equal
  hash equally, as hashed containers of names need.
\<close>

unbundle bit_operations_syntax

section \<open>The hash functions\<close>

definition burtlemix :: "u32 \<Rightarrow> u32 \<Rightarrow> u32 \<Rightarrow> u32 \<times> u32 \<times> u32" where
  "burtlemix a b c =
     (let a = a - b; a = a - c; a = a XOR drop_bit 13 c;
          b = b - c; b = b - a; b = b XOR push_bit 8 a;
          c = c - a; c = c - b; c = c XOR drop_bit 13 b;
          a = a - b; a = a - c; a = a XOR drop_bit 12 c;
          b = b - c; b = b - a; b = b XOR push_bit 16 a;
          c = c - a; c = c - b; c = c XOR drop_bit 5 b;
          a = a - b; a = a - c; a = a XOR drop_bit 3 c;
          b = b - c; b = b - a; b = b XOR push_bit 10 a;
          c = c - a; c = c - b; c = c XOR drop_bit 15 b
      in (a, b, c))"

text \<open>\<open>word_at k i s\<close> is \<^verbatim>\<open>((uint32_t)k[i] << s)\<close>.\<close>

definition word_at :: "bytes \<Rightarrow> nat \<Rightarrow> nat \<Rightarrow> u32" where
  "word_at k i s = push_bit s (ucast (k ! i))"

function burtle_loop :: "bytes \<Rightarrow> u32 \<Rightarrow> u32 \<Rightarrow> u32 \<Rightarrow> bytes \<times> u32 \<times> u32 \<times> u32" where
  "burtle_loop k a b c =
     (if length k \<ge> 12 then
        (let a = a + (word_at k 0 0 + word_at k 1 8 + word_at k 2 16 + word_at k 3 24);
             b = b + (word_at k 4 0 + word_at k 5 8 + word_at k 6 16 + word_at k 7 24);
             c = c + (word_at k 8 0 + word_at k 9 8 + word_at k 10 16 + word_at k 11 24);
             (a, b, c) = burtlemix a b c
         in burtle_loop (drop 12 k) a b c)
      else (k, a, b, c))"
  by pat_completeness auto
termination
  by (relation "measure (\<lambda>(k, a, b, c). length k)") auto

declare burtle_loop.simps [simp del]

text \<open>The \<^verbatim>\<open>switch\<close> on the remaining length falls through: case \<open>n\<close> runs for every length from \<open>n\<close> to 11.\<close>

definition burtle_tail :: "bytes \<Rightarrow> u32 \<Rightarrow> u32 \<Rightarrow> u32 \<Rightarrow> u32 \<times> u32 \<times> u32" where
  "burtle_tail k a b c =
     (let len = length k;
          c = (if len \<ge> 11 then c + word_at k 10 24 else c);
          c = (if len \<ge> 10 then c + word_at k 9 16 else c);
          c = (if len \<ge> 9 then c + word_at k 8 8 else c);
          b = (if len \<ge> 8 then b + word_at k 7 24 else b);
          b = (if len \<ge> 7 then b + word_at k 6 16 else b);
          b = (if len \<ge> 6 then b + word_at k 5 8 else b);
          b = (if len \<ge> 5 then b + word_at k 4 0 else b);
          a = (if len \<ge> 4 then a + word_at k 3 24 else a);
          a = (if len \<ge> 3 then a + word_at k 2 16 else a);
          a = (if len \<ge> 2 then a + word_at k 1 8 else a);
          a = (if len \<ge> 1 then a + word_at k 0 0 else a)
      in (a, b, c))"

definition burtle :: "bytes \<Rightarrow> u32 \<Rightarrow> u32" where
  "burtle k initval =
     (let (k', a, b, c) = burtle_loop k 0x9e3779b9 0x9e3779b9 initval;
          (a, b, c) = burtle_tail k' a b (c + of_nat (length k));
          (a, b, c) = burtlemix a b c
      in c)"

text \<open>The same with every byte read through \<open>dns_tolower\<close>.\<close>

definition word_at_lc :: "bytes \<Rightarrow> nat \<Rightarrow> nat \<Rightarrow> u32" where
  "word_at_lc k i s = push_bit s (ucast (dns_tolower (k ! i)))"

function burtleCI_loop :: "bytes \<Rightarrow> u32 \<Rightarrow> u32 \<Rightarrow> u32 \<Rightarrow> bytes \<times> u32 \<times> u32 \<times> u32" where
  "burtleCI_loop k a b c =
     (if length k \<ge> 12 then
        (let a = a + (word_at_lc k 0 0 + word_at_lc k 1 8 + word_at_lc k 2 16 + word_at_lc k 3 24);
             b = b + (word_at_lc k 4 0 + word_at_lc k 5 8 + word_at_lc k 6 16 + word_at_lc k 7 24);
             c = c + (word_at_lc k 8 0 + word_at_lc k 9 8 + word_at_lc k 10 16 + word_at_lc k 11 24);
             (a, b, c) = burtlemix a b c
         in burtleCI_loop (drop 12 k) a b c)
      else (k, a, b, c))"
  by pat_completeness auto
termination
  by (relation "measure (\<lambda>(k, a, b, c). length k)") auto

declare burtleCI_loop.simps [simp del]

definition burtleCI_tail :: "bytes \<Rightarrow> u32 \<Rightarrow> u32 \<Rightarrow> u32 \<Rightarrow> u32 \<times> u32 \<times> u32" where
  "burtleCI_tail k a b c =
     (let len = length k;
          c = (if len \<ge> 11 then c + word_at_lc k 10 24 else c);
          c = (if len \<ge> 10 then c + word_at_lc k 9 16 else c);
          c = (if len \<ge> 9 then c + word_at_lc k 8 8 else c);
          b = (if len \<ge> 8 then b + word_at_lc k 7 24 else b);
          b = (if len \<ge> 7 then b + word_at_lc k 6 16 else b);
          b = (if len \<ge> 6 then b + word_at_lc k 5 8 else b);
          b = (if len \<ge> 5 then b + word_at_lc k 4 0 else b);
          a = (if len \<ge> 4 then a + word_at_lc k 3 24 else a);
          a = (if len \<ge> 3 then a + word_at_lc k 2 16 else a);
          a = (if len \<ge> 2 then a + word_at_lc k 1 8 else a);
          a = (if len \<ge> 1 then a + word_at_lc k 0 0 else a)
      in (a, b, c))"

definition burtleCI :: "bytes \<Rightarrow> u32 \<Rightarrow> u32" where
  "burtleCI k initval =
     (let (k', a, b, c) = burtleCI_loop k 0x9e3779b9 0x9e3779b9 initval;
          (a, b, c) = burtleCI_tail k' a b (c + of_nat (length k));
          (a, b, c) = burtlemix a b c
      in c)"

text \<open>The 64-bit initial value is narrowed to 32 bits and the 32-bit result widened.\<close>

definition DNSName_hash :: "DNSName \<Rightarrow> u64 \<Rightarrow> u64" where
  "DNSName_hash n init = ucast (burtleCI (d_storage n) (ucast init))"

section \<open>The case-insensitive hash\<close>

lemma word_at_lc_foldc: "Suc i \<le> length k \<Longrightarrow> word_at_lc k i s = word_at (foldc k) i s"
  by (simp add: word_at_lc_def word_at_def)

lemma burtleCI_loop_foldc:
  "map_prod foldc id (burtleCI_loop k a b c) = burtle_loop (foldc k) a b c"
proof (induction "length k" arbitrary: k a b c rule: less_induct)
  case less
  show ?case
  proof (cases "12 \<le> length k")
    case True
    then have w: "word_at_lc k i s = word_at (foldc k) i s" if "i < 12" for i s
      using that by (simp add: word_at_lc_foldc)
    from True have IH: "map_prod foldc id (burtleCI_loop (drop 12 k) a b c) = burtle_loop (foldc (drop 12 k)) a b c"
      for a b c by (intro less) auto
    show ?thesis using True
      by (subst burtleCI_loop.simps, subst burtle_loop.simps)
        (simp add: w drop_map Let_def IH case_prod_beta)
  next
    case False
    then show ?thesis by (subst burtleCI_loop.simps, subst burtle_loop.simps) simp
  qed
qed

lemma burtleCI_tail_foldc: "burtleCI_tail k a b c = burtle_tail (foldc k) a b c"
  by (simp add: burtleCI_tail_def burtle_tail_def word_at_lc_foldc Let_def)

lemma burtleCI_foldc: "burtleCI k initval = burtle (foldc k) initval"
  using burtleCI_loop_foldc [of k "0x9e3779b9" "0x9e3779b9" initval]
  by (auto simp: burtleCI_def burtle_def burtleCI_tail_foldc map_prod_def split: prod.splits)

text \<open>
  Claim C26 (hashing agrees with equality): the case-insensitive hash of a byte string is the
  plain hash of its lower-case form, so two names that \<^verbatim>\<open>operator==\<close> takes for equal have the
  same hash for every initial value.
\<close>

theorem DNSName_hash_respects_eq:
  "burtleCI k v = burtle (map dns_tolower k) v \<and> (DNSName_eq n m \<longrightarrow> DNSName_hash n init = DNSName_hash m init)"
  by (auto simp: burtleCI_foldc DNSName_hash_def DNSName_eq_iff)

theorem DNSName_hash_respects_eq_witness:
  "DNSName_eq (DNSName [1, 65, 0]) (DNSName [1, 97, 0]) \<and>
   DNSName_hash (DNSName [1, 65, 0]) 5 = DNSName_hash (DNSName [1, 97, 0]) 5"
proof -
  have "DNSName_eq (DNSName [1, 65, 0]) (DNSName [1, 97, 0])" by code_simp
  then show ?thesis using DNSName_hash_respects_eq [where n = "DNSName [1, 65, 0]" and m = "DNSName [1, 97, 0]" and init = 5] by blast
qed

section \<open>The mixing step loses nothing\<close>

text \<open>A third of \<open>burtlemix\<close>: three lines, each undone from the two words it leaves alone.\<close>

definition mix3 :: "(u32 \<Rightarrow> u32) \<Rightarrow> (u32 \<Rightarrow> u32) \<Rightarrow> (u32 \<Rightarrow> u32) \<Rightarrow> u32 \<times> u32 \<times> u32 \<Rightarrow> u32 \<times> u32 \<times> u32" where
  "mix3 f g h = (\<lambda>(a, b, c).
     let a = (a - b - c) XOR f c; b = (b - c - a) XOR g a; c = (c - a - b) XOR h b in (a, b, c))"

lemma xor_cancel: "a XOR m = b XOR m \<longleftrightarrow> a = (b :: u32)"
  by (metis xor.assoc xor.right_neutral xor_self_eq)

lemma mix3_inject: "mix3 f g h x = mix3 f g h y \<Longrightarrow> x = y"
  by (cases x; cases y) (auto simp: mix3_def Let_def xor_cancel)

lemma burtlemix_mix3:
  "burtlemix a b c = mix3 (drop_bit 3) (push_bit 10) (drop_bit 15)
     (mix3 (drop_bit 12) (push_bit 16) (drop_bit 5) (mix3 (drop_bit 13) (push_bit 8) (drop_bit 13) (a, b, c)))"
  unfolding burtlemix_def mix3_def Let_def prod.case by (rule refl)

text \<open>
  Mixing is a bijection: no two different states of three words are mixed to the
  same state.
\<close>

lemma burtlemix_inject: "burtlemix a b c = burtlemix a' b' c' \<longleftrightarrow> a = a' \<and> b = b' \<and> c = c'"
  unfolding burtlemix_mix3 by (auto dest!: mix3_inject)

end
