(* ===== verification/ZoneNames.thy ===== *)
theory ZoneNames
  imports NameText NameOrder Burtle
begin

text \<open>
  The class \<^verbatim>\<open>ZoneName\<close> of \<^verbatim>\<open>pdns/dnsname.hh\<close> and \<^verbatim>\<open>pdns/dnsname.cc\<close>: a name with an optional
  variant. The text form puts the variant after two consecutive unescaped dots. Printing and
  parsing are proved inverse; equality, hashing and the order are proved to agree.
\<close>

section \<open>The class and its operations\<close>

record ZoneName =
  z_name :: DNSName
  z_variant :: bytes

text \<open>\<^verbatim>\<open>string_view::find\<close> of a character from a position; \<open>None\<close> is \<^verbatim>\<open>npos\<close>.\<close>

function find_from :: "u8 \<Rightarrow> bytes \<Rightarrow> nat \<Rightarrow> nat option" where
  "find_from c name pos =
     (if pos < length name then (if name ! pos = c then Some pos else find_from c name (pos + 1)) else None)"
  by pat_completeness auto
termination
  by (relation "measure (\<lambda>(c, name, pos). length name - pos)") auto

function count_slashes :: "bytes \<Rightarrow> nat \<Rightarrow> nat \<Rightarrow> nat" where
  "count_slashes name pos slashes =
     (if pos \<ge> 2 + slashes \<and> name ! (pos - 2 - slashes) = 92 then count_slashes name pos (slashes + 1) else slashes)"
  by pat_completeness auto
termination
  by (relation "measure (\<lambda>(name, pos, slashes). pos - slashes)") auto

declare find_from.simps [simp del] count_slashes.simps [simp del]

lemma find_from_bounds: "find_from c name pos = Some p \<Longrightarrow> pos \<le> p \<and> p < length name"
proof (induction c name pos rule: find_from.induct)
  case (1 c name pos)
  then show ?case by (subst (asm) (2) find_from.simps) (auto split: if_splits)
qed

function findVariantSeparator_loop :: "bytes \<Rightarrow> nat \<Rightarrow> nat option" where
  "findVariantSeparator_loop name pos =
     (case find_from 46 name pos of
        None \<Rightarrow> None
      | Some p \<Rightarrow>
          let pos' = p + 1 in
          if pos' \<ge> length name then None
          else if name ! pos' = 46 \<and> count_slashes name pos' 0 mod 2 = 0 then Some pos'
          else findVariantSeparator_loop name pos')"
  by pat_completeness auto
termination
  by (relation "measure (\<lambda>(name, pos). length name - pos)") (auto dest: find_from_bounds)

declare findVariantSeparator_loop.simps [simp del]

definition findVariantSeparator :: "bytes \<Rightarrow> nat option" where
  "findVariantSeparator name = findVariantSeparator_loop name 0"

definition variant_char :: "u8 \<Rightarrow> bool" where
  "variant_char c \<longleftrightarrow> c \<in> set (ascii ''abcdefghijklmnopqrstuvwxyz0123456789_-'')"

definition setVariant :: "ZoneName \<Rightarrow> bytes \<Rightarrow> ZoneName result" where
  "setVariant z variant =
     (if list_ex (\<lambda>c. \<not> variant_char c) variant then Inl (out_of_range ''invalid character in variant name'')
      else Inr (z\<lparr>z_variant := variant\<rparr>))"

definition ZoneName_from_string_sep :: "bytes \<Rightarrow> nat option \<Rightarrow> ZoneName result" where
  "ZoneName_from_string_sep name sep =
     (let z = \<lparr>z_name = DNSName [], z_variant = []\<rparr> in
      case sep of
        None \<Rightarrow> bindR (DNSName_from_string name) (\<lambda>n. Inr (z\<lparr>z_name := n\<rparr>))
      | Some k \<Rightarrow> bindR (setVariant z (drop (k + 1) name)) (\<lambda>z.
          bindR (DNSName_from_string (take k name)) (\<lambda>n. Inr (z\<lparr>z_name := n\<rparr>))))"

definition ZoneName_from_string :: "bytes \<Rightarrow> ZoneName result" where
  "ZoneName_from_string name = ZoneName_from_string_sep name (findVariantSeparator name)"

definition ZoneName_eq :: "ZoneName \<Rightarrow> ZoneName \<Rightarrow> bool" where
  "ZoneName_eq z rhs \<longleftrightarrow> DNSName_eq (z_name z) (z_name rhs) \<and> z_variant z = z_variant rhs"

definition hasVariant :: "ZoneName \<Rightarrow> bool" where
  "hasVariant z \<longleftrightarrow> z_variant z \<noteq> []"

definition ZoneName_clear :: "ZoneName \<Rightarrow> ZoneName" where
  "ZoneName_clear z = \<lparr>z_name = DNSName_clear (z_name z), z_variant = []\<rparr>"

definition ZoneName_makeLowerCase :: "ZoneName \<Rightarrow> ZoneName" where
  "ZoneName_makeLowerCase z = z\<lparr>z_name := makeUsLowerCase (z_name z)\<rparr>"

definition ZoneName_chopOff :: "ZoneName \<Rightarrow> bool \<times> ZoneName" where
  "ZoneName_chopOff z = (let (r, n) = chopOff (z_name z) in (r, z\<lparr>z_name := n\<rparr>))"

definition ZoneName_trimToLabels :: "ZoneName \<Rightarrow> nat \<Rightarrow> ZoneName" where
  "ZoneName_trimToLabels z trim = z\<lparr>z_name := trimToLabels (z_name z) trim\<rparr>"

definition ZoneName_isPartOf :: "ZoneName \<Rightarrow> ZoneName \<Rightarrow> bool result" where
  "ZoneName_isPartOf z rhs = isPartOf (z_name z) (z_name rhs)"

definition ZoneName_toLogString :: "ZoneName \<Rightarrow> bytes result" where
  "ZoneName_toLogString z =
     bindR (DNSName_toLogString (z_name z)) (\<lambda>ret.
       Inr (if z_variant z \<noteq> []
            then ret @ [46] @ (if \<not> DNSName_isRoot (z_name z) then [46] else []) @ z_variant z
            else ret))"

definition ZoneName_toString :: "ZoneName \<Rightarrow> bytes \<Rightarrow> bool \<Rightarrow> bytes result" where
  "ZoneName_toString z separator trailing =
     bindR (DNSName_toString (z_name z) separator trailing) (\<lambda>ret.
       Inr (if z_variant z \<noteq> [] then ret @ (if \<not> trailing then [46] else []) @ [46] @ z_variant z else ret))"

definition ZoneName_toStringNoDot :: "ZoneName \<Rightarrow> bytes result" where
  "ZoneName_toStringNoDot z =
     bindR (toStringNoDot (z_name z)) (\<lambda>ret. Inr (if z_variant z \<noteq> [] then ret @ ascii ''..'' @ z_variant z else ret))"

definition ZoneName_toStringRootDot :: "ZoneName \<Rightarrow> bytes result" where
  "ZoneName_toStringRootDot z =
     bindR (toStringRootDot (z_name z)) (\<lambda>ret.
       Inr (if z_variant z \<noteq> []
            then ret @ (if \<not> DNSName_isRoot (z_name z) then [46] else []) @ [46] @ z_variant z
            else ret))"

definition ZoneName_hash :: "ZoneName \<Rightarrow> u64 \<Rightarrow> u64" where
  "ZoneName_hash z init =
     (let init = (if z_variant z \<noteq> [] then ucast (burtleCI (z_variant z) (ucast init)) else init)
      in DNSName_hash (z_name z) init)"

text \<open>
  \<^verbatim>\<open>std::string\<close> comparison, byte by byte as unsigned characters; of \<^verbatim>\<open>compare\<close> only the sign is
  specified, and it is 1 or -1 here.
\<close>

fun string_compare :: "bytes \<Rightarrow> bytes \<Rightarrow> int" where
  "string_compare [] [] = 0"
| "string_compare [] (b # bs) = -1"
| "string_compare (a # as) [] = 1"
| "string_compare (a # as) (b # bs) = (if a < b then -1 else if b < a then 1 else string_compare as bs)"

text \<open>The loop of \<^verbatim>\<open>operator<\<close> over the reversed storages: \<open>Some\<close> is an early return.\<close>

fun ZoneName_less_loop :: "bytes \<Rightarrow> bytes \<Rightarrow> bool option" where
  "ZoneName_less_loop (a # as) (b # bs) =
     (if dns_tolower a < dns_tolower b then Some True
      else if dns_tolower b < dns_tolower a then Some False
      else ZoneName_less_loop as bs)"
| "ZoneName_less_loop [] (b # bs) = Some True"
| "ZoneName_less_loop (a # as) [] = Some False"
| "ZoneName_less_loop [] [] = None"

definition ZoneName_less :: "ZoneName \<Rightarrow> ZoneName \<Rightarrow> bool" where
  "ZoneName_less z rhs =
     (case ZoneName_less_loop (rev (d_storage (z_name z))) (rev (d_storage (z_name rhs))) of
        Some r \<Rightarrow> r
      | None \<Rightarrow> string_compare (z_variant z) (z_variant rhs) < 0)"

definition ZoneName_canonCompare_three_way :: "ZoneName \<Rightarrow> ZoneName \<Rightarrow> int" where
  "ZoneName_canonCompare_three_way z rhs =
     (let res = canonCompare_three_way (z_name z) (z_name rhs) False
      in if res \<noteq> 0 then res else string_compare (z_variant z) (z_variant rhs))"

section \<open>Finding the variant\<close>

text \<open>The backslashes at the end of a text.\<close>

definition trail :: "bytes \<Rightarrow> nat" where
  "trail xs = length (takeWhile (\<lambda>c. c = 92) (rev xs))"

lemma trail_simps [simp]: "trail [] = 0" "trail (xs @ [c]) = (if c = 92 then Suc (trail xs) else 0)"
  by (simp_all add: trail_def)

lemma count_slashes_trail:
  assumes "pre = take (pos - 1) name" "0 < pos" "pos \<le> length name"
  shows "count_slashes name pos 0 = trail pre"
proof -
  have "count_slashes name pos k = k + trail (take (pos - 1 - k) name)" if "k < pos" for k
    using that
  proof (induction "pos - k" arbitrary: k rule: less_induct)
    case less
    show ?case
    proof (cases "2 + k \<le> pos")
      case True
      then have "pos - 1 - k = Suc (pos - 2 - k)" "pos - 2 - k < length name" using assms(3) by linarith+
      then have "take (pos - 1 - k) name = take (pos - 2 - k) name @ [name ! (pos - 2 - k)]"
        by (simp only: take_Suc_conv_app_nth)
      then show ?thesis using less True by (subst count_slashes.simps) (simp add: numeral_2_eq_2)
    next
      case False
      then have "pos - 1 - k = 0" by simp
      then show ?thesis using False by (subst count_slashes.simps) (simp del: diff_is_0_eq)
    qed
  qed
  from this [of 0] assms show ?thesis by simp
qed

lemma find_from_skip:
  "46 \<notin> set xs \<Longrightarrow> find_from 46 (pre @ xs @ rest) (length pre) = find_from 46 (pre @ xs @ rest) (length pre + length xs)"
proof (induction xs arbitrary: pre)
  case (Cons x xs)
  have "find_from 46 (pre @ (x # xs) @ rest) (length pre) = find_from 46 ((pre @ [x]) @ xs @ rest) (length (pre @ [x]))"
    using Cons.prems by (subst find_from.simps) simp
  then show ?case using Cons.IH [of "pre @ [x]"] Cons.prems by simp
qed simp

lemma find_from_here: "find_from 46 (pre @ 46 # rest) (length pre) = Some (length pre)"
  by (subst find_from.simps) simp

lemma separator_loop_skip:
  assumes "46 \<notin> set xs"
  shows "findVariantSeparator_loop (pre @ xs @ rest) (length pre) =
    findVariantSeparator_loop (pre @ xs @ rest) (length (pre @ xs))"
  by (subst (1 2) findVariantSeparator_loop.simps) (simp add: find_from_skip [OF assms])

lemma separator_loop_dot:
  "findVariantSeparator_loop (pre @ 46 # rest) (length pre) =
     (if rest \<noteq> [] \<and> hd rest = 46 \<and> even (trail pre) then Some (length pre + 1)
      else findVariantSeparator_loop (pre @ 46 # rest) (length (pre @ [46])))"
proof -
  have c: "count_slashes (pre @ 46 # rest) (Suc (length pre)) 0 = trail pre" if "rest \<noteq> []"
    using that by (intro count_slashes_trail) auto
  have n: "(pre @ 46 # rest) ! Suc (length pre) = hd rest" if "rest \<noteq> []"
    using that by (simp add: nth_append hd_conv_nth)
  have e: "findVariantSeparator_loop (pre @ [46]) (Suc (length pre)) = None"
    by (subst findVariantSeparator_loop.simps, subst find_from.simps) simp
  show ?thesis
    by (subst findVariantSeparator_loop.simps, cases "rest = []")
      (simp_all add: find_from_here c n e Let_def even_iff_mod_2_eq_zero)
qed

lemma trail_escape: "even (trail pre) \<Longrightarrow> even (trail (pre @ escape_char c))"
proof -
  have last: "trail (pre @ 92 # [x, y, z]) = (if z = 92 then Suc (trail (pre @ [92, x, y])) else 0)" for x y z
    using trail_simps(2) [of "pre @ [92, x, y]" z] by simp
  have "of_nat (48 + unat c mod 10) \<noteq> (92 :: u8)" using decimal3_digits(3) [of c] not_digits(2) by metis
  then show "even (trail pre) \<Longrightarrow> even (trail (pre @ escape_char c))"
    using trail_simps(2) [of "pre @ [92]" 92] trail_simps(2) [of "pre @ [92]" 46] trail_simps(2) [of pre]
    by (auto simp: escape_char_def decimal3_def last)
qed

lemma trail_escapes: "even (trail pre) \<Longrightarrow> even (trail (pre @ concat (map escape_char l)))"
proof (induction l arbitrary: pre)
  case (Cons c l)
  then show ?case using Cons.IH [OF trail_escape, of pre c] by simp
qed simp

lemma escape_dot: "46 \<in> set (escape_char c) \<Longrightarrow> c = 46"
proof -
  assume m: "46 \<in> set (escape_char c)"
  have "of_nat (48 + unat c div 100) \<noteq> (46 :: u8)" "of_nat (48 + unat c div 10 mod 10) \<noteq> (46 :: u8)"
    "of_nat (48 + unat c mod 10) \<noteq> (46 :: u8)"
    using decimal3_digits [of c] not_digits(1) by metis+
  then show "c = 46" using m by (auto simp: escape_char_def decimal3_def split: if_splits)
qed

lemma separator_escape:
  assumes "even (trail pre)"
  shows "findVariantSeparator_loop (pre @ escape_char c @ rest) (length pre) =
    findVariantSeparator_loop (pre @ escape_char c @ rest) (length (pre @ escape_char c))"
proof (cases "c = 46")
  case True
  have "findVariantSeparator_loop (pre @ [92] @ 46 # rest) (length pre) =
      findVariantSeparator_loop (pre @ [92] @ 46 # rest) (length (pre @ [92]))"
    by (rule separator_loop_skip) simp
  also have "\<dots> = findVariantSeparator_loop ((pre @ [92]) @ 46 # rest) (length ((pre @ [92]) @ [46]))"
    using assms separator_loop_dot [of "pre @ [92]" rest] by simp
  finally show ?thesis using True by (simp add: escape_char_def)
next
  case False
  then show ?thesis by (intro separator_loop_skip) (auto dest: escape_dot)
qed

lemma separator_label:
  "even (trail pre) \<Longrightarrow>
   findVariantSeparator_loop (pre @ concat (map escape_char l) @ rest) (length pre) =
   findVariantSeparator_loop (pre @ concat (map escape_char l) @ rest) (length (pre @ concat (map escape_char l)))"
proof (induction l arbitrary: pre)
  case (Cons c l)
  show ?case
    using separator_escape [OF Cons.prems, of c "concat (map escape_char l) @ rest"]
      Cons.IH [OF trail_escape [OF Cons.prems, of c]] by (simp add: add.assoc)
qed simp

lemma dotted_head: "ls \<noteq> [] \<Longrightarrow> list_all valid_label ls \<Longrightarrow> dotted ls \<noteq> [] \<and> hd (dotted ls) \<noteq> 46"
  using undotted_head [of ls] by (auto simp: dotted_undotted)

lemma separator_dotted:
  "list_all valid_label ls \<Longrightarrow> even (trail pre) \<Longrightarrow> ls \<noteq> [] \<Longrightarrow>
   findVariantSeparator_loop (pre @ dotted ls @ rest) (length pre) =
     (if rest \<noteq> [] \<and> hd rest = 46 then Some (length (pre @ dotted ls))
      else findVariantSeparator_loop (pre @ dotted ls @ rest) (length (pre @ dotted ls)))"
proof (induction ls arbitrary: pre)
  case (Cons l ls)
  let ?p = "pre @ concat (map escape_char l)"
  have d: "dotted (l # ls) = concat (map escape_char l) @ [46] @ dotted ls" by (simp add: dotted_def)
  have e: "even (trail ?p)" using trail_escapes [OF Cons.prems(2)] .
  have 1: "findVariantSeparator_loop (pre @ dotted (l # ls) @ rest) (length pre) =
      findVariantSeparator_loop (?p @ 46 # dotted ls @ rest) (length ?p)"
    using separator_label [OF Cons.prems(2), of l "46 # dotted ls @ rest"] by (simp add: d)
  show ?case
  proof (cases "ls = []")
    case True
    then show ?thesis using 1 separator_loop_dot [of ?p rest] e by (simp add: d dotted_def)
  next
    case False
    have "dotted ls @ rest \<noteq> []" "hd (dotted ls @ rest) \<noteq> 46" using dotted_head [OF False] Cons.prems(1) by auto
    then have "findVariantSeparator_loop (?p @ 46 # dotted ls @ rest) (length ?p) =
        findVariantSeparator_loop ((?p @ [46]) @ dotted ls @ rest) (length (?p @ [46]))"
      using separator_loop_dot [of ?p "dotted ls @ rest"] by simp
    also have "\<dots> = (if rest \<noteq> [] \<and> hd rest = 46 then Some (length ((?p @ [46]) @ dotted ls))
        else findVariantSeparator_loop ((?p @ [46]) @ dotted ls @ rest) (length ((?p @ [46]) @ dotted ls)))"
      using Cons.prems False trail_simps(2) [of ?p 46] by (intro Cons.IH) auto
    finally show ?thesis using 1 by (simp add: d add.assoc)
  qed
qed simp

lemma separator_end: "findVariantSeparator_loop name (length name) = None"
  by (subst findVariantSeparator_loop.simps, subst find_from.simps) simp

lemma findVariantSeparator_dotted:
  assumes "list_all valid_label ls" "ls \<noteq> []"
  shows "findVariantSeparator (dotted ls @ 46 # v) = Some (length (dotted ls))" "findVariantSeparator (dotted ls) = None"
    "findVariantSeparator (undotted ls) = None"
proof -
  show "findVariantSeparator (dotted ls @ 46 # v) = Some (length (dotted ls))" "findVariantSeparator (dotted ls) = None"
    using separator_dotted [OF assms(1) _ assms(2), of "[]" "46 # v"] separator_dotted [OF assms(1) _ assms(2), of "[]" "[]"]
      separator_end [of "dotted ls"]
    by (simp_all add: findVariantSeparator_def)
  let ?d = "dotted (butlast ls)"
  have v: "list_all valid_label (butlast ls)" using assms by (auto simp: list_all_iff dest: in_set_butlastD)
  have ne: "concat (map escape_char (last ls)) \<noteq> []" "hd (concat (map escape_char (last ls))) \<noteq> 46"
    using undotted_head [of "[last ls]"] assms
    by (auto simp: undotted_def dotted_def list_all_iff simp del: concat_eq_Nil_conv)
  have "findVariantSeparator_loop (undotted ls) 0 = findVariantSeparator_loop (undotted ls) (length ?d)"
    using separator_dotted [OF v, of "[]" "concat (map escape_char (last ls))"] ne assms(2)
    by (cases "butlast ls = []") (auto simp: undotted_def dotted_def)
  also have "\<dots> = None"
  proof -
    have "even (trail ?d)" by (cases "butlast ls = []") (simp_all add: dotted_undotted, simp add: dotted_def)
    from separator_label [OF this, of "last ls" "[]"] show ?thesis
      using separator_end [of "undotted ls"] assms(2) by (simp add: undotted_def)
  qed
  finally show "findVariantSeparator (undotted ls) = None" by (simp add: findVariantSeparator_def)
qed

section \<open>Printing then parsing\<close>

definition valid_zone :: "ZoneName \<Rightarrow> bool" where
  "valid_zone z \<longleftrightarrow> DNSName_inv (z_name z) \<and> \<not> DNSName_empty (z_name z) \<and> list_all variant_char (z_variant z)"

lemma valid_zone_cases:
  assumes "valid_zone z"
  obtains ls v where "z = \<lparr>z_name = name_of ls, z_variant = v\<rparr>" "valid_labels ls" "list_all variant_char v"
  using assms inv_labels [of "z_name z"] by (cases z) (auto simp: valid_zone_def)

lemma ascii_dots: "ascii ''..'' = [46, 46]"
  by code_simp

text \<open>The text of a zone name with a variant is the same whichever function prints it.\<close>

definition variant_text :: "bytes list \<Rightarrow> bytes \<Rightarrow> bytes" where
  "variant_text ls v = (if ls = [] then [46] else dotted ls) @ 46 # v"

lemma toString_variant:
  assumes "valid_labels ls" "v \<noteq> []"
  shows "ZoneName_toString \<lparr>z_name = name_of ls, z_variant = v\<rparr> (ascii ''.'') trailing = Inr (variant_text ls v)"
    "ZoneName_toStringNoDot \<lparr>z_name = name_of ls, z_variant = v\<rparr> = Inr (variant_text ls v)"
    "ZoneName_toStringRootDot \<lparr>z_name = name_of ls, z_variant = v\<rparr> = Inr (variant_text ls v)"
  using assms toString_name_of [OF assms(1)] isRoot_name_of [OF assms(1)]
  by (auto simp: ZoneName_toString_def ZoneName_toStringNoDot_def ZoneName_toStringRootDot_def toStringNoDot_def
      toStringRootDot_def variant_text_def ascii_dots ascii_dot dotted_undotted undotted_def)

lemma from_string_variant_text:
  assumes "valid_labels ls" "list_all variant_char v"
  shows "ZoneName_from_string (variant_text ls v) = Inr \<lparr>z_name = name_of ls, z_variant = v\<rparr>"
proof -
  have v: "setVariant z v = Inr (z\<lparr>z_variant := v\<rparr>)" for z
    using assms(2) by (simp add: setVariant_def list_ex_iff list_all_iff)
  show ?thesis
  proof (cases "ls = []")
    case True
    have "findVariantSeparator (46 # 46 # v) = Some 1"
      using separator_loop_dot [of "[]" "46 # v"] by (simp add: findVariantSeparator_def)
    then show ?thesis using True v
      by (simp add: ZoneName_from_string_def ZoneName_from_string_sep_def variant_text_def DNSName_from_string_def encode_Nil)
  next
    case False
    then show ?thesis using v from_string_dotted(1) [OF assms(1)] findVariantSeparator_dotted(1) [OF _ False] assms(1)
      by (simp add: ZoneName_from_string_def ZoneName_from_string_sep_def variant_text_def valid_labels_def Let_def)
  qed
qed

lemma from_string_no_variant:
  assumes "valid_labels ls"
  shows "ZoneName_from_string (if ls = [] then [46] else dotted ls) = Inr \<lparr>z_name = name_of ls, z_variant = []\<rparr>"
    "ZoneName_from_string (undotted ls) = Inr \<lparr>z_name = name_of ls, z_variant = []\<rparr>"
proof -
  have "findVariantSeparator [46] = None" "findVariantSeparator [] = None"
    using separator_loop_dot [of "[]" "[]"] separator_end [of "[46]"] separator_end [of "[]"]
    by (simp_all add: findVariantSeparator_def)
  then show "ZoneName_from_string (if ls = [] then [46] else dotted ls) = Inr \<lparr>z_name = name_of ls, z_variant = []\<rparr>"
    "ZoneName_from_string (undotted ls) = Inr \<lparr>z_name = name_of ls, z_variant = []\<rparr>"
    using from_string_dotted [OF assms] findVariantSeparator_dotted(2,3) [of ls] assms
    by (auto simp: ZoneName_from_string_def ZoneName_from_string_sep_def valid_labels_def Let_def
        DNSName_from_string_def undotted_def encode_Nil)
qed

text \<open>
  Claim C27 (zone name round trip): the text that \<^verbatim>\<open>toString\<close> (with or without trailing dot),
  \<^verbatim>\<open>toStringNoDot\<close> or \<^verbatim>\<open>toStringRootDot\<close> prints for a zone name, with or without a variant, is parsed
  back to the same zone name. In particular an escaped dot before the separator, or a label that
  ends in backslashes, does not confuse the search for the variant.
\<close>

theorem ZoneName_text_roundtrip:
  assumes "valid_zone z"
  shows "bindR (ZoneName_toString z (ascii ''.'') trailing) ZoneName_from_string = Inr z \<and>
    bindR (ZoneName_toStringNoDot z) ZoneName_from_string = Inr z \<and>
    bindR (ZoneName_toStringRootDot z) ZoneName_from_string = Inr z"
proof -
  obtain ls v where z: "z = \<lparr>z_name = name_of ls, z_variant = v\<rparr>" and l: "valid_labels ls" "list_all variant_char v"
    using valid_zone_cases [OF assms] .
  show ?thesis
  proof (cases "v = []")
    case True
    then show ?thesis unfolding z
      using toString_name_of [OF l(1)] from_string_no_variant [OF l(1)] isRoot_name_of [OF l(1)]
      by (cases trailing) (auto simp: ZoneName_toString_def ZoneName_toStringNoDot_def ZoneName_toStringRootDot_def
          toStringNoDot_def toStringRootDot_def ascii_dot)
  next
    case False
    then show ?thesis unfolding z using toString_variant [OF l(1) False] from_string_variant_text [OF l] by simp
  qed
qed

theorem ZoneName_text_roundtrip_witness:
  "bindR (ZoneName_toString \<lparr>z_name = name_of [[97, 46, 92]], z_variant = ascii ''v1''\<rparr> (ascii ''.'') True)
     ZoneName_from_string = Inr \<lparr>z_name = name_of [[97, 46, 92]], z_variant = ascii ''v1''\<rparr>"
proof -
  have "valid_zone \<lparr>z_name = name_of [[97, 46, 92]], z_variant = ascii ''v1''\<rparr>" by code_simp
  from ZoneName_text_roundtrip [OF this] show ?thesis by blast
qed

section \<open>Equality, order and hash\<close>

lemma string_compare_zero: "string_compare a b = 0 \<longleftrightarrow> a = b"
  by (induction a b rule: string_compare.induct) auto

lemma string_compare_swap: "string_compare a b < 0 \<longleftrightarrow> 0 < string_compare b a"
  by (induction a b rule: string_compare.induct) auto

lemma string_compare_trans: "string_compare a b \<le> 0 \<Longrightarrow> string_compare b c \<le> 0 \<Longrightarrow> string_compare a c \<le> 0"
proof (induction a arbitrary: b c)
  case Nil
  then show ?case by (cases c) auto
next
  case (Cons x xs)
  then show ?case by (cases b; cases c) (auto split: if_splits)
qed

interpretation strcmp: three_way string_compare
  by unfold_locales (auto simp: string_compare_swap intro: string_compare_trans)

text \<open>The comparison behind \<^verbatim>\<open>operator<\<close>: the names first, then the variants.\<close>

definition zone_compare :: "ZoneName \<Rightarrow> ZoneName \<Rightarrow> int" where
  "zone_compare z y =
     (let r = pdns_ilexicographical_compare_three_way (rev (d_storage (z_name z))) (rev (d_storage (z_name y)))
      in if r \<noteq> 0 then r else string_compare (z_variant z) (z_variant y))"

interpretation zonecmp: three_way zone_compare
proof unfold_locales
  show "zone_compare x y < 0 \<longleftrightarrow> 0 < zone_compare y x" for x y
    using ilex.cmp_swap ilex.cmp_zero_sym strcmp.cmp_swap by (auto simp: zone_compare_def Let_def)
  show "zone_compare x y \<le> 0 \<Longrightarrow> zone_compare y z \<le> 0 \<Longrightarrow> zone_compare x z \<le> 0" for x y z
    using ilex.cmp_less_le_trans [of "rev (d_storage (z_name x))" "rev (d_storage (z_name y))" "rev (d_storage (z_name z))"]
      ilex.cmp_le_less_trans [of "rev (d_storage (z_name x))" "rev (d_storage (z_name y))" "rev (d_storage (z_name z))"]
      ilex.cmp_zero_trans [of "rev (d_storage (z_name x))" "rev (d_storage (z_name y))" "rev (d_storage (z_name z))"]
      strcmp.cmp_trans [of "z_variant x" "z_variant y" "z_variant z"]
    by (auto simp: zone_compare_def Let_def split: if_splits)
qed

lemma ZoneName_less_loop_cmp:
  "ZoneName_less_loop a b =
     (let r = pdns_ilexicographical_compare_three_way a b in if r = 0 then None else Some (r < 0))"
  by (induction a b rule: ZoneName_less_loop.induct) (auto simp: three_way_step word_less_def word_uint_eq_iff Let_def)

lemma ZoneName_less_compare: "ZoneName_less z y \<longleftrightarrow> zone_compare z y < 0"
  by (simp add: ZoneName_less_def ZoneName_less_loop_cmp zone_compare_def Let_def)

lemma ZoneName_eq_compare: "ZoneName_eq z y \<longleftrightarrow> zone_compare z y = 0"
  by (simp add: ZoneName_eq_def DNSName_eq_cmp zone_compare_def Let_def string_compare_zero)

text \<open>
  Claim C28 (zone names as keys): \<^verbatim>\<open>operator<\<close> on zone names is a strict weak order whose equivalence is
  \<^verbatim>\<open>operator==\<close>, and equal zone names hash equally, although the name part is compared without
  case and the variant with case.
\<close>

theorem ZoneName_order_and_hash:
  "\<not> ZoneName_less x x \<and> (ZoneName_less x y \<and> ZoneName_less y z \<longrightarrow> ZoneName_less x z) \<and>
   (\<not> ZoneName_less x y \<and> \<not> ZoneName_less y x \<longleftrightarrow> ZoneName_eq x y) \<and>
   (ZoneName_eq x y \<longrightarrow> ZoneName_hash x init = ZoneName_hash y init)"
proof -
  have "ZoneName_eq x y \<Longrightarrow> ZoneName_hash x init = ZoneName_hash y init"
    by (simp add: ZoneName_eq_def ZoneName_hash_def DNSName_hash_def burtleCI_foldc DNSName_eq_iff)
  then show ?thesis
    using zonecmp.cmp_less_trans [of x y z] zonecmp.cmp_swap [of x y] zonecmp.cmp_swap [of y x]
    by (auto simp: ZoneName_less_compare ZoneName_eq_compare zonecmp.cmp_refl)
qed

theorem ZoneName_order_and_hash_witness:
  "ZoneName_eq \<lparr>z_name = DNSName [1, 65, 0], z_variant = [98]\<rparr> \<lparr>z_name = DNSName [1, 97, 0], z_variant = [98]\<rparr> \<and>
   ZoneName_hash \<lparr>z_name = DNSName [1, 65, 0], z_variant = [98]\<rparr> 0 =
   ZoneName_hash \<lparr>z_name = DNSName [1, 97, 0], z_variant = [98]\<rparr> 0"
proof -
  have "ZoneName_eq \<lparr>z_name = DNSName [1, 65, 0], z_variant = [98]\<rparr> \<lparr>z_name = DNSName [1, 97, 0], z_variant = [98]\<rparr>"
    by code_simp
  with ZoneName_order_and_hash show ?thesis by blast
qed

end
