(* ===== verification/OrderedSet.thy ===== *)
theory OrderedSet
  imports CaseFold
begin

text \<open>
  \<^verbatim>\<open>std::set\<close> with a comparison object, as the sorted list of its elements: lookup (also with a
  key of another type), insertion unless an equivalent element is there, removal, and the
  update of a \<^verbatim>\<open>mutable\<close> part of an element in place. A search gets the two comparisons the
  container makes: whether an element is before the key, and whether the key is before it.
  The locale \<open>keyed_set\<close> states what these operations do when the comparison is a three-way
  comparison of a key of the elements.
\<close>

fun set_find :: "('e \<Rightarrow> bool) \<Rightarrow> ('e \<Rightarrow> bool) \<Rightarrow> 'e list \<Rightarrow> 'e option" where
  "set_find lt gt [] = None"
| "set_find lt gt (x # xs) = (if lt x then set_find lt gt xs else if gt x then None else Some x)"

fun set_emplace :: "('e \<Rightarrow> bool) \<Rightarrow> ('e \<Rightarrow> bool) \<Rightarrow> 'e \<Rightarrow> 'e list \<Rightarrow> 'e list" where
  "set_emplace lt gt y [] = [y]"
| "set_emplace lt gt y (x # xs) =
     (if lt x then x # set_emplace lt gt y xs else if gt x then y # x # xs else x # xs)"

fun set_modify :: "('e \<Rightarrow> bool) \<Rightarrow> ('e \<Rightarrow> bool) \<Rightarrow> ('e \<Rightarrow> 'e) \<Rightarrow> 'e list \<Rightarrow> 'e list" where
  "set_modify lt gt f [] = []"
| "set_modify lt gt f (x # xs) =
     (if lt x then x # set_modify lt gt f xs else if gt x then x # xs else f x # xs)"

fun set_erase :: "('e \<Rightarrow> bool) \<Rightarrow> ('e \<Rightarrow> bool) \<Rightarrow> 'e list \<Rightarrow> 'e list" where
  "set_erase lt gt [] = []"
| "set_erase lt gt (x # xs) =
     (if lt x then x # set_erase lt gt xs else if gt x then x # xs else xs)"

text \<open>The elements are strictly increasing by their keys, which is the invariant of the container.\<close>

definition key_sorted :: "('k \<Rightarrow> 'k \<Rightarrow> int) \<Rightarrow> ('e \<Rightarrow> 'k) \<Rightarrow> 'e list \<Rightarrow> bool" where
  "key_sorted cmp key xs \<longleftrightarrow> sorted_wrt (\<lambda>x y. cmp (key x) (key y) < 0) xs"

lemma set_find_mem: "set_find lt gt xs = Some x \<Longrightarrow> x \<in> set xs \<and> \<not> lt x \<and> \<not> gt x"
  by (induction xs) (auto split: if_splits)

lemma set_emplace_mem: "x \<in> set (set_emplace lt gt y xs) \<Longrightarrow> x = y \<or> x \<in> set xs"
  by (induction xs) (auto split: if_splits)

lemma set_modify_mem: "x \<in> set (set_modify lt gt f xs) \<Longrightarrow> x \<in> set xs \<or> (\<exists>y \<in> set xs. x = f y)"
  by (induction xs) (auto split: if_splits)

lemma set_erase_mem: "x \<in> set (set_erase lt gt xs) \<Longrightarrow> x \<in> set xs"
  by (induction xs) (auto split: if_splits)

lemma set_modify_cong: "(\<And>x. x \<in> set xs \<Longrightarrow> f x = g x) \<Longrightarrow> set_modify lt gt f xs = set_modify lt gt g xs"
  by (induction xs) auto

lemma option_eqI: "(\<And>z. x = Some z \<longleftrightarrow> y = Some z) \<Longrightarrow> x = y"
  by (cases x; cases y) auto

locale keyed_set = three_way cmp for cmp :: "'k \<Rightarrow> 'k \<Rightarrow> int" +
  fixes key :: "'e \<Rightarrow> 'k"
begin

abbreviation before :: "'k \<Rightarrow> 'e \<Rightarrow> bool" where
  "before k x \<equiv> cmp (key x) k < 0"

abbreviation after :: "'k \<Rightarrow> 'e \<Rightarrow> bool" where
  "after k x \<equiv> cmp k (key x) < 0"

abbreviation ordered :: "'e list \<Rightarrow> bool" where
  "ordered xs \<equiv> key_sorted cmp key xs"

lemma ordered_simps [simp]:
  "ordered []" "ordered (x # xs) \<longleftrightarrow> (\<forall>y \<in> set xs. cmp (key x) (key y) < 0) \<and> ordered xs"
  by (simp_all add: key_sorted_def)

lemma found_iff_zero: "\<not> before k x \<and> \<not> after k x \<longleftrightarrow> cmp k (key x) = 0"
  using cmp_swap [of "key x" k] by linarith

lemma found_zero: "set_find (before k) (after k) xs = Some x \<Longrightarrow> cmp k (key x) = 0"
  using set_find_mem found_iff_zero by metis

lemma find_cong: "cmp k k' = 0 \<Longrightarrow> set_find (before k) (after k) xs = set_find (before k') (after k') xs"
proof (induction xs)
  case (Cons x xs)
  have "before k x = before k' x" "after k x = after k' x"
    using Cons.prems cmp_zero_less [of k k' "key x"] cmp_zero_zero [of k k' "key x"] cmp_swap [of "key x" k]
      cmp_swap [of "key x" k'] cmp_swap [of k "key x"] cmp_swap [of k' "key x"] by linarith+
  then show ?case using Cons by simp
qed simp

lemma find_iff:
  "ordered xs \<Longrightarrow> set_find (before k) (after k) xs = Some x \<longleftrightarrow> x \<in> set xs \<and> cmp k (key x) = 0"
proof (induction xs)
  case (Cons y ys)
  show ?case
  proof (cases "cmp k (key y) = 0")
    case True
    then have "cmp k (key z) < 0" if "z \<in> set ys" for z
      using Cons.prems that cmp_zero_less [of k "key y" "key z"] by auto
    then show ?thesis using True found_iff_zero [of y k] by fastforce
  next
    case False
    then consider "before k y" | "after k y" "\<not> before k y" using cmp_swap [of "key y" k] by linarith
    then show ?thesis
    proof cases
      case 1
      then show ?thesis using Cons False by auto
    next
      case 2
      then have "cmp k (key z) < 0" if "z \<in> set ys" for z
        using Cons.prems that cmp_less_trans [of k "key y" "key z"] by auto
      then show ?thesis using 2 False by fastforce
    qed
  qed
qed simp

lemma find_unique:
  "ordered xs \<Longrightarrow> x \<in> set xs \<Longrightarrow> y \<in> set xs \<Longrightarrow> cmp (key x) (key y) = 0 \<Longrightarrow> x = y"
  using find_iff [of xs "key x" y] find_iff [of xs "key x" x] cmp_refl by simp

lemma find_none_iff:
  "ordered xs \<Longrightarrow> set_find (before k) (after k) xs = None \<longleftrightarrow> (\<forall>x \<in> set xs. cmp k (key x) \<noteq> 0)"
  using find_iff [of xs k] by (metis not_None_eq)

lemma emplace_set:
  "ordered xs \<Longrightarrow>
   set (set_emplace (before k) (after k) y xs) = (if set_find (before k) (after k) xs = None then insert y (set xs) else set xs)"
  by (induction xs) auto

lemma emplace_ordered: "ordered xs \<Longrightarrow> key y = k \<Longrightarrow> ordered (set_emplace (before k) (after k) y xs)"
proof (induction xs)
  case (Cons x xs)
  consider "before k x" | "after k x" "\<not> before k x" | "\<not> before k x" "\<not> after k x" by blast
  then show ?case
  proof cases
    case 1
    then show ?thesis using Cons by (auto dest!: set_emplace_mem)
  next
    case 2
    then show ?thesis using Cons cmp_less_trans by (auto 4 3)
  next
    case 3
    then show ?thesis using Cons.prems by simp
  qed
qed simp

lemma modify_ordered:
  "ordered xs \<Longrightarrow> (\<And>x. key (f x) = key x) \<Longrightarrow> ordered (set_modify (before k) (after k) f xs)"
  by (induction xs) (auto dest!: set_modify_mem)

lemma erase_ordered: "ordered xs \<Longrightarrow> ordered (set_erase (before k) (after k) xs)"
  by (induction xs) (auto dest!: set_erase_mem)

lemma find_emplace:
  assumes "ordered xs" "key y = k"
  shows "set_find (before k') (after k') (set_emplace (before k) (after k) y xs) =
    (if cmp k k' = 0 \<and> set_find (before k) (after k) xs = None then Some y else set_find (before k') (after k') xs)"
proof -
  let ?e = "set_emplace (before k) (after k) y xs"
  have o: "ordered ?e" using emplace_ordered [OF assms] .
  have "set_find (before k') (after k') ?e = Some z \<longleftrightarrow>
    (if cmp k k' = 0 \<and> set_find (before k) (after k) xs = None then z = y else set_find (before k') (after k') xs = Some z)" for z
  proof (cases "set_find (before k) (after k) xs = None \<and> cmp k k' = 0")
    case True
    have "cmp k' (key w) \<noteq> 0" if "w \<in> set xs" for w
      using True find_none_iff [OF assms(1), of k] that cmp_zero_zero [of k k' "key w"] by auto
    then show ?thesis using True o find_iff [OF o, of k' z] emplace_set [OF assms(1)] assms(2) cmp_zero_sym by auto
  next
    case False
    then show ?thesis using find_iff [OF o, of k' z] find_iff [OF assms(1), of k' z] emplace_set [OF assms(1)] assms(2) cmp_zero_sym
      by auto
  qed
  then show ?thesis by (intro option_eqI) auto
qed

lemma find_modify:
  assumes "\<And>x. key (f x) = key x"
  shows "ordered xs \<Longrightarrow> set_find (before k') (after k') (set_modify (before k) (after k) f xs) =
    (if cmp k k' = 0 then map_option f (set_find (before k) (after k) xs) else set_find (before k') (after k') xs)"
proof (induction xs)
  case (Cons x xs)
  show ?case
  proof (cases "cmp k k' = 0")
    case True
    have "before k x = before k' x" "after k x = after k' x"
      using True cmp_zero_less [of k k' "key x"] cmp_zero_zero [of k k' "key x"] cmp_swap [of "key x" k]
        cmp_swap [of "key x" k'] cmp_swap [of k "key x"] cmp_swap [of k' "key x"] by linarith+
    then show ?thesis using Cons True find_cong [OF True] assms by auto
  next
    case False
    then show ?thesis using Cons assms found_iff_zero [of x k] found_iff_zero [of x k'] cmp_zero_trans [of k "key x" k'] cmp_zero_sym
      by auto
  qed
qed simp

lemma erase_set:
  "ordered xs \<Longrightarrow> set (set_erase (before k) (after k) xs) = {x \<in> set xs. cmp k (key x) \<noteq> 0}"
proof (induction xs)
  case (Cons x xs)
  have later: "cmp k (key z) < 0" if "cmp k (key x) \<le> 0" "z \<in> set xs" for z
    using that Cons.prems cmp_le_less_trans [of k "key x" "key z"] by auto
  consider "before k x" | "after k x" "\<not> before k x" | "\<not> before k x" "\<not> after k x" by blast
  then show ?case
  proof cases
    case 1
    then have "cmp k (key x) \<noteq> 0" using cmp_swap [of "key x" k] by linarith
    then show ?thesis using Cons 1 by auto
  next
    case 2
    then have "cmp k (key x) \<noteq> 0" "\<And>z. z \<in> set xs \<Longrightarrow> cmp k (key z) \<noteq> 0" using later by fastforce+
    then show ?thesis using 2 by auto
  next
    case 3
    then have "cmp k (key x) = 0" "\<And>z. z \<in> set xs \<Longrightarrow> cmp k (key z) \<noteq> 0"
      using found_iff_zero [of x k] later by fastforce+
    then show ?thesis using 3 by auto
  qed
qed simp

lemma find_erase:
  assumes "ordered xs"
  shows "set_find (before k') (after k') (set_erase (before k) (after k) xs) =
    (if cmp k k' = 0 then None else set_find (before k') (after k') xs)"
proof (rule option_eqI)
  show "set_find (before k') (after k') (set_erase (before k) (after k) xs) = Some z \<longleftrightarrow>
    (if cmp k k' = 0 then None else set_find (before k') (after k') xs) = Some z" for z
    using find_iff [OF erase_ordered [OF assms], of k' k z] find_iff [OF assms, of k' z] erase_set [OF assms, of k]
      cmp_zero_zero [of k k' "key z"] cmp_zero_trans [of k "key z" k'] cmp_zero_sym [of "key z" k'] by auto
qed

end

end
