(* ===== verification/SuffixTree.thy ===== *)
theory SuffixTree
  imports NameText NameOrder OrderedSet
begin

text \<open>
  \<^verbatim>\<open>SuffixMatchTree\<close> and \<^verbatim>\<open>SuffixMatchNode\<close> of \<^verbatim>\<open>pdns/dnsname.hh\<close>: a tree of labels from the top
  of the name space down, whose children are a \<^verbatim>\<open>std::set\<close> ordered without case. Adding and
  removing names are proved to update a finite map of names, and the lookup to find the
  longest stored suffix of a name. The fields the source declares \<^verbatim>\<open>mutable\<close> are updated in place
  in the set; \<open>dflt\<close> is the value \<^verbatim>\<open>T{}\<close> of new nodes.
\<close>

section \<open>The tree\<close>

datatype 'a SuffixMatchTree =
  SuffixMatchTree (smt_name: bytes) (children: "'a SuffixMatchTree list") (endNode: bool) (d_value: 'a)

definition SuffixMatchTree_less :: "'a SuffixMatchTree \<Rightarrow> 'a SuffixMatchTree \<Rightarrow> bool" where
  "SuffixMatchTree_less t rhs \<longleftrightarrow> pdns_ilexicographical_compare (smt_name t) (smt_name rhs)"

text \<open>The comparisons with a \<^verbatim>\<open>LightKey\<close>, which is a label.\<close>

definition LightKey_less :: "bytes \<Rightarrow> 'a SuffixMatchTree \<Rightarrow> bool" where
  "LightKey_less lk smt \<longleftrightarrow>
     (let compareUpTo = min (length lk) (length (smt_name smt));
          ret = pdns_ilexicographical_compare_three_way (take compareUpTo lk) (take compareUpTo (smt_name smt))
      in if ret \<noteq> 0 then ret < 0
         else if length lk = length (smt_name smt) then False
         else length lk < length (smt_name smt))"

definition SuffixMatchTree_less_LightKey :: "'a SuffixMatchTree \<Rightarrow> bytes \<Rightarrow> bool" where
  "SuffixMatchTree_less_LightKey smt lk \<longleftrightarrow>
     (let compareUpTo = min (length (smt_name smt)) (length lk);
          ret = pdns_ilexicographical_compare_three_way (take compareUpTo (smt_name smt)) (take compareUpTo lk)
      in if ret \<noteq> 0 then ret < 0
         else if length (smt_name smt) = length lk then False
         else length (smt_name smt) < length lk)"

definition children_find_light :: "bytes \<Rightarrow> 'a SuffixMatchTree list \<Rightarrow> 'a SuffixMatchTree option" where
  "children_find_light lk cs = set_find (\<lambda>c. SuffixMatchTree_less_LightKey c lk) (LightKey_less lk) cs"

definition children_find :: "'a SuffixMatchTree \<Rightarrow> 'a SuffixMatchTree list \<Rightarrow> 'a SuffixMatchTree option" where
  "children_find smt cs = set_find (\<lambda>c. SuffixMatchTree_less c smt) (SuffixMatchTree_less smt) cs"

definition children_emplace :: "'a SuffixMatchTree \<Rightarrow> 'a SuffixMatchTree list \<Rightarrow> 'a SuffixMatchTree list" where
  "children_emplace smt cs = set_emplace (\<lambda>c. SuffixMatchTree_less c smt) (SuffixMatchTree_less smt) smt cs"

definition children_update ::
    "'a SuffixMatchTree \<Rightarrow> ('a SuffixMatchTree \<Rightarrow> 'a SuffixMatchTree) \<Rightarrow> 'a SuffixMatchTree list \<Rightarrow> 'a SuffixMatchTree list" where
  "children_update smt f cs = set_modify (\<lambda>c. SuffixMatchTree_less c smt) (SuffixMatchTree_less smt) f cs"

definition children_erase :: "'a SuffixMatchTree \<Rightarrow> 'a SuffixMatchTree list \<Rightarrow> 'a SuffixMatchTree list" where
  "children_erase smt cs = set_erase (\<lambda>c. SuffixMatchTree_less c smt) (SuffixMatchTree_less smt) cs"

text \<open>The order of the calls: the child is found or inserted, then updated in place.\<close>

function smt_add :: "'a \<Rightarrow> bytes list \<Rightarrow> 'a \<Rightarrow> 'a SuffixMatchTree \<Rightarrow> 'a SuffixMatchTree" where
  "smt_add dflt labels value t =
     (if labels = [] then SuffixMatchTree (smt_name t) (children t) True value
      else if length labels = 1 then
        (let new = SuffixMatchTree (hd labels) [] True dflt in
         SuffixMatchTree (smt_name t)
           (children_update new (\<lambda>c. SuffixMatchTree (smt_name c) (children c) True value) (children_emplace new (children t)))
           (endNode t) (d_value t))
      else
        (let new = SuffixMatchTree (last labels) [] False dflt in
         SuffixMatchTree (smt_name t)
           (children_update new (\<lambda>c. smt_add dflt (butlast labels) value c) (children_emplace new (children t)))
           (endNode t) (d_value t)))"
  by pat_completeness auto
termination
  by (relation "measure (\<lambda>(dflt, labels, value, t). length labels)") auto

definition smt_add_name :: "'a \<Rightarrow> DNSName \<Rightarrow> 'a \<Rightarrow> 'a SuffixMatchTree \<Rightarrow> 'a SuffixMatchTree" where
  "smt_add_name dflt name value t = smt_add dflt (getRawLabels name) value t"

text \<open>The recursive call does not pass \<open>subtree\<close> on, so it takes its default.\<close>

function smt_remove :: "'a \<Rightarrow> bytes list \<Rightarrow> bool \<Rightarrow> 'a SuffixMatchTree \<Rightarrow> 'a SuffixMatchTree" where
  "smt_remove dflt labels subtree t =
     (if labels = [] then
        SuffixMatchTree (smt_name t) (if subtree then [] else children t) False (d_value t)
      else
        (let smt = SuffixMatchTree (last labels) [] False dflt in
         case children_find smt (children t) of
           None \<Rightarrow> t
         | Some child \<Rightarrow>
             if butlast labels = [] then
               (let child' = SuffixMatchTree (smt_name child) (if subtree then [] else children child) False (d_value child) in
                if children child' = []
                then SuffixMatchTree (smt_name t) (children_erase smt (children t)) (endNode t) (d_value t)
                else SuffixMatchTree (smt_name t) (children_update smt (\<lambda>c. child') (children t)) (endNode t) (d_value t))
             else
               SuffixMatchTree (smt_name t)
                 (children_update smt (\<lambda>c. smt_remove dflt (butlast labels) False c) (children t))
                 (endNode t) (d_value t)))"
  by pat_completeness auto
termination
  by (relation "measure (\<lambda>(dflt, labels, subtree, t). length labels)") auto

declare smt_add.simps [simp del] smt_remove.simps [simp del]

definition smt_remove_name :: "'a \<Rightarrow> DNSName \<Rightarrow> bool \<Rightarrow> 'a SuffixMatchTree \<Rightarrow> 'a SuffixMatchTree" where
  "smt_remove_name dflt name subtree t = smt_remove dflt (getRawLabels name) subtree t"

function getBestNode_visitor :: "'a SuffixMatchTree \<Rightarrow> RawLabelsVisitor \<Rightarrow> 'a SuffixMatchTree option result" where
  "getBestNode_visitor t visitor =
     (if visitor_empty visitor then Inr (if endNode t then Some t else None)
      else bindR (visitor_back visitor) (\<lambda>lk.
        case children_find_light lk (children t) of
          None \<Rightarrow> Inr (if endNode t then Some t else None)
        | Some child \<Rightarrow>
            bindR (getBestNode_visitor child (snd (visitor_pop_back visitor))) (\<lambda>res.
              case res of
                Some node \<Rightarrow> Inr (Some node)
              | None \<Rightarrow> Inr (if endNode t then Some t else None))))"
  by pat_completeness auto
termination
  by (relation "measure (\<lambda>(t, v). d_position v)") (auto simp: visitor_empty_def visitor_pop_back_def)

definition getBestNode :: "'a SuffixMatchTree \<Rightarrow> DNSName \<Rightarrow> 'a SuffixMatchTree option result" where
  "getBestNode t name =
     (if children t = [] then Inr (if endNode t then Some t else None)
      else bindR (getRawLabelsVisitor name) (getBestNode_visitor t))"

definition smt_lookup :: "'a SuffixMatchTree \<Rightarrow> DNSName \<Rightarrow> 'a option result" where
  "smt_lookup t name = bindR (getBestNode t name) (\<lambda>bestNode. Inr (map_option d_value bestNode))"

text \<open>\<^verbatim>\<open>getBestMatch\<close> builds the name of a node from its label as presentation text.\<close>

function getBestMatch_visitor :: "'a SuffixMatchTree \<Rightarrow> RawLabelsVisitor \<Rightarrow> DNSName option result" where
  "getBestMatch_visitor t visitor =
     (let self = (if endNode t then bindR (DNSName_from_string (smt_name t)) (\<lambda>n. Inr (Some n)) else Inr None) in
      if visitor_empty visitor then self
      else bindR (visitor_back visitor) (\<lambda>lk.
        case children_find_light lk (children t) of
          None \<Rightarrow> self
        | Some child \<Rightarrow>
            bindR (getBestMatch_visitor child (snd (visitor_pop_back visitor))) (\<lambda>res.
              case res of
                Some n \<Rightarrow> if smt_name t \<noteq> [] then bindR (appendRawLabel n (smt_name t)) (\<lambda>n. Inr (Some n)) else Inr (Some n)
              | None \<Rightarrow> self)))"
  by pat_completeness auto
termination
  by (relation "measure (\<lambda>(t, v). d_position v)") (auto simp: visitor_empty_def visitor_pop_back_def)

declare getBestNode_visitor.simps [simp del] getBestMatch_visitor.simps [simp del]

definition getBestMatch :: "'a SuffixMatchTree \<Rightarrow> DNSName \<Rightarrow> DNSName option result" where
  "getBestMatch t name =
     (if children t = [] then Inr (if endNode t then Some g_rootdnsname else None)
      else bindR (getRawLabelsVisitor name) (getBestMatch_visitor t))"

text \<open>\<^verbatim>\<open>visit\<close> calls its argument on the end nodes, children first; here the list of those nodes.\<close>

fun smt_visit :: "'a SuffixMatchTree \<Rightarrow> 'a SuffixMatchTree list" where
  "smt_visit (SuffixMatchTree n cs e v) =
     concat (map smt_visit cs) @ (if e then [SuffixMatchTree n cs e v] else [])"

fun append_all :: "DNSName list \<Rightarrow> DNSName \<Rightarrow> DNSName list result" where
  "append_all [] parent = Inr []"
| "append_all (n # ns) parent =
     bindR (DNSName_append n parent) (\<lambda>m. bindR (append_all ns parent) (\<lambda>ms. Inr (m # ms)))"

text \<open>The name of the node is parsed again for each of the nodes below it.\<close>

fun getNodes :: "'a SuffixMatchTree \<Rightarrow> DNSName list result"
  and getNodes_children :: "bytes \<Rightarrow> 'a SuffixMatchTree list \<Rightarrow> DNSName list result" where
  "getNodes (SuffixMatchTree n cs e v) =
     bindR (if e then bindR (DNSName_from_string n) (\<lambda>m. Inr [m]) else Inr []) (\<lambda>ret.
       bindR (getNodes_children n cs) (\<lambda>rest. Inr (ret @ rest)))"
| "getNodes_children n [] = Inr []"
| "getNodes_children n (c # cs) =
     bindR (getNodes c) (\<lambda>nodes.
       bindR (if nodes = [] then Inr [] else bindR (DNSName_from_string n) (append_all nodes)) (\<lambda>ret.
         bindR (getNodes_children n cs) (\<lambda>rest. Inr (ret @ rest))))"

section \<open>The block list\<close>

text \<open>\<^verbatim>\<open>d_nodes\<close> is a \<^verbatim>\<open>std::set\<close> of names, ordered by \<^verbatim>\<open>operator<\<close>.\<close>

record SuffixMatchNode =
  d_tree :: "bool SuffixMatchTree"
  d_nodes :: "DNSName list"

definition smn_empty :: SuffixMatchNode where
  "smn_empty = \<lparr>d_tree = SuffixMatchTree [] [] False False, d_nodes = []\<rparr>"

definition nodes_insert :: "DNSName \<Rightarrow> DNSName list \<Rightarrow> DNSName list" where
  "nodes_insert n = set_emplace (\<lambda>x. DNSName_less x n) (DNSName_less n) n"

definition nodes_erase :: "DNSName \<Rightarrow> DNSName list \<Rightarrow> DNSName list" where
  "nodes_erase n = set_erase (\<lambda>x. DNSName_less x n) (DNSName_less n)"

definition smn_add :: "DNSName \<Rightarrow> SuffixMatchNode \<Rightarrow> SuffixMatchNode" where
  "smn_add dnsname s =
     s\<lparr>d_tree := smt_add_name False dnsname True (d_tree s), d_nodes := nodes_insert dnsname (d_nodes s)\<rparr>"

definition smn_add_string :: "bytes \<Rightarrow> SuffixMatchNode \<Rightarrow> SuffixMatchNode result" where
  "smn_add_string name s = bindR (DNSName_from_string name) (\<lambda>n. Inr (smn_add n s))"

text \<open>
  The overloads that take a label vector hand it to the tree by reference: the tree's \<^verbatim>\<open>add\<close>
  pops all labels but the first, its \<^verbatim>\<open>remove\<close> those it walked through. The name for \<^verbatim>\<open>d_nodes\<close> is
  then built from what is left.
\<close>

definition smt_add_leftover :: "bytes list \<Rightarrow> bytes list" where
  "smt_add_leftover labels = take 1 labels"

function smt_remove_leftover :: "'a \<Rightarrow> bytes list \<Rightarrow> 'a SuffixMatchTree \<Rightarrow> bytes list" where
  "smt_remove_leftover dflt labels t =
     (if labels = [] then []
      else case children_find (SuffixMatchTree (last labels) [] False dflt) (children t) of
             None \<Rightarrow> labels
           | Some child \<Rightarrow> smt_remove_leftover dflt (butlast labels) child)"
  by pat_completeness auto
termination
  by (relation "measure (\<lambda>(dflt, labels, t). length labels)") auto

declare smt_remove_leftover.simps [simp del]

definition smn_add_labels :: "bytes list \<Rightarrow> SuffixMatchNode \<Rightarrow> SuffixMatchNode result" where
  "smn_add_labels labels s =
     bindR (appendRawLabels (DNSName []) (rev (smt_add_leftover labels))) (\<lambda>tmp.
       Inr (s\<lparr>d_tree := smt_add False labels True (d_tree s), d_nodes := nodes_insert tmp (d_nodes s)\<rparr>))"

definition smn_remove :: "DNSName \<Rightarrow> SuffixMatchNode \<Rightarrow> SuffixMatchNode" where
  "smn_remove name s =
     s\<lparr>d_tree := smt_remove_name False name False (d_tree s), d_nodes := nodes_erase name (d_nodes s)\<rparr>"

definition smn_remove_labels :: "bytes list \<Rightarrow> SuffixMatchNode \<Rightarrow> SuffixMatchNode result" where
  "smn_remove_labels labels s =
     bindR (appendRawLabels (DNSName []) (rev (smt_remove_leftover False labels (d_tree s)))) (\<lambda>tmp.
       Inr (s\<lparr>d_tree := smt_remove False labels False (d_tree s), d_nodes := nodes_erase tmp (d_nodes s)\<rparr>))"

definition smn_check :: "SuffixMatchNode \<Rightarrow> DNSName \<Rightarrow> bool result" where
  "smn_check s dnsname = bindR (smt_lookup (d_tree s) dnsname) (\<lambda>r. Inr (r \<noteq> None))"

definition smn_getBestMatch :: "SuffixMatchNode \<Rightarrow> DNSName \<Rightarrow> DNSName option result" where
  "smn_getBestMatch s name = getBestMatch (d_tree s) name"

fun smn_toString_loop :: "DNSName list \<Rightarrow> bool \<Rightarrow> bytes \<Rightarrow> bytes result" where
  "smn_toString_loop [] first ret = Inr ret"
| "smn_toString_loop (n # ns) first ret =
     bindR (DNSName_toString n (ascii ''.'') True) (\<lambda>text.
       smn_toString_loop ns False (ret @ (if \<not> first then ascii '', '' else []) @ text))"

definition smn_toString :: "SuffixMatchNode \<Rightarrow> bytes result" where
  "smn_toString s = smn_toString_loop (d_nodes s) True []"

definition smn_toVector :: "SuffixMatchNode \<Rightarrow> DNSName list" where
  "smn_toVector s = d_nodes s"

section \<open>The children as an ordered set\<close>

lemma three_way_prefix:
  "(let m = min (length a) (length b); r = pdns_ilexicographical_compare_three_way (take m a) (take m b)
    in if r \<noteq> 0 then r < 0 else if length a = length b then False else length a < length b) \<longleftrightarrow>
   pdns_ilexicographical_compare_three_way a b < 0"
  by (induction a b rule: list_induct2') (auto simp: three_way_step Let_def word_uint_eq_iff)

lemma LightKey_less_iff: "LightKey_less lk = (\<lambda>t. pdns_ilexicographical_compare_three_way lk (smt_name t) < 0)"
  by (intro ext) (unfold LightKey_less_def, rule three_way_prefix)

lemma less_LightKey_iff:
  "SuffixMatchTree_less_LightKey t lk \<longleftrightarrow> pdns_ilexicographical_compare_three_way (smt_name t) lk < 0"
  unfolding SuffixMatchTree_less_LightKey_def by (rule three_way_prefix)

lemma SuffixMatchTree_less_iff:
  "SuffixMatchTree_less t = (\<lambda>u. pdns_ilexicographical_compare_three_way (smt_name t) (smt_name u) < 0)"
  by (intro ext) (simp add: SuffixMatchTree_less_def pdns_ilexicographical_compare_def)

interpretation childset: keyed_set pdns_ilexicographical_compare_three_way smt_name
  by unfold_locales

lemmas children_defs = children_find_light_def children_find_def children_emplace_def children_update_def
  children_erase_def LightKey_less_iff less_LightKey_iff SuffixMatchTree_less_iff

fun smt_wf :: "'a SuffixMatchTree \<Rightarrow> bool" where
  "smt_wf (SuffixMatchTree n cs e v) \<longleftrightarrow>
     key_sorted pdns_ilexicographical_compare_three_way smt_name cs \<and> list_all smt_wf cs"

lemma smt_wf_iff:
  "smt_wf t \<longleftrightarrow> key_sorted pdns_ilexicographical_compare_three_way smt_name (children t) \<and> list_all smt_wf (children t)"
  by (cases t) simp

lemma find_wf: "smt_wf t \<Longrightarrow> children_find_light l (children t) = Some c \<Longrightarrow> smt_wf c"
  using set_find_mem unfolding children_find_light_def smt_wf_iff [of t] list_all_iff by fast

lemma find_smt: "children_find smt cs = children_find_light (smt_name smt) cs"
  by (simp add: children_defs)

lemma find_light_cong: "foldc l = foldc k \<Longrightarrow> children_find_light l cs = children_find_light k cs"
  using childset.find_cong [of l k cs] by (simp add: children_defs ilex_eq_0_iff)

section \<open>The tree as a map of names\<close>

text \<open>The value stored at a path of labels, the top label first.\<close>

fun smt_get :: "'a SuffixMatchTree \<Rightarrow> bytes list \<Rightarrow> 'a option" where
  "smt_get t [] = (if endNode t then Some (d_value t) else None)"
| "smt_get t (l # ls) =
     (case children_find_light l (children t) of None \<Rightarrow> None | Some c \<Rightarrow> smt_get c ls)"

lemma smt_get_no_children: "children t = [] \<Longrightarrow> path \<noteq> [] \<Longrightarrow> smt_get t path = None"
  by (cases path) (simp_all add: children_find_light_def)

lemma smt_add_name_kept: "smt_name (smt_add dflt labels v t) = smt_name t"
  by (subst smt_add.simps) (simp add: Let_def)

lemma smt_remove_name_kept: "smt_name (smt_remove dflt labels sub t) = smt_name t"
  by (subst smt_remove.simps) (simp add: Let_def split: option.split)

lemma smt_add_Nil: "smt_add dflt [] v = (\<lambda>t. SuffixMatchTree (smt_name t) (children t) True v)"
  by (intro ext, subst smt_add.simps) simp

lemma smt_add_snoc:
  "smt_add dflt (xs @ [l]) v t =
     (let new = SuffixMatchTree l [] (xs = []) dflt in
      SuffixMatchTree (smt_name t) (children_update new (smt_add dflt xs v) (children_emplace new (children t)))
        (endNode t) (d_value t))"
  by (subst smt_add.simps, cases "xs = []") (auto simp: Let_def smt_add_Nil)

lemma find_add_child:
  assumes "smt_wf t"
  shows "children_find_light k (children (smt_add dflt (xs @ [l]) v t)) =
    (if foldc l = foldc k
     then Some (smt_add dflt xs v (case children_find_light l (children t) of
       None \<Rightarrow> SuffixMatchTree l [] (xs = []) dflt | Some c \<Rightarrow> c))
     else children_find_light k (children t))"
  using assms childset.find_modify [OF smt_add_name_kept childset.emplace_ordered, of "children t"]
    childset.find_emplace [of "children t" "SuffixMatchTree l [] (xs = []) dflt" l]
  by (auto simp: smt_add_snoc Let_def children_defs smt_wf_iff [of t] ilex_eq_0_iff ilex.cmp_refl split: option.split)

lemma smt_add_wf: "smt_wf t \<Longrightarrow> smt_wf (smt_add dflt labels v t)"
proof (induction labels arbitrary: t rule: rev_induct)
  case Nil
  then show ?case by (simp add: smt_add_Nil smt_wf_iff [of t])
next
  case (snoc l xs)
  let ?new = "SuffixMatchTree l [] (xs = []) dflt"
  let ?cs = "children_emplace ?new (children t)"
  have o: "key_sorted pdns_ilexicographical_compare_three_way smt_name ?cs"
    using snoc.prems childset.emplace_ordered [of "children t" ?new l] by (simp add: children_defs smt_wf_iff [of t])
  have w: "smt_wf c" if "c \<in> set ?cs" for c
    using that snoc.prems by (auto simp: children_emplace_def smt_wf_iff [of t] list_all_iff dest!: set_emplace_mem)
  show ?case
    using childset.modify_ordered [OF o smt_add_name_kept] w snoc.IH
    by (auto simp: smt_add_snoc Let_def children_update_def SuffixMatchTree_less_iff list_all_iff dest!: set_modify_mem)
qed

lemma smt_add_get:
  "smt_wf t \<Longrightarrow>
   smt_get (smt_add dflt labels v t) path = (if map foldc path = map foldc (rev labels) then Some v else smt_get t path)"
proof (induction labels arbitrary: t path rule: rev_induct)
  case Nil
  then show ?case by (cases path) (simp_all add: smt_add_Nil)
next
  case (snoc l xs)
  show ?case
  proof (cases path)
    case Nil
    then show ?thesis by (simp add: smt_add_snoc Let_def)
  next
    case (Cons p ps)
    let ?c = "case children_find_light l (children t) of None \<Rightarrow> SuffixMatchTree l [] (xs = []) dflt | Some c \<Rightarrow> c"
    have "smt_wf ?c" using snoc.prems find_wf by (auto split: option.split)
    note IH = snoc.IH [OF this, of ps]
    have new: "smt_get (SuffixMatchTree l [] (xs = []) dflt) ps = None" if "map foldc ps \<noteq> map foldc (rev xs)"
      using that by (cases ps) (auto simp: children_find_light_def)
    show ?thesis
      using find_add_child [OF snoc.prems, of p dflt xs l v] IH new find_light_cong [of l p "children t"]
      by (auto simp: Cons split: option.splits)
  qed
qed

lemma smt_remove_Nil: "smt_remove dflt [] sub t = SuffixMatchTree (smt_name t) (if sub then [] else children t) False (d_value t)"
  by (subst smt_remove.simps) simp

lemma smt_remove_snoc:
  "smt_remove dflt (xs @ [l]) sub t =
     (let smt = SuffixMatchTree l [] False dflt in
      case children_find_light l (children t) of
        None \<Rightarrow> t
      | Some c \<Rightarrow>
          SuffixMatchTree (smt_name t)
            (if xs = [] \<and> (sub \<or> children c = []) then children_erase smt (children t)
             else if xs = [] then children_update smt (\<lambda>_. SuffixMatchTree (smt_name c) (children c) False (d_value c)) (children t)
             else children_update smt (smt_remove dflt xs False) (children t))
            (endNode t) (d_value t))"
  by (subst smt_remove.simps) (auto simp: Let_def find_smt split: option.split)

text \<open>Below the label that is removed, the child is replaced by a child without its value, or erased.\<close>

lemma find_constant:
  assumes "smt_wf t" "children_find_light l (children t) = Some c" "smt_name c' = smt_name c"
  shows "children_update (SuffixMatchTree l [] False dflt) (\<lambda>_. c') (children t) =
    children_update (SuffixMatchTree l [] False dflt) (\<lambda>x. if x = c then c' else x) (children t)"
proof -
  have "foldc (smt_name c) = foldc l"
    using assms(2) childset.found_zero [of l "children t" c] by (simp add: children_defs ilex_eq_0_iff)
  moreover have "x = c" if "x \<in> set (children t)" "\<not> childset.before l x" "\<not> childset.after l x" for x
    using that assms(1) childset.find_iff [of "children t" l x] assms(2) childset.found_iff_zero [of x l]
    by (simp add: children_defs smt_wf_iff [of t])
  moreover have "set_modify lt gt (\<lambda>_. c') xs = set_modify lt gt (\<lambda>x. if x = c then c' else x) xs"
    if "\<And>x. x \<in> set xs \<Longrightarrow> \<not> lt x \<Longrightarrow> \<not> gt x \<Longrightarrow> x = c" for lt gt and xs :: "'a SuffixMatchTree list"
    using that by (induction xs) auto
  ultimately show ?thesis by (simp add: children_defs)
qed

lemma find_remove_child:
  assumes "smt_wf t" "children_find_light l (children t) = Some c"
  shows "children_find_light k (children (smt_remove dflt (xs @ [l]) False t)) =
    (if foldc l = foldc k
     then (if xs = [] \<and> children c = [] then None else Some (smt_remove dflt xs False c))
     else children_find_light k (children t))"
proof -
  have o: "key_sorted pdns_ilexicographical_compare_three_way smt_name (children t)" using assms(1) by (simp add: smt_wf_iff [of t])
  let ?c' = "SuffixMatchTree (smt_name c) (children c) False (d_value c)" and ?smt = "SuffixMatchTree l [] False dflt"
  have eq: "children (smt_remove dflt (xs @ [l]) False t) =
      (if xs = [] \<and> children c = [] then children_erase ?smt (children t)
       else if xs = [] then children_update ?smt (\<lambda>_. ?c') (children t)
       else children_update ?smt (smt_remove dflt xs False) (children t))"
    by (simp add: smt_remove_snoc Let_def assms(2))
  have erase: "children_find_light k (children_erase ?smt (children t)) =
      (if foldc l = foldc k then None else children_find_light k (children t))"
    using childset.find_erase [OF o, of k l] by (simp add: ilex_eq_0_iff children_defs)
  have update: "children_find_light k (children_update ?smt f (children t)) =
      (if foldc l = foldc k then Some (f c) else children_find_light k (children t))"
    if "\<And>x. smt_name (f x) = smt_name x" for f
    using childset.find_modify [OF that o, of k l] assms(2) by (simp add: ilex_eq_0_iff children_defs)
  have const: "children_update ?smt (\<lambda>_. ?c') (children t) = children_update ?smt (\<lambda>x. if x = c then ?c' else x) (children t)"
    by (rule find_constant [OF assms]) simp
  show ?thesis
    unfolding eq const using erase update [of "smt_remove dflt xs False", OF smt_remove_name_kept]
      update [of "\<lambda>x. if x = c then ?c' else x"] by (simp add: smt_remove_Nil)
qed

lemma smt_remove_get:
  "smt_wf t \<Longrightarrow>
   smt_get (smt_remove dflt labels False t) path = (if map foldc path = map foldc (rev labels) then None else smt_get t path)"
proof (induction labels arbitrary: t path rule: rev_induct)
  case Nil
  then show ?case by (cases path) (simp_all add: smt_remove_Nil)
next
  case (snoc l xs)
  show ?case
  proof (cases "children_find_light l (children t)")
    case None
    then have "smt_get t path = None" if "map foldc path = map foldc (rev (xs @ [l]))"
      using that find_light_cong [of "hd path" l "children t"] by (cases path) auto
    then show ?thesis using None by (auto simp: smt_remove_snoc Let_def)
  next
    case (Some c)
    have wc: "smt_wf c" using find_wf [OF snoc.prems Some] .
    show ?thesis
    proof (cases path)
      case Nil
      then show ?thesis using Some by (simp add: smt_remove_snoc Let_def)
    next
      case (Cons p ps)
      show ?thesis
      proof (cases "foldc l = foldc p")
        case True
        then have "children_find_light p (children t) = Some c" using Some find_light_cong by metis
        then show ?thesis using True find_remove_child [OF snoc.prems Some, of p dflt xs] snoc.IH [OF wc, of ps] Cons
            smt_get_no_children [of c ps] by auto
      next
        case False
        then show ?thesis using find_remove_child [OF snoc.prems Some, of p dflt xs] Cons by simp
      qed
    qed
  qed
qed

lemma smt_remove_wf: "smt_wf t \<Longrightarrow> smt_wf (smt_remove dflt labels sub t)"
proof (induction labels arbitrary: t sub rule: rev_induct)
  case Nil
  then show ?case by (simp add: smt_remove_Nil smt_wf_iff [of t])
next
  case (snoc l xs)
  let ?new = "SuffixMatchTree l [] False dflt"
  have o: "key_sorted pdns_ilexicographical_compare_three_way smt_name (children t)"
    and w: "\<forall>c \<in> set (children t). smt_wf c" using snoc.prems by (auto simp: smt_wf_iff [of t] list_all_iff)
  have e: "smt_wf (SuffixMatchTree n (children_erase ?new (children t)) b d)" for n b d
    using childset.erase_ordered [OF o] w by (auto simp: children_defs list_all_iff dest!: set_erase_mem)
  have u: "smt_wf (SuffixMatchTree n (children_update ?new f (children t)) b d)"
    if "\<And>c. smt_name (f c) = smt_name c" "\<And>c. smt_wf c \<Longrightarrow> smt_wf (f c)" for n f b d
    using childset.modify_ordered [OF o that(1)] w that(2) by (auto simp: children_defs list_all_iff dest!: set_modify_mem)
  show ?case
  proof (cases "children_find_light l (children t)")
    case None
    then show ?thesis using snoc.prems by (simp add: smt_remove_snoc Let_def)
  next
    case (Some c)
    have "smt_wf c" using find_wf [OF snoc.prems Some] .
    then have "smt_wf (SuffixMatchTree (smt_name c) (children c) False (d_value c))" by (simp add: smt_wf_iff [of c])
    then show ?thesis
      using Some e u [of "smt_remove dflt xs False", OF smt_remove_name_kept snoc.IH]
        u [of "\<lambda>x. if x = c then SuffixMatchTree (smt_name c) (children c) False (d_value c) else x"]
      by (auto simp: smt_remove_snoc Let_def find_constant [OF snoc.prems Some, of "SuffixMatchTree (smt_name c) (children c) False (d_value c)", simplified])
  qed
qed

section \<open>The lookup finds the longest stored suffix\<close>

text \<open>The reference: the value of the name itself, else of its parent, and so on up to the root.\<close>

fun best_suffix :: "(bytes list \<Rightarrow> 'a option) \<Rightarrow> bytes list \<Rightarrow> 'a option" where
  "best_suffix g [] = g []"
| "best_suffix g (l # ls) = (case g (rev (l # ls)) of Some v \<Rightarrow> Some v | None \<Rightarrow> best_suffix g ls)"

lemma best_suffix_snoc:
  "best_suffix g (xs @ [p]) = (case best_suffix (\<lambda>q. g (p # q)) xs of Some v \<Rightarrow> Some v | None \<Rightarrow> g [])"
  by (induction xs) (auto split: option.split)

lemma best_suffix_None: "best_suffix g ls = None \<longleftrightarrow> (\<forall>ks. suffix ks ls \<longrightarrow> g (rev ks) = None)"
  by (induction ls) (auto simp: suffix_Cons split: option.splits)

lemma best_suffix_empty: "best_suffix (\<lambda>_. None) ls = None"
  by (simp add: best_suffix_None)

fun smt_best :: "'a SuffixMatchTree \<Rightarrow> bytes list \<Rightarrow> 'a SuffixMatchTree option" where
  "smt_best t [] = (if endNode t then Some t else None)"
| "smt_best t (p # ps) =
     (case children_find_light p (children t) of
        None \<Rightarrow> if endNode t then Some t else None
      | Some c \<Rightarrow> (case smt_best c ps of Some n \<Rightarrow> Some n | None \<Rightarrow> if endNode t then Some t else None))"

lemma getBestNode_visitor_best:
  "visitor_at ls k v \<Longrightarrow> valid_labels ls \<Longrightarrow> getBestNode_visitor t v = Inr (smt_best t (rev (take k ls)))"
proof (induction k arbitrary: t v)
  case 0
  then show ?case by (subst getBestNode_visitor.simps) (simp add: visitor_empty_at)
next
  case (Suc k)
  obtain v' where v': "visitor_pop_back v = (True, v')" "visitor_at ls k v'" using visitor_pop_back_at [OF Suc.prems(1)] by blast
  have "k < length ls" using Suc.prems(1) by (simp add: visitor_at_def)
  then show ?case
    using Suc.prems v' visitor_back_at [OF Suc.prems] visitor_empty_at [OF Suc.prems(1)] Suc.IH [OF v'(2)]
    by (subst getBestNode_visitor.simps) (auto simp: take_Suc_conv_app_nth split: option.split)
qed

lemma smt_best_value: "map_option d_value (smt_best t path) = best_suffix (smt_get t) (rev path)"
proof (induction path arbitrary: t)
  case (Cons p ps)
  show ?case
  proof (cases "children_find_light p (children t)")
    case None
    then show ?thesis by (simp add: best_suffix_snoc best_suffix_empty)
  next
    case (Some c)
    then show ?thesis using Cons [of c] by (cases "smt_best c ps") (simp_all add: best_suffix_snoc, metis option.simps(5))
  qed
qed simp

lemma smt_lookup_best:
  assumes "valid_labels ls"
  shows "smt_lookup t (name_of ls) = Inr (best_suffix (smt_get t) ls)"
proof (cases "children t = []")
  case True
  then have "best_suffix (smt_get t) ls = smt_get t []"
    by (induction ls) (simp_all add: smt_get_no_children)
  then show ?thesis using True by (simp add: smt_lookup_def getBestNode_def)
next
  case False
  obtain v where "getRawLabelsVisitor (name_of ls) = Inr v" "visitor_at ls (length ls) v"
    using getRawLabelsVisitor_name_of [OF assms] by blast
  then show ?thesis using False getBestNode_visitor_best [of ls "length ls" v t] assms smt_best_value [of t "rev ls"]
    by (simp add: smt_lookup_def getBestNode_def)
qed

text \<open>
  Claim C15 (longest suffix match): looking a valid name up in a suffix tree returns the value
  stored for the name itself or else for its nearest stored ancestor, the root included, and
  nothing when neither the name nor an ancestor is stored. No access of the label visitor fails.
\<close>

theorem smt_lookup_longest_suffix:
  assumes "valid_labels ls"
  shows "smt_lookup t (name_of ls) = Inr (best_suffix (smt_get t) ls)"
  using assms by (rule smt_lookup_best)

theorem smt_lookup_longest_suffix_witness:
  "smt_lookup (smt_add (0 :: nat) [[97], [98]] 7 (SuffixMatchTree [] [] False 0)) (name_of [[99], [65], [98]]) =
     Inr (best_suffix (smt_get (smt_add 0 [[97], [98]] 7 (SuffixMatchTree [] [] False 0))) [[99], [65], [98]])"
proof -
  have "valid_labels [[99], [65], [98]]" by code_simp
  then show ?thesis by (rule smt_lookup_longest_suffix)
qed

text \<open>
  Claim C29 (the tree is a map of names): adding a value at a name makes it the value of exactly
  that name, up to case; removing a name, without its subtree, makes exactly that name have no
  value; no other name is affected, and the order of the children is kept.
\<close>

theorem smt_add_remove_get:
  assumes "smt_wf t"
  shows "smt_wf (smt_add dflt labels v t) \<and> smt_wf (smt_remove dflt labels False t) \<and>
    smt_get (smt_add dflt labels v t) path = (if map foldc path = map foldc (rev labels) then Some v else smt_get t path) \<and>
    smt_get (smt_remove dflt labels False t) path = (if map foldc path = map foldc (rev labels) then None else smt_get t path)"
  using assms by (simp add: smt_add_wf smt_remove_wf smt_add_get smt_remove_get)

theorem smt_add_remove_get_witness:
  "smt_get (smt_add (0 :: nat) [[97], [98]] 7 (SuffixMatchTree [] [] False 0)) [[66], [97]] = Some 7"
proof -
  have "smt_wf (SuffixMatchTree [] [] False (0 :: nat))" by code_simp
  moreover have "map foldc [[66], [97]] = map foldc (rev [[97], [98]])" by code_simp
  ultimately show ?thesis using smt_add_remove_get [of "SuffixMatchTree [] [] False (0 :: nat)" 0 "[[97], [98]]" 7 "[[66], [97]]"]
    by simp
qed

text \<open>
  Claim C36 (the subtree flag): removing a name of two or more labels together with its subtree
  does the same as removing the name alone, because the recursive call drops the flag.
\<close>

theorem smt_remove_subtree_ignored:
  assumes "2 \<le> length labels"
  shows "smt_remove dflt labels True t = smt_remove dflt labels False t"
proof -
  obtain xs l where l: "labels = xs @ [l]" "xs \<noteq> []" using assms by (cases labels rule: rev_cases) (auto simp: Suc_le_eq)
  show ?thesis unfolding l(1) smt_remove_snoc by (simp add: l(2) Let_def split: option.split)
qed

theorem smt_remove_subtree_ignored_witness:
  "smt_remove (0 :: nat) [[97], [98]] True (SuffixMatchTree [] [] True 7) =
   smt_remove 0 [[97], [98]] False (SuffixMatchTree [] [] True 7)"
  using smt_remove_subtree_ignored [of "[[97], [98]]" 0 "SuffixMatchTree [] [] True 7"] by simp

text \<open>
  Light keys: the two comparisons between a tree and a label view are the
  case-insensitive three-way comparison of the labels, on all labels and whatever their
  lengths, so a lookup by label view agrees with the order of the set.
\<close>

lemma LightKey_less_three_way:
  "(LightKey_less lk t \<longleftrightarrow> pdns_ilexicographical_compare_three_way lk (smt_name t) < 0) \<and>
   (SuffixMatchTree_less_LightKey t lk \<longleftrightarrow> pdns_ilexicographical_compare_three_way (smt_name t) lk < 0)"
  by (simp add: LightKey_less_iff less_LightKey_iff)

section \<open>The block list blocks the added names and everything below them\<close>

definition smn_wf :: "SuffixMatchNode \<Rightarrow> bool" where
  "smn_wf s \<longleftrightarrow> smt_wf (d_tree s)"

lemma smn_add_list_get:
  "smn_wf s \<Longrightarrow> (\<forall>m \<in> set ms. valid_labels m) \<Longrightarrow>
   smn_wf (fold (\<lambda>m. smn_add (name_of m)) ms s) \<and>
   (smt_get (d_tree (fold (\<lambda>m. smn_add (name_of m)) ms s)) path \<noteq> None \<longleftrightarrow>
     smt_get (d_tree s) path \<noteq> None \<or> (\<exists>m \<in> set ms. map foldc path = map foldc (rev m)))"
proof (induction ms arbitrary: s)
  case (Cons m ms)
  let ?s = "smn_add (name_of m) s"
  have "smn_wf ?s" using Cons.prems by (simp add: smn_wf_def smn_add_def smt_add_name_def smt_add_wf)
  moreover have "smt_get (d_tree ?s) path \<noteq> None \<longleftrightarrow> smt_get (d_tree s) path \<noteq> None \<or> map foldc path = map foldc (rev m)"
    using Cons.prems by (simp add: smn_wf_def smn_add_def smt_add_name_def smt_add_get getRawLabels_name_of del: not_None_eq)
  ultimately show ?case using Cons.IH [of ?s] Cons.prems(2) by auto
qed simp

lemma smn_check_suffix:
  assumes "valid_labels ls"
  shows "smn_check s (name_of ls) = Inr (\<exists>ks. suffix ks ls \<and> smt_get (d_tree s) (rev ks) \<noteq> None)"
  using best_suffix_None [of "smt_get (d_tree s)" ls] 
  by (simp add: smn_check_def smt_lookup_best [OF assms] del: not_None_eq)

text \<open>
  Claim C30 (block list): after any sequence of names has been added to an empty block list,
  \<^verbatim>\<open>check\<close> answers true for exactly the names that are part of one of them, as \<^verbatim>\<open>isPartOf\<close> defines it.
\<close>

theorem SuffixMatchNode_check:
  assumes "\<forall>m \<in> set ms. valid_labels m" "valid_labels ls"
  shows "smn_check (fold (\<lambda>m. smn_add (name_of m)) ms smn_empty) (name_of ls) =
    Inr (\<exists>m \<in> set ms. isPartOf (name_of ls) (name_of m) = Inr True)"
proof -
  let ?s = "fold (\<lambda>m. smn_add (name_of m)) ms smn_empty"
  have e: "smn_wf smn_empty" "smt_get (d_tree smn_empty) path = None" for path
    by (simp add: smn_wf_def smn_empty_def key_sorted_def, cases path)
      (simp_all add: smn_empty_def children_find_light_def)
  have "(\<exists>ks. suffix ks ls \<and> map foldc (rev ks) = map foldc (rev m)) \<longleftrightarrow> suffix (map foldc m) (map foldc ls)" for m
  proof
    assume "suffix (map foldc m) (map foldc ls)"
    from suffix_foldc_split [OF this] show "\<exists>ks. suffix ks ls \<and> map foldc (rev ks) = map foldc (rev m)"
      by (intro exI [of _ "drop (length ls - length m) ls"]) (simp add: suffix_drop rev_map [symmetric])
  qed (metis map_mono_suffix rev_is_rev_conv rev_map)
  moreover have "smt_get (d_tree ?s) (rev ks) \<noteq> None \<longleftrightarrow> (\<exists>m \<in> set ms. map foldc (rev ks) = map foldc (rev m))" for ks
    using smn_add_list_get [OF e(1) assms(1), of "rev ks"] by (simp add: e(2) del: not_None_eq)
  ultimately have "(\<exists>ks. suffix ks ls \<and> smt_get (d_tree ?s) (rev ks) \<noteq> None) \<longleftrightarrow>
      (\<exists>m \<in> set ms. suffix (map foldc m) (map foldc ls))" by metis
  then show ?thesis using smn_check_suffix [OF assms(2), of ?s] isPartOf_name_of [OF assms(2)] assms(1) by auto
qed

theorem SuffixMatchNode_check_witness:
  "smn_check (fold (\<lambda>m. smn_add (name_of m)) [[[97], [98]], [[99]]] smn_empty) (name_of [[120], [65], [98]]) =
    Inr (\<exists>m \<in> set [[[97], [98]], [[99]]]. isPartOf (name_of [[120], [65], [98]]) (name_of m) = Inr True)"
proof -
  have "\<forall>m \<in> set [[[97], [98]], [[99]]]. valid_labels m" "valid_labels [[120], [65], [98]]" by code_simp+
  then show ?thesis by (rule SuffixMatchNode_check)
qed

text \<open>
  The overload that adds a label vector: of a vector of two or more labels only the
  first label, as a name of its own, enters the set of names that \<^verbatim>\<open>toString\<close> and \<^verbatim>\<open>toVector\<close> list, since
  the tree has popped the others from the vector by then; the tree itself gets the whole name.
\<close>

lemma SuffixMatchNode_add_labels_nodes:
  assumes "valid_label l" "ls \<noteq> []"
  shows "smn_add_labels (l # ls) s =
    Inr (s\<lparr>d_tree := smt_add False (l # ls) True (d_tree s), d_nodes := nodes_insert (name_of [l]) (d_nodes s)\<rparr>)"
proof -
  have "appendRawLabel (DNSName []) l = Inr (name_of [l])" using assms(1) appendRawLabel_unset by blast
  then show ?thesis by (simp add: smn_add_labels_def smt_add_leftover_def)
qed

lemma SuffixMatchNode_add_labels_nodes_witness:
  "smn_add_labels [[119], [97]] smn_empty =
    Inr (smn_empty\<lparr>d_tree := smt_add False [[119], [97]] True (d_tree smn_empty), d_nodes := nodes_insert (name_of [[119]]) []\<rparr>)"
proof -
  have "valid_label [119]" by code_simp
  from SuffixMatchNode_add_labels_nodes [OF this, of "[[97]]" smn_empty] show ?thesis by (simp add: smn_empty_def)
qed

text \<open>
  Labels read as text: the best match of a name under a stored single label \<open>a.b\<close> (one label
  that holds a dot) is reported as a name of the two labels \<open>a\<close> and \<open>b\<close>, because the label is parsed as
  presentation text.
\<close>

lemma getBestMatch_label_as_text:
  "getBestMatch (smt_add_name False (name_of [ascii ''a.b'']) True (SuffixMatchTree [] [] False False)) (name_of [ascii ''a.b'']) =
     Inr (Some (name_of [ascii ''a'', ascii ''b'']))"
  by code_simp

end
