(* ===== verification/NameWire.thy ===== *)
theory NameWire
  imports NameCore
begin

text \<open>
  Reading a name from a DNS packet: \<^verbatim>\<open>DNSName::parsePacketUncompressed\<close>,
  \<^verbatim>\<open>DNSName::packetParser\<close> and the constructor that calls it (\<^verbatim>\<open>pdns/dnsname.cc\<close>).
  Out-parameters of the source are components of the result. The relation \<open>wire\<close> says
  which labels the bytes at an offset denote when compression pointers are followed; the
  parser is proved to return exactly those labels, to read inside the packet only, and to
  follow a bounded number of pointers.
\<close>

unbundle bit_operations_syntax

definition s_maxPointersToPointers :: nat where
  "s_maxPointersToPointers = 4"

definition s_maxPointersPerName :: nat where
  "s_maxPointersPerName = 10"

section \<open>The parser\<close>

text \<open>
  The loop of \<^verbatim>\<open>parsePacketUncompressed\<close>: from \<open>pos\<close>, with \<open>totalLength\<close> bytes of labels
  accepted so far. It stops at a zero byte or at a compression pointer, and returns the
  position of that byte.
\<close>

function parsePacketUncompressed_loop ::
    "bytes \<Rightarrow> bool \<Rightarrow> nat \<Rightarrow> nat \<Rightarrow> nat \<Rightarrow> nat \<Rightarrow> (nat \<times> nat) result" where
  "parsePacketUncompressed_loop view uncompress existingSize neededSizeForFinalLabel pos totalLength =
     bindR (at view pos) (\<lambda>labellen.
       if labellen = 0 then Inr (pos, totalLength)
       else if labellen \<ge> 0xc0 then
         (if \<not> uncompress then Inl (range_error ''Found compressed label, instructed not to follow'')
          else Inr (pos, totalLength))
       else if (labellen AND 0xc0) \<noteq> 0 then
         Inl (range_error ''Found an invalid label length in qname (only one of the first two bits is set)'')
       else bindR (checkLabelLength labellen) (\<lambda>_.
         if existingSize + totalLength + unat labellen + 1 + neededSizeForFinalLabel > s_maxDNSNameLength
         then Inl (range_error ''name too long to append'')
         else if pos + 1 + unat labellen \<ge> length view
         then Inl (range_error ''Found an invalid label length in qname'')
         else parsePacketUncompressed_loop view uncompress existingSize neededSizeForFinalLabel
                (pos + 1 + unat labellen) (totalLength + 1 + unat labellen)))"
  by pat_completeness auto
termination
  by (relation "measure (\<lambda>(view, u, e, n, pos, t). length view - pos)") (auto simp: at_Inr_iff)

declare parsePacketUncompressed_loop.simps [simp del]

text \<open>
  The guard \<^verbatim>\<open>pos < view.size()\<close> of the source's loop always holds when it is reached,
  because the length check before it makes the next position smaller than the size.
\<close>

definition parsePacketUncompressed :: "bytes \<Rightarrow> nat \<Rightarrow> bool \<Rightarrow> bytes \<Rightarrow> (nat \<times> bytes) result" where
  "parsePacketUncompressed view initialPos uncompress storage =
     (let existingSize = length storage;
          neededSizeForFinalLabel = (if existingSize = 0 then 1 else 0)
      in bindR (parsePacketUncompressed_loop view uncompress existingSize neededSizeForFinalLabel initialPos 0)
         (\<lambda>(pos, totalLength).
           if totalLength \<noteq> 0 then
             (let existingSize' = (if existingSize > 0 then existingSize - 1 else existingSize)
              in if existingSize' + totalLength + 1 > s_maxDNSNameLength
                 then Inl (range_error ''name too long to append'')
                 else Inr (pos, take existingSize' storage @ take totalLength (drop initialPos view) @ [0]))
           else Inr (pos, storage)))"

text \<open>
  \<open>pointerBudget\<close> is \<open>None\<close> for a null pointer. The result holds the position after the name
  in the packet, the budget left and the storage.
\<close>

function packetParser ::
    "bytes \<Rightarrow> nat \<Rightarrow> bool \<Rightarrow> nat \<Rightarrow> nat \<Rightarrow> nat \<Rightarrow> nat option \<Rightarrow> bytes \<Rightarrow> (nat \<times> nat option \<times> bytes) result" where
  "packetParser view offset uncompress depth minOffset pointerChainLength pointerBudget storage =
     (if offset \<ge> length view then Inl (range_error ''Trying to read past the end of the buffer'')
      else if offset < minOffset then Inl (range_error ''Trying to read before the beginning of the buffer'')
      else bindR (parsePacketUncompressed view offset uncompress storage) (\<lambda>(pos, storage1).
        bindR (at view pos) (\<lambda>labellen.
          bindR (if pos = offset \<and> labellen \<noteq> 0 then
                   (if pointerBudget = Some 0
                    then Inl (range_error ''Too many compression pointers processed in packet'')
                    else if pointerChainLength > s_maxPointersToPointers
                    then Inl (range_error ''Too many pointer to pointers during decompression'')
                    else Inr (pointerChainLength + 1, map_option (\<lambda>b. b - 1) pointerBudget))
                 else Inr (0, pointerBudget)) (\<lambda>(chain, budget).
            if labellen \<noteq> 0 \<and> pos + 1 < length view then
              (if labellen < 0xc0 then Inl (range_error ''Invalid label byte during decompression'')
               else if \<not> uncompress
               then Inl (range_error ''Found compressed label, instructed not to follow'')
               else bindR (at view (pos + 1)) (\<lambda>low.
                 let newpos = unat (labellen AND NOT 0xc0) * 256 + unat low in
                 if newpos \<ge> offset
                 then Inl (range_error ''Found a forward reference during label decompression'')
                 else if newpos < minOffset
                 then Inl (range_error ''Invalid label position during decompression'')
                 else if depth + 1 > s_maxPointersPerName
                 then Inl (range_error ''Abort label decompression after too many redirects'')
                 else bindR (packetParser view newpos True (depth + 1) minOffset chain budget storage1)
                        (\<lambda>(_, budget2, storage2).
                          Inr (pos + 2, budget2, if storage2 = [] then [0] else storage2))))
            else Inr (pos + 1, budget, if storage1 = [] then [0] else storage1)))))"
  by pat_completeness auto
termination
  by (relation "measure (\<lambda>(view, offset, u, d, m, c, b, s). offset)") auto

declare packetParser.simps [simp del]

text \<open>
  The constructor from a packet. \<open>wantType\<close> and \<open>wantClass\<close> say whether the caller passed
  pointers for the type and class; the result is the name, the number of bytes consumed, the
  budget left, the type and the class.
\<close>

definition DNSName_from_packet ::
    "bytes \<Rightarrow> nat \<Rightarrow> bool \<Rightarrow> bool \<Rightarrow> bool \<Rightarrow> nat \<Rightarrow> nat option \<Rightarrow>
     (DNSName \<times> nat \<times> nat option \<times> nat option \<times> nat option) result" where
  "DNSName_from_packet view offset uncompress wantType wantClass minOffset pointerBudget =
     (if offset \<ge> length view then Inl (range_error ''Trying to read past the end of the buffer'')
      else bindR (packetParser view offset uncompress 0 minOffset 0 pointerBudget [])
        (\<lambda>(pos, budget, storage).
          bindR (if wantType then
                   (if pos + 2 > length view
                    then Inl (range_error ''Trying to read qtype past the end of the buffer'')
                    else bindR (at view pos) (\<lambda>h. bindR (at view (pos + 1)) (\<lambda>l. Inr (Some (be16 h l)))))
                 else Inr None) (\<lambda>qtype.
            bindR (if wantClass then
                     (if pos + 2 + 2 > length view
                      then Inl (range_error ''Trying to read qclass past the end of the buffer'')
                      else bindR (at view (pos + 2)) (\<lambda>h. bindR (at view (pos + 3)) (\<lambda>l. Inr (Some (be16 h l)))))
                   else Inr None) (\<lambda>qclass.
              Inr (DNSName storage, pos - offset, budget, qtype, qclass)))))"

section \<open>What the bytes of a packet denote\<close>

text \<open>
  \<open>seg view pos ls e\<close>: the labels \<open>ls\<close> lie one after the other from \<open>pos\<close>, and \<open>e\<close> is the
  position after the last of them, inside the packet.
\<close>

fun seg :: "bytes \<Rightarrow> nat \<Rightarrow> bytes list \<Rightarrow> nat \<Rightarrow> bool" where
  "seg view pos [] e \<longleftrightarrow> pos = e \<and> e < length view"
| "seg view pos (l # ls) e \<longleftrightarrow>
     valid_label l \<and> pos + 1 + length l < length view \<and> view ! pos = of_nat (length l) \<and>
     take (length l) (drop (pos + 1) view) = l \<and> seg view (pos + 1 + length l) ls e"

definition pointer_target :: "bytes \<Rightarrow> nat \<Rightarrow> nat" where
  "pointer_target view e = (unat (view ! e) - 192) * 256 + unat (view ! (e + 1))"

text \<open>
  \<open>wire view m c off ls k p\<close>: at \<open>off\<close> the packet holds a name with the labels \<open>ls\<close>, reached
  through \<open>k\<close> compression pointers, all of its parts at or after offset \<open>m\<close>; \<open>c\<close> is the number
  of pointers followed just before without reading a label, and \<open>p\<close> the position after the
  name. Every pointer goes backwards.
\<close>

inductive wire :: "bytes \<Rightarrow> nat \<Rightarrow> nat \<Rightarrow> nat \<Rightarrow> bytes list \<Rightarrow> nat \<Rightarrow> nat \<Rightarrow> bool"
  for view :: bytes and m :: nat where
  wire_end: "m \<le> off \<Longrightarrow> seg view off ls e \<Longrightarrow> view ! e = 0 \<Longrightarrow> wire view m c off ls 0 (e + 1)"
| wire_pointer: "m \<le> off \<Longrightarrow> seg view off ls e \<Longrightarrow> 0xc0 \<le> view ! e \<Longrightarrow> e + 1 < length view \<Longrightarrow>
     pointer_target view e < off \<Longrightarrow> (ls = [] \<longrightarrow> c \<le> s_maxPointersToPointers) \<Longrightarrow>
     wire view m (if ls = [] then c + 1 else 0) (pointer_target view e) ks k q \<Longrightarrow>
     wire view m c off (ls @ ks) (Suc k) (e + 2)"

text \<open>
  The same with a pointer whose second byte is missing because the packet ends: the parser
  takes it for the end of the name.
\<close>

inductive wire_cut :: "bytes \<Rightarrow> nat \<Rightarrow> nat \<Rightarrow> nat \<Rightarrow> bytes list \<Rightarrow> nat \<Rightarrow> nat \<Rightarrow> bool"
  for view :: bytes and m :: nat where
  cut_here: "m \<le> off \<Longrightarrow> seg view off ls e \<Longrightarrow> 0xc0 \<le> view ! e \<Longrightarrow> e + 1 = length view \<Longrightarrow>
     (ls = [] \<longrightarrow> c \<le> s_maxPointersToPointers) \<Longrightarrow> wire_cut view m c off ls 0 (e + 1)"
| cut_later: "m \<le> off \<Longrightarrow> seg view off ls e \<Longrightarrow> 0xc0 \<le> view ! e \<Longrightarrow> e + 1 < length view \<Longrightarrow>
     pointer_target view e < off \<Longrightarrow> (ls = [] \<longrightarrow> c \<le> s_maxPointersToPointers) \<Longrightarrow>
     wire_cut view m (if ls = [] then c + 1 else 0) (pointer_target view e) ks k q \<Longrightarrow>
     wire_cut view m c off (ls @ ks) (Suc k) (e + 2)"

section \<open>Facts about label bytes\<close>

lemma u8_top_bits: "(x :: u8) < 0xc0 \<Longrightarrow> x AND 0xc0 = 0 \<longleftrightarrow> unat x \<le> 63"
proof -
  have "\<forall>n \<in> set [0..<256]. (of_nat n :: u8) < 0xc0 \<longrightarrow> ((of_nat n :: u8) AND 0xc0 = 0 \<longleftrightarrow> unat (of_nat n :: u8) \<le> 63)"
    by code_simp
  from u8_exhaust [OF this] show "x < 0xc0 \<Longrightarrow> x AND 0xc0 = 0 \<longleftrightarrow> unat x \<le> 63" by blast
qed

lemma u8_pointer_bits: "(0xc0 :: u8) \<le> x \<Longrightarrow> unat (x AND NOT 0xc0) = unat x - 192"
proof -
  have "\<forall>n \<in> set [0..<256]. (0xc0 :: u8) \<le> of_nat n \<longrightarrow> unat ((of_nat n :: u8) AND NOT 0xc0) = unat (of_nat n :: u8) - 192"
    by code_simp
  from u8_exhaust [OF this] show "0xc0 \<le> x \<Longrightarrow> unat (x AND NOT 0xc0) = unat x - 192" by blast
qed

lemma seg_bounds: "seg view pos ls e \<Longrightarrow> pos \<le> e \<and> e < length view \<and> list_all valid_label ls"
  by (induction view pos ls e rule: seg.induct) auto

lemma seg_take: "seg view pos ls e \<Longrightarrow> take (e - pos) (drop pos view) = concat (map enc_label ls)"
proof (induction view pos ls e rule: seg.induct)
  case (2 view pos l ls e)
  then have e: "pos + 1 + length l \<le> e" by (auto dest: seg_bounds)
  have "drop pos view = view ! pos # drop (pos + 1) view"
    using 2 Cons_nth_drop_Suc [of pos view] by simp
  also have "drop (pos + 1) view = l @ drop (pos + 1 + length l) view"
    using 2 by (metis append_take_drop_id drop_drop add.commute seg.simps(2))
  finally have d: "drop pos view = enc_label l @ drop (pos + 1 + length l) view"
    using 2 by (simp add: enc_label_def)
  have "e - pos = length (enc_label l) + (e - (pos + 1 + length l))" using e by simp
  then show ?case using 2 d by simp
qed simp

lemma seg_length: "seg view pos ls e \<Longrightarrow> e = pos + length (concat (map enc_label ls))"
  by (induction view pos ls e rule: seg.induct) auto

lemma concat_enc_length: "length (concat (map enc_label ls)) + 1 = length (encode ls)"
  by (simp add: encode_def)

lemma concat_enc_0_iff: "length (concat (map enc_label ls)) = 0 \<longleftrightarrow> ls = []"
  by (cases ls) auto

lemma seg_encode:
  assumes "list_all valid_label ls"
  shows "seg (pre @ concat (map enc_label ls) @ x # post) (length pre) ls
           (length pre + length (concat (map enc_label ls)))"
  using assms
proof (induction ls arbitrary: pre)
  case (Cons l ls)
  from Cons.IH [of "pre @ enc_label l"] Cons.prems show ?case
    by (simp add: enc_label_def nth_append add.assoc)
qed simp

section \<open>The parser reads exactly what the bytes denote\<close>

lemma label_byte_cases:
  fixes b :: u8
  obtains "b = 0" | "0xc0 \<le> b" "b \<noteq> 0" | "b \<noteq> 0" "b < 0xc0" "b AND 0xc0 \<noteq> 0" "63 < unat b"
    | "b \<noteq> 0" "b < 0xc0" "b AND 0xc0 = 0" "1 \<le> unat b" "unat b \<le> 63"
proof -
  have "b \<noteq> 0 \<Longrightarrow> 1 \<le> unat b" using unat_u8_pos [of b] by simp
  then show thesis using that u8_top_bits [of b]
    by (cases "b = 0"; cases "b < 0xc0"; cases "b AND 0xc0 = 0") (simp_all add: not_less not_le)
qed

lemma checkLabelLength_ok: "1 \<le> unat b \<Longrightarrow> unat b \<le> 63 \<Longrightarrow> checkLabelLength b = Inr ()"
  by (auto simp: checkLabelLength_def)

definition stops_at :: "bytes \<Rightarrow> bool \<Rightarrow> nat \<Rightarrow> bool" where
  "stops_at view uncompress e \<longleftrightarrow> view ! e = 0 \<or> (0xc0 \<le> view ! e \<and> uncompress)"

lemma loop_sound:
  "parsePacketUncompressed_loop view u ex nd pos t = Inr (e, t') \<Longrightarrow>
   \<exists>ls. seg view pos ls e \<and> stops_at view u e \<and> t' = t + length (concat (map enc_label ls)) \<and>
     (ls \<noteq> [] \<longrightarrow> ex + t' + nd \<le> 255)"
proof (induction view u ex nd pos t rule: parsePacketUncompressed_loop.induct)
  case (1 view u ex nd pos t)
  from "1.prems" have pos: "pos < length view"
    by (subst (asm) parsePacketUncompressed_loop.simps) (auto simp: bindR_Inr_iff at_Inr_iff)
  let ?b = "view ! pos"
  show ?case
  proof (cases ?b rule: label_byte_cases)
    case 4
    let ?n = "unat ?b"
    have nle: "\<not> 0xc0 \<le> ?b" using 4 by (simp add: not_le)
    from "1.prems" pos 4 have fit: "ex + t + ?n + 1 + nd \<le> 255" "pos + 1 + ?n < length view"
      and rec: "parsePacketUncompressed_loop view u ex nd (pos + 1 + ?n) (t + 1 + ?n) = Inr (e, t')"
      by (subst (asm) parsePacketUncompressed_loop.simps,
          auto simp: checkLabelLength_ok not_le [symmetric] split: if_splits)+
    from "1.IH" [of ?b "()"] rec fit 4 pos nle obtain ls where
      ls: "seg view (pos + 1 + ?n) ls e" "stops_at view u e"
        "t' = t + 1 + ?n + length (concat (map enc_label ls))" "ls \<noteq> [] \<longrightarrow> ex + t' + nd \<le> 255"
      by (auto simp: checkLabelLength_ok)
    let ?l = "take ?n (drop (pos + 1) view)"
    have "length ?l = ?n" using fit by simp
    then have "seg view pos (?l # ls) e" using ls(1) 4 fit by (simp add: valid_label_def)
    moreover have "t' = t + length (concat (map enc_label (?l # ls)))"
      using ls(3) \<open>length ?l = ?n\<close> by simp
    moreover have "ex + t' + nd \<le> 255"
      using ls(3,4) fit by (cases "ls = []") auto
    ultimately show ?thesis using ls(2) by blast
  qed (use "1.prems" pos in \<open>subst (asm) parsePacketUncompressed_loop.simps,
      auto simp: stops_at_def intro!: exI [of _ Nil] split: if_splits\<close>)+
qed

lemma loop_complete:
  "seg view pos ls e \<Longrightarrow> stops_at view u e \<Longrightarrow>
   (ls \<noteq> [] \<Longrightarrow> ex + t + length (concat (map enc_label ls)) + nd \<le> 255) \<Longrightarrow>
   parsePacketUncompressed_loop view u ex nd pos t = Inr (e, t + length (concat (map enc_label ls)))"
proof (induction view pos ls e arbitrary: t rule: seg.induct)
  case (1 view pos e)
  then show ?case
    by (subst parsePacketUncompressed_loop.simps) (auto simp: stops_at_def)
next
  case (2 view pos l ls e)
  then have v: "valid_label l" by simp
  have "parsePacketUncompressed_loop view u ex nd (pos + 1 + length l) (t + 1 + length l) =
      Inr (e, t + 1 + length l + length (concat (map enc_label ls)))"
    using 2 by (intro "2.IH") auto
  moreover have "view ! pos \<noteq> 0" "unat (view ! pos) = length l"
    using 2 v by (simp_all add: valid_label_head)
  moreover from this v have "view ! pos < 0xc0" "view ! pos AND 0xc0 = 0"
    using u8_top_bits [of "view ! pos"] by (auto simp: word_less_nat_alt valid_label_def)
  ultimately show ?case
    using 2 v by (subst parsePacketUncompressed_loop.simps)
      (auto simp: checkLabelLength_ok valid_label_def not_le)
qed

text \<open>The storage of a name that is being built: unset, or the encoding of some labels.\<close>

definition built :: "bytes list \<Rightarrow> bytes" where
  "built ks = (if ks = [] then [] else encode ks)"

lemma built_append:
  "take (if length (built ks) > 0 then length (built ks) - 1 else length (built ks)) (built ks) @
     concat (map enc_label ls) @ [0] = encode (ks @ ls)"
  by (simp add: built_def encode_def)

lemma built_length: "ks \<noteq> [] \<Longrightarrow> length (built ks) = length (encode ks)" "built [] = []"
  by (simp_all add: built_def)

lemma uncompressed_complete:
  assumes "seg view pos ls e" "stops_at view u e" "valid_labels (ks @ ls)"
  shows "parsePacketUncompressed view pos u (built ks) = Inr (e, built (ks @ ls))"
proof -
  let ?n = "length (concat (map enc_label ls))"
  have len: "length (encode (ks @ ls)) \<le> 255" using assms(3) by (simp add: valid_labels_def)
  then have "parsePacketUncompressed_loop view u (length (built ks))
      (if length (built ks) = 0 then 1 else 0) pos 0 = Inr (e, 0 + ?n)"
    using assms(1,2) by (intro loop_complete) (auto simp: built_def encode_def)
  then have loop: "parsePacketUncompressed_loop view u (length (built ks))
      (if length (built ks) = 0 then 1 else 0) pos 0 = Inr (e, ?n)" by simp
  have tk: "take ?n (drop pos view) = concat (map enc_label ls)"
    using seg_take [OF assms(1)] seg_length [OF assms(1)] by simp
  show ?thesis
  proof (cases "ls = []")
    case True
    with loop show ?thesis by (simp add: parsePacketUncompressed_def)
  next
    case False
    then have n0: "?n \<noteq> 0" using concat_enc_0_iff by blast
    have "(if length (built ks) > 0 then length (built ks) - 1 else length (built ks)) + ?n + 1 \<le> 255"
      using len by (auto simp: built_def encode_def)
    then show ?thesis
      unfolding parsePacketUncompressed_def Let_def loop
      using n0 False tk built_append [of ks ls]
      by (auto simp: built_def)
  qed
qed

lemma uncompressed_sound:
  assumes "parsePacketUncompressed view pos u (built ks) = Inr (e, st)" "list_all valid_label ks"
    "length (built ks) \<le> 255"
  shows "\<exists>ls. seg view pos ls e \<and> stops_at view u e \<and> st = built (ks @ ls) \<and>
           list_all valid_label (ks @ ls) \<and> length st \<le> 255"
proof -
  from assms(1) obtain t where
    loop: "parsePacketUncompressed_loop view u (length (built ks))
        (if length (built ks) = 0 then 1 else 0) pos 0 = Inr (e, t)"
    by (auto simp: parsePacketUncompressed_def Let_def bindR_Inr_iff split: if_splits)
  from loop_sound [OF loop] obtain ls where
    ls: "seg view pos ls e" "stops_at view u e" and t: "t = length (concat (map enc_label ls))"
    by auto
  have v: "list_all valid_label (ks @ ls)" using seg_bounds [OF ls(1)] assms(2) by simp
  have tk: "take t (drop pos view) = concat (map enc_label ls)"
    using seg_take [OF ls(1)] seg_length [OF ls(1)] t by simp
  have t0: "t \<noteq> 0 \<longleftrightarrow> ls \<noteq> []" using t concat_enc_0_iff [of ls] by simp
  have "st = built (ks @ ls) \<and> length st \<le> 255"
  proof (cases "ls = []")
    case True
    with assms t0 loop show ?thesis by (auto simp: parsePacketUncompressed_def Let_def)
  next
    case False
    with assms(1) t0 tk built_append [of ks ls]
    have st: "st = encode (ks @ ls)"
      and le: "(if length (built ks) > 0 then length (built ks) - 1 else length (built ks)) + t + 1 \<le> 255"
      unfolding parsePacketUncompressed_def Let_def loop by (auto split: if_splits)
    have "length (encode (ks @ ls)) \<le> 255"
      using le unfolding t built_append [of ks ls, symmetric] by (auto simp: built_def encode_def)
    with st False show ?thesis by (simp add: built_def)
  qed
  with ls v show ?thesis by blast
qed

lemma wire_bounds: "wire view m c off ls k p \<Longrightarrow> m \<le> off \<and> off < p \<and> p \<le> length view \<and> list_all valid_label ls"
  by (induction rule: wire.induct) (auto dest: seg_bounds)

lemma wire_cut_bounds: "wire_cut view m c off ls k p \<Longrightarrow> m \<le> off \<and> off < p \<and> p \<le> length view \<and> list_all valid_label ls"
  by (induction rule: wire_cut.induct) (auto dest: seg_bounds)

lemma wire_off_less: "wire view m c off ls k p \<Longrightarrow> off < length view"
  using wire_bounds by fastforce

lemma seg_position: "seg view off ls e \<Longrightarrow> e = off \<longleftrightarrow> ls = []"
  by (metis add_cancel_right_right concat_enc_0_iff seg_length)

lemma pointer_not_zero: "(0xc0 :: u8) \<le> b \<Longrightarrow> b \<noteq> 0 \<and> \<not> b < 0xc0"
  by (auto simp: not_less)

lemma packetParser_complete:
  "wire view m c off ls k p \<Longrightarrow> valid_labels (ks @ ls) \<Longrightarrow> d + k \<le> s_maxPointersPerName \<Longrightarrow>
   (\<And>b. bud = Some b \<Longrightarrow> k \<le> b) \<Longrightarrow> u \<or> k = 0 \<Longrightarrow>
   \<exists>bud'. packetParser view off u d m c bud (built ks) = Inr (p, bud', encode (ks @ ls))"
proof (induction arbitrary: ks d bud u rule: wire.induct)
  case (wire_end off ls e c)
  then have "parsePacketUncompressed view off u (built ks) = Inr (e, built (ks @ ls))"
    by (intro uncompressed_complete) (auto simp: stops_at_def)
  moreover have "off \<le> e" "e < length view" using seg_bounds [OF wire_end.hyps(2)] by auto
  ultimately show ?case
    using wire_end by (subst packetParser.simps) (auto simp: built_def encode_Nil)
next
  case (wire_pointer off ls e c ks' k q)
  have v: "valid_labels (ks @ ls)" "valid_labels ((ks @ ls) @ ks')"
    using wire_pointer.prems(1) valid_labels_append [of "ks @ ls" ks'] by simp_all
  have u: u using wire_pointer.prems(4) by simp
  have parse: "parsePacketUncompressed view off u (built ks) = Inr (e, built (ks @ ls))"
    using wire_pointer.hyps v u by (intro uncompressed_complete) (auto simp: stops_at_def)
  have b: "off \<le> e" "e < length view" using seg_bounds [OF wire_pointer.hyps(2)] by auto
  have eoff: "e = off \<longleftrightarrow> ls = []" using seg_position [OF wire_pointer.hyps(2)] .
  have tgt: "unat (view ! e AND NOT 0xc0) * 256 + unat (view ! (e + 1)) = pointer_target view e"
    using u8_pointer_bits [OF wire_pointer.hyps(3)] by (simp add: pointer_target_def)
  let ?c = "if ls = [] then c + 1 else 0"
  let ?bud = "if ls = [] then map_option (\<lambda>b. b - 1) bud else bud"
  have budk: "\<And>b. bud = Some b \<Longrightarrow> Suc k \<le> b" using wire_pointer.prems(3) by auto
  then have "\<And>b. ?bud = Some b \<Longrightarrow> k \<le> b" "bud \<noteq> Some 0"
    by (fastforce split: if_splits)+
  with wire_pointer.IH [of "ks @ ls" "d + 1" ?bud True] v(2) wire_pointer.prems(2)
  obtain bud' where rec: "packetParser view (pointer_target view e) True (d + 1) m ?c ?bud (built (ks @ ls)) =
      Inr (q, bud', encode ((ks @ ls) @ ks'))" by auto
  have mt: "m \<le> pointer_target view e"
    using wire_bounds [OF wire_pointer.hyps(7)] by simp
  show ?case
    using wire_pointer.hyps wire_pointer.prems(2) parse b eoff u mt rec \<open>bud \<noteq> Some 0\<close>
      pointer_not_zero [OF wire_pointer.hyps(3)]
    by (subst packetParser.simps) (auto simp: tgt [simplified] Let_def)
qed

text \<open>
  The steps of one call, as the cases of its result: the segment of labels it read, then the
  end of the name, a pointer cut by the end of the packet, or a pointer that it followed.
\<close>

lemma packetParser_step:
  assumes "packetParser view off u d m c bud (built ks) = Inr (p, bud', st)"
    and "list_all valid_label ks" "length (built ks) \<le> 255"
  obtains (finish) ls e where "seg view off ls e" "view ! e = 0" "m \<le> off" "p = e + 1"
      "st = encode (ks @ ls)" "valid_labels (ks @ ls)"
    | (cut) ls e where "seg view off ls e" "0xc0 \<le> view ! e" "e + 1 = length view" "m \<le> off" "p = e + 1"
      "(ls = [] \<longrightarrow> c \<le> s_maxPointersToPointers)" "st = encode (ks @ ls)" "valid_labels (ks @ ls)"
    | (follow) ls e b q b'' where "seg view off ls e" "0xc0 \<le> view ! e" "e + 1 < length view" "m \<le> off"
      "p = e + 2" "(ls = [] \<longrightarrow> c \<le> s_maxPointersToPointers)" "pointer_target view e < off"
      "d + 1 \<le> s_maxPointersPerName" "valid_labels (ks @ ls) " "st \<noteq> []"
      "\<exists>st2. packetParser view (pointer_target view e) True (d + 1) m (if ls = [] then c + 1 else 0) b (built (ks @ ls)) =
         Inr (q, b'', st2) \<and> st = (if st2 = [] then [0] else st2)"
proof -
  from assms(1) have off: "off < length view" "m \<le> off"
    by (subst (asm) packetParser.simps, auto split: if_splits)+
  from assms(1) obtain e st1 where parse: "parsePacketUncompressed view off u (built ks) = Inr (e, st1)"
    by (subst (asm) packetParser.simps) (auto simp: bindR_Inr_iff split: if_splits)
  from uncompressed_sound [OF parse assms(2,3)] obtain ls where
    ls: "seg view off ls e" "stops_at view u e" "st1 = built (ks @ ls)" "list_all valid_label (ks @ ls)"
      "length st1 \<le> 255" by blast
  have e: "e < length view" and eoff: "e = off \<longleftrightarrow> ls = []"
    using seg_bounds [OF ls(1)] seg_position [OF ls(1)] by auto
  have st1: "(if st1 = [] then [0] else st1) = encode (ks @ ls)"
    using ls(3) by (simp add: built_def encode_Nil)
  have v: "valid_labels (ks @ ls)"
    using ls(3,4,5) st1 by (cases "ks @ ls = []") (auto simp: valid_labels_def built_def encode_Nil)
  show thesis
  proof (cases "view ! e = 0")
    case True
    then have "p = e + 1" "st = encode (ks @ ls)"
      using assms(1) off parse e st1 by (subst (asm) packetParser.simps, auto split: if_splits)+
    then show thesis using finish ls(1) True off v by blast
  next
    case False
    then have ptr: "0xc0 \<le> view ! e" "u" using ls(2) by (auto simp: stops_at_def)
    show thesis
    proof (cases "e + 1 < length view")
      case True
      have tgt: "unat (view ! e AND NOT 0xc0) * 256 + unat (view ! (e + 1)) = pointer_target view e"
        using u8_pointer_bits [OF ptr(1)] by (simp add: pointer_target_def)
      have eq: "packetParser view off u d m c bud (built ks) =
        bindR (if ls = [] then
                 (if bud = Some 0
                  then Inl (range_error ''Too many compression pointers processed in packet'')
                  else if c > s_maxPointersToPointers
                  then Inl (range_error ''Too many pointer to pointers during decompression'')
                  else Inr (c + 1, map_option (\<lambda>b. b - 1) bud))
               else Inr (0, bud))
          (\<lambda>(chain, budget).
             if pointer_target view e \<ge> off
             then Inl (range_error ''Found a forward reference during label decompression'')
             else if pointer_target view e < m
             then Inl (range_error ''Invalid label position during decompression'')
             else if d + 1 > s_maxPointersPerName
             then Inl (range_error ''Abort label decompression after too many redirects'')
             else bindR (packetParser view (pointer_target view e) True (d + 1) m chain budget (built (ks @ ls)))
                    (\<lambda>(_, budget2, storage2).
                      Inr (e + 2, budget2, if storage2 = [] then [0] else storage2)))"
        using off parse e True False ls(3) eoff ptr(2) pointer_not_zero [OF ptr(1)]
        by (subst packetParser.simps) (simp add: tgt [simplified] Let_def cong: if_cong)
      have "p = e + 2 \<and> (ls = [] \<longrightarrow> c \<le> s_maxPointersToPointers) \<and> pointer_target view e < off \<and>
          d + 1 \<le> s_maxPointersPerName \<and> st \<noteq> [] \<and>
        (\<exists>b q b'' st2. packetParser view (pointer_target view e) True (d + 1) m (if ls = [] then c + 1 else 0) b (built (ks @ ls)) =
         Inr (q, b'', st2) \<and> st = (if st2 = [] then [0] else st2))"
        using assms(1) unfolding eq
        by (cases "ls = []") (auto simp: bindR_Inr_iff split: if_splits)
      then show thesis using follow [OF ls(1) ptr(1) True off(2)] v by blast
    next
      case F: False
      then have "p = e + 1" "st = encode (ks @ ls)" "(ls = [] \<longrightarrow> c \<le> s_maxPointersToPointers)"
        using assms(1) off parse e st1 False eoff by (subst (asm) packetParser.simps, auto split: if_splits)+
      moreover have "e + 1 = length view" using F e by simp
      ultimately show thesis using cut ls(1) ptr(1) off v by blast
    qed
  qed
qed

lemma packetParser_sound:
  "packetParser view off u d m c bud (built ks) = Inr (p, bud', st) \<Longrightarrow>
   list_all valid_label ks \<Longrightarrow> length (built ks) \<le> 255 \<Longrightarrow> d \<le> s_maxPointersPerName \<Longrightarrow>
   \<exists>ls k. (wire view m c off ls k p \<or> wire_cut view m c off ls k p) \<and>
     st = encode (ks @ ls) \<and> valid_labels (ks @ ls) \<and> d + k \<le> s_maxPointersPerName"
proof (induction off arbitrary: u d c bud ks p bud' st rule: less_induct)
  case (less off)
  from less.prems(1-3) show ?case
  proof (cases rule: packetParser_step)
    case (finish ls e)
    then show ?thesis using less.prems(4) wire_end [of m off view ls e c] by fastforce
  next
    case (cut ls e)
    then show ?thesis using less.prems(4) cut_here [of m off view ls e c] by fastforce
  next
    case (follow ls e b q b'')
    let ?c = "if ls = [] then c + 1 else 0"
    from follow(11) obtain st2 where
      rec: "packetParser view (pointer_target view e) True (d + 1) m ?c b (built (ks @ ls)) = Inr (q, b'', st2)"
      and st: "st = (if st2 = [] then [0] else st2)" by blast
    have "list_all valid_label (ks @ ls)" "length (built (ks @ ls)) \<le> 255"
      using follow(9) by (auto simp: valid_labels_def built_def)
    from less.IH [OF follow(7) rec this follow(8)] obtain ks' k where
      k: "wire view m ?c (pointer_target view e) ks' k q \<or> wire_cut view m ?c (pointer_target view e) ks' k q"
        "st2 = encode ((ks @ ls) @ ks')" "valid_labels ((ks @ ls) @ ks')" "d + 1 + k \<le> s_maxPointersPerName"
      by blast
    have "wire view m c off (ls @ ks') (Suc k) p \<or> wire_cut view m c off (ls @ ks') (Suc k) p"
      using k(1) wire_pointer [OF follow(4,1,2,3,7,6)] cut_later [OF follow(4,1,2,3,7,6)] follow(5) by blast
    then show ?thesis using k st by (intro exI [of _ "ls @ ks'"] exI [of _ "Suc k"]) auto
  qed
qed

section \<open>Errors\<close>

text \<open>Every failure of the parser is a \<^verbatim>\<open>std::range_error\<close>: no access through \<^verbatim>\<open>view.at\<close> is out of range.\<close>

lemma checkLabelLength_error: "checkLabelLength b = Inl x \<Longrightarrow> \<exists>s. x = range_error s"
  by (auto simp: checkLabelLength_def split: if_splits)

lemma loop_error:
  "parsePacketUncompressed_loop view u ex nd pos t = Inl x \<Longrightarrow> pos < length view \<Longrightarrow> \<exists>s. x = range_error s"
proof (induction "length view - pos" arbitrary: pos t rule: less_induct)
  case less
  have IH: "parsePacketUncompressed_loop view u ex nd n t' = Inl x \<Longrightarrow> pos < n \<Longrightarrow> n < length view \<Longrightarrow>
    \<exists>s. x = range_error s" for n t'
    using less.hyps [of n t'] by simp
  from less.prems show ?case
    by (subst (asm) parsePacketUncompressed_loop.simps)
      (auto simp: bindR_Inl_iff dest: checkLabelLength_error IH split: if_splits)
qed

lemma uncompressed_error:
  "parsePacketUncompressed view pos u st = Inl x \<Longrightarrow> pos < length view \<Longrightarrow> \<exists>s. x = range_error s"
  by (auto simp: parsePacketUncompressed_def Let_def bindR_Inl_iff dest: loop_error split: if_splits)

lemma uncompressed_position:
  "parsePacketUncompressed view pos u st = Inr (e, st') \<Longrightarrow> e < length view"
  by (auto simp: parsePacketUncompressed_def Let_def bindR_Inr_iff dest!: loop_sound seg_bounds split: if_splits)

lemma packetParser_error: "packetParser view off u d m c bud st = Inl x \<Longrightarrow> \<exists>s. x = range_error s"
proof (induction off arbitrary: u d c bud st rule: less_induct)
  case (less off)
  show ?case
  proof (cases "off < length view \<and> m \<le> off")
    case True
    show ?thesis
    proof (cases "parsePacketUncompressed view off u st")
      case (Inl y)
      then show ?thesis using True less.prems uncompressed_error [OF Inl]
        by (subst (asm) packetParser.simps) auto
    next
      case (Inr r)
      obtain e st1 where r: "r = (e, st1)" by fastforce
      with Inr have e: "e < length view" using uncompressed_position by blast
      from less.prems True Inr r e show ?thesis
        by (subst (asm) packetParser.simps)
          (auto simp: bindR_Inl_iff Let_def at_def dest: less.IH [rotated] split: if_splits)
    qed
  next
    case False
    then show ?thesis using less.prems by (subst (asm) packetParser.simps) (auto split: if_splits)
  qed
qed

section \<open>The constructor from a packet\<close>

lemma from_packet_parser:
  assumes "DNSName_from_packet view off u wt wc m bud = Inr (n, consumed, bud', qtype, qclass)"
  obtains p st where "packetParser view off u 0 m 0 bud [] = Inr (p, bud', st)" "n = DNSName st"
    "consumed = p - off"
    "qtype = (if wt then Some (be16 (view ! p) (view ! (p + 1))) else None)" "wt \<Longrightarrow> p + 2 \<le> length view"
    "qclass = (if wc then Some (be16 (view ! (p + 2)) (view ! (p + 3))) else None)" "wc \<Longrightarrow> p + 4 \<le> length view"
  using assms
  by (auto simp: DNSName_from_packet_def bindR_Inr_iff at_Inr_iff split: if_splits)

lemma from_packet_complete:
  assumes "wire view m 0 off ls k p" "valid_labels ls" "k \<le> s_maxPointersPerName"
    "\<And>b. bud = Some b \<Longrightarrow> k \<le> b" "u \<or> k = 0"
  shows "\<exists>bud'. DNSName_from_packet view off u False False m bud = Inr (name_of ls, p - off, bud', None, None)"
proof -
  obtain bud' where "packetParser view off u 0 m 0 bud (built []) = Inr (p, bud', encode ([] @ ls))"
    using packetParser_complete [of view m 0 off ls k p "[]" 0 bud u] assms by auto
  then show ?thesis using wire_off_less [OF assms(1)] by (simp add: DNSName_from_packet_def built_def)
qed

text \<open>
  Claim C4 (soundness of the wire parser): whatever bytes the packet holds, a name the
  constructor returns satisfies the class invariant and has exactly the labels that \<open>wire\<close>
  reads at the offset (or \<open>wire_cut\<close>, when the packet ends inside a pointer), at most ten
  pointers were followed, all of them backwards and none before \<open>minOffset\<close>, and the number of
  bytes consumed stays within the packet.
\<close>

theorem DNSName_from_packet_sound:
  assumes "DNSName_from_packet view off u wt wc m bud = Inr (n, consumed, bud', qtype, qclass)"
  shows "\<exists>ls k. n = name_of ls \<and> valid_labels ls \<and> DNSName_inv n \<and> k \<le> s_maxPointersPerName \<and>
    0 < consumed \<and> off + consumed \<le> length view \<and>
    (wire view m 0 off ls k (off + consumed) \<or> wire_cut view m 0 off ls k (off + consumed))"
proof -
  obtain p st where r: "packetParser view off u 0 m 0 bud (built []) = Inr (p, bud', st)" "n = DNSName st"
    "consumed = p - off" using from_packet_parser [OF assms] by (metis built_length(2))
  from packetParser_sound [OF r(1)] obtain ls k where
    k: "wire view m 0 off ls k p \<or> wire_cut view m 0 off ls k p" "st = encode ls" "valid_labels ls"
      "k \<le> s_maxPointersPerName" by (auto simp: built_def)
  then have "off < p" "p \<le> length view" using wire_bounds wire_cut_bounds by blast+
  with r k show ?thesis by (auto simp: inv_name_of)
qed

theorem DNSName_from_packet_sound_witness:
  "\<exists>n ls k. DNSName_from_packet [1, 97, 0, 1, 98, 0xc0, 0, 0, 1, 0, 1] 3 True True True 0 None =
       Inr (n, 4, None, Some 1, Some 1) \<and>
     n = name_of ls \<and> valid_labels ls \<and> k \<le> s_maxPointersPerName"
proof -
  have "DNSName_from_packet [1, 97, 0, 1, 98, 0xc0, 0, 0, 1, 0, 1] 3 True True True 0 None =
      Inr (DNSName [1, 98, 1, 97, 0], 4, None, Some 1, Some 1)" by code_simp
  with DNSName_from_packet_sound [OF this] show ?thesis by blast
qed

text \<open>
  Claim C5 (completeness of the wire parser): every name that the packet encodes at an
  offset, directly or through at most ten pointers of which at most five follow each other
  without a label in between, and that respects the length limits of the protocol, is
  accepted and returned with the number of bytes it takes at that offset.
\<close>

theorem DNSName_from_packet_complete:
  assumes "wire view m 0 off ls k p" "valid_labels ls" "k \<le> s_maxPointersPerName"
    "\<And>b. bud = Some b \<Longrightarrow> k \<le> b" "u \<or> k = 0"
  shows "\<exists>bud'. DNSName_from_packet view off u False False m bud = Inr (name_of ls, p - off, bud', None, None)"
  using assms by (rule from_packet_complete)

theorem DNSName_from_packet_complete_witness:
  "wire [1, 97, 0, 1, 98, 0xc0, 0] 0 0 3 [[98], [97]] 1 7 \<and>
   (\<exists>bud'. DNSName_from_packet [1, 97, 0, 1, 98, 0xc0, 0] 3 True False False 0 (Some 1) =
     Inr (name_of [[98], [97]], 4, bud', None, None))"
proof -
  let ?v = "[1, 97, 0, 1, 98, 0xc0, 0] :: bytes"
  have "seg ?v 0 [[97]] 2" "seg ?v 3 [[98]] 5" by code_simp+
  moreover have "pointer_target ?v 5 = 0" by code_simp
  ultimately have w: "wire ?v 0 0 3 ([[98]] @ [[97]]) 1 (5 + 2)"
    using wire_pointer [of 0 3 ?v "[[98]]" 5 0 "[[97]]" 0 3] wire_end [of 0 0 ?v "[[97]]" 2 0] by simp
  have "valid_labels ([[98]] @ [[97]])" "1 \<le> s_maxPointersPerName" by code_simp+
  from DNSName_from_packet_complete [OF w this, of "Some 1" True] w show ?thesis by simp
qed

text \<open>
  Claim C6 (round trip): the wire form of a valid name, wherever it stands in a packet and
  whatever follows, is read back as that name, and exactly its bytes are consumed. Neither
  following pointers nor a pointer budget matters.
\<close>

theorem DNSName_wire_roundtrip:
  assumes "valid_labels ls"
  shows "DNSName_from_packet (pre @ d_storage (name_of ls) @ post) (length pre) u False False 0 bud =
    Inr (name_of ls, wirelength (name_of ls), bud, None, None)"
proof -
  have v: "list_all valid_label ls" using assms by (simp add: valid_labels_def)
  let ?n = "length (concat (map enc_label ls))" and ?view = "pre @ encode ls @ post"
  have view: "?view = pre @ concat (map enc_label ls) @ 0 # post" by (simp add: encode_def)
  have s: "seg ?view (length pre) ls (length pre + ?n)" unfolding view by (rule seg_encode [OF v])
  have z: "?view ! (length pre + ?n) = 0" unfolding view by (simp add: nth_append)
  have u: "parsePacketUncompressed ?view (length pre) u [] = Inr (length pre + ?n, built ls)"
    using uncompressed_complete [OF s, of u "[]"] z assms by (simp add: stops_at_def built_def)
  have "packetParser ?view (length pre) u 0 0 0 bud [] = Inr (length pre + ?n + 1, bud, encode ls)"
    using u z by (subst packetParser.simps) (auto simp: encode_def built_def)
  then show ?thesis using concat_enc_length [of ls]
    by (simp add: DNSName_from_packet_def wirelength_def encode_def)
qed

theorem DNSName_wire_roundtrip_witness:
  "DNSName_from_packet ([9] @ d_storage (name_of [[97], [98, 0]]) @ [7]) 1 False False False 0 None =
     Inr (name_of [[97], [98, 0]], wirelength (name_of [[97], [98, 0]]), None, None, None)"
proof -
  have "valid_labels [[97], [98, 0]]" by code_simp
  from DNSName_wire_roundtrip [OF this, of "[9]" "[7]" False None] show ?thesis by simp
qed

text \<open>
  Claim C22 (errors): whatever the packet, offset and limits, the constructor fails only with a
  \<^verbatim>\<open>std::range_error\<close>. In particular the accesses through \<^verbatim>\<open>view.at\<close> are never out of range.
\<close>

theorem DNSName_from_packet_errors:
  assumes "DNSName_from_packet view off u wt wc m bud = Inl x"
  shows "\<exists>s. x = range_error s"
proof (cases "off < length view")
  case True
  show ?thesis
  proof (cases "packetParser view off u 0 m 0 bud []")
    case (Inl y)
    then show ?thesis using packetParser_error [OF Inl] True assms by (simp add: DNSName_from_packet_def)
  next
    case (Inr r)
    then show ?thesis using True assms
      by (cases r) (auto simp: DNSName_from_packet_def bindR_Inl_iff at_def split: if_splits)
  qed
qed (use assms in \<open>auto simp: DNSName_from_packet_def\<close>)

theorem DNSName_from_packet_errors_witness:
  "\<exists>x s. DNSName_from_packet [0xc0, 0] 0 True False False 0 None = Inl x \<and> x = range_error s"
proof -
  have "DNSName_from_packet [0xc0, 0] 0 True False False 0 None =
    Inl (range_error ''Found a forward reference during label decompression'')" by code_simp
  with DNSName_from_packet_errors [OF this] show ?thesis by blast
qed

text \<open>
  Claim C34 (a pointer cut by the end of the packet): when the last byte of the packet is the
  first byte of a compression pointer, the labels before it are returned as if the name had
  ended there, and no error is raised.
\<close>

theorem DNSName_truncated_pointer_accepted:
  assumes "valid_labels ls" "0xc0 \<le> b"
  shows "\<exists>bud'. DNSName_from_packet (pre @ concat (map enc_label ls) @ [b]) (length pre) True False False 0 None =
    Inr (name_of ls, length (concat (map enc_label ls)) + 1, bud', None, None)"
proof -
  have v: "list_all valid_label ls" using assms(1) by (simp add: valid_labels_def)
  let ?n = "length (concat (map enc_label ls))" and ?view = "pre @ concat (map enc_label ls) @ [b]"
  have s: "seg ?view (length pre) ls (length pre + ?n)" by (rule seg_encode [OF v])
  have z: "?view ! (length pre + ?n) = b" "length ?view = length pre + ?n + 1" by (simp_all add: nth_append)
  have u: "parsePacketUncompressed ?view (length pre) True [] = Inr (length pre + ?n, built ls)"
    using uncompressed_complete [OF s, of True "[]"] z assms by (simp add: stops_at_def built_def)
  have "\<exists>bud'. packetParser ?view (length pre) True 0 0 0 None [] = Inr (length pre + ?n + 1, bud', encode ls)"
    using u z by (subst packetParser.simps) (auto simp: encode_def built_def)
  then show ?thesis using z(2) by (auto simp: DNSName_from_packet_def)
qed

theorem DNSName_truncated_pointer_accepted_witness:
  "\<exists>bud'. DNSName_from_packet ([] @ concat (map enc_label [[97]]) @ [0xc0]) 0 True False False 0 None =
     Inr (name_of [[97]], 3, bud', None, None)"
proof -
  have "valid_labels [[97]]" "(0xc0 :: u8) \<le> 0xc0" by code_simp+
  from DNSName_truncated_pointer_accepted [OF this, of "[]"] show ?thesis
    by (simp add: enc_label_def numeral_3_eq_3)
qed

end
