(* ===== verification/DnsHeader.thy ===== *)
theory DnsHeader
  imports Prelude
begin

text \<open>
  The 12-byte header of a DNS message, \<^verbatim>\<open>struct dnsheader\<close> of \<^verbatim>\<open>pdns/dns.hh\<close>. The bit fields are
  laid out so that the bytes on the wire are the same on every host; the counts are read in
  network byte order, as every use of them does with \<^verbatim>\<open>ntohs\<close>.
\<close>

unbundle bit_operations_syntax

record dnsheader =
  h_id :: nat
  h_qr :: bool
  h_opcode :: nat
  h_aa :: bool
  h_tc :: bool
  h_rd :: bool
  h_ra :: bool
  h_unused :: bool
  h_ad :: bool
  h_cd :: bool
  h_rcode :: nat
  h_qdcount :: nat
  h_ancount :: nat
  h_nscount :: nat
  h_arcount :: nat

definition sizeof_dnsheader :: nat where
  "sizeof_dnsheader = 12"

definition dnsheader_of :: "bytes \<Rightarrow> dnsheader" where
  "dnsheader_of p =
     \<lparr>h_id = be16 (p ! 0) (p ! 1),
      h_qr = bit (p ! 2) 7, h_opcode = unat (drop_bit 3 (p ! 2) AND 15), h_aa = bit (p ! 2) 2, h_tc = bit (p ! 2) 1,
      h_rd = bit (p ! 2) 0,
      h_ra = bit (p ! 3) 7, h_unused = bit (p ! 3) 6, h_ad = bit (p ! 3) 5, h_cd = bit (p ! 3) 4,
      h_rcode = unat (p ! 3 AND 15),
      h_qdcount = be16 (p ! 4) (p ! 5), h_ancount = be16 (p ! 6) (p ! 7),
      h_nscount = be16 (p ! 8) (p ! 9), h_arcount = be16 (p ! 10) (p ! 11)\<rparr>"

definition flag_bits1 :: "bool \<Rightarrow> nat \<Rightarrow> bool \<Rightarrow> bool \<Rightarrow> bool \<Rightarrow> u8" where
  "flag_bits1 qr opcode aa tc rd =
     (if qr then 128 else 0) + of_nat (opcode mod 16 * 8) + (if aa then 4 else 0) + (if tc then 2 else 0) + (if rd then 1 else 0)"

definition flag_bits2 :: "bool \<Rightarrow> bool \<Rightarrow> bool \<Rightarrow> bool \<Rightarrow> nat \<Rightarrow> u8" where
  "flag_bits2 ra unused ad cd rcode =
     (if ra then 128 else 0) + (if unused then 64 else 0) + (if ad then 32 else 0) + (if cd then 16 else 0) + of_nat (rcode mod 16)"

definition dnsheader_bytes :: "dnsheader \<Rightarrow> bytes" where
  "dnsheader_bytes h =
     to_be16 (h_id h) @
     [flag_bits1 (h_qr h) (h_opcode h) (h_aa h) (h_tc h) (h_rd h),
      flag_bits2 (h_ra h) (h_unused h) (h_ad h) (h_cd h) (h_rcode h)] @
     to_be16 (h_qdcount h) @ to_be16 (h_ancount h) @ to_be16 (h_nscount h) @ to_be16 (h_arcount h)"

lemma length_dnsheader_bytes [simp]: "length (dnsheader_bytes h) = 12"
  by (simp add: dnsheader_bytes_def)

lemma flag_bits1_bits: "flag_bits1 (bit b 7) (unat (drop_bit 3 b AND 15)) (bit b 2) (bit b 1) (bit b 0) = b"
proof -
  have "\<forall>n \<in> set [0..<256]. (let b = of_nat n :: u8 in
      flag_bits1 (bit b 7) (unat (drop_bit 3 b AND 15)) (bit b 2) (bit b 1) (bit b 0) = b)" by code_simp
  from u8_exhaust [OF this] show ?thesis by (simp only: Let_def)
qed

lemma flag_bits2_bits: "flag_bits2 (bit b 7) (bit b 6) (bit b 5) (bit b 4) (unat (b AND 15)) = b"
proof -
  have "\<forall>n \<in> set [0..<256]. (let b = of_nat n :: u8 in
      flag_bits2 (bit b 7) (bit b 6) (bit b 5) (bit b 4) (unat (b AND 15)) = b)" by code_simp
  from u8_exhaust [OF this] show ?thesis by (simp only: Let_def)
qed

lemma take_12:
  "12 \<le> length p \<Longrightarrow> take 12 p = [p ! 0, p ! 1, p ! 2, p ! 3, p ! 4, p ! 5, p ! 6, p ! 7, p ! 8, p ! 9, p ! 10, p ! 11]"
  by (rule nth_equalityI) (auto simp: numeral_eq_Suc less_Suc_eq)

lemma dnsheader_roundtrip: "12 \<le> length p \<Longrightarrow> dnsheader_bytes (dnsheader_of p) = take 12 p"
  by (simp only: take_12) (simp add: dnsheader_bytes_def dnsheader_of_def to_be16_be16 flag_bits1_bits [simplified] flag_bits2_bits [simplified])

definition dnsheader_ok :: "dnsheader \<Rightarrow> bool" where
  "dnsheader_ok h \<longleftrightarrow> h_id h < 65536 \<and> h_opcode h < 16 \<and> h_rcode h < 16 \<and> h_qdcount h < 65536 \<and> h_ancount h < 65536 \<and>
     h_nscount h < 65536 \<and> h_arcount h < 65536"

lemma unat_low_nibble: "unat (x AND 15 :: u8) < 16"
proof -
  have "x AND 15 \<le> 15" by (rule word_and_le1)
  then have "unat (x AND 15) \<le> unat (15 :: u8)" by (simp only: word_le_nat_alt)
  then show ?thesis by simp
qed

lemma flag_bits1_read:
  assumes "opcode < 16"
  shows "bit (flag_bits1 qr opcode aa tc rd) 7 = qr \<and> unat (drop_bit 3 (flag_bits1 qr opcode aa tc rd) AND 15) = opcode \<and>
    bit (flag_bits1 qr opcode aa tc rd) 2 = aa \<and> bit (flag_bits1 qr opcode aa tc rd) 1 = tc \<and> bit (flag_bits1 qr opcode aa tc rd) 0 = rd"
proof -
  have "\<forall>opcode \<in> set [0..<16]. \<forall>qr \<in> set [False, True]. \<forall>aa \<in> set [False, True]. \<forall>tc \<in> set [False, True]. \<forall>rd \<in> set [False, True].
    (let b = flag_bits1 qr opcode aa tc rd in
     bit b 7 = qr \<and> unat (drop_bit 3 b AND 15) = opcode \<and> bit b 2 = aa \<and> bit b 1 = tc \<and> bit b 0 = rd)" by code_simp
  moreover have "b \<in> set [False, True]" for b by auto
  ultimately show ?thesis using assms unfolding Let_def by (metis atLeastLessThan_iff set_upt zero_le)
qed

lemma flag_bits2_read:
  assumes "rcode < 16"
  shows "bit (flag_bits2 ra un ad cd rcode) 7 = ra \<and> bit (flag_bits2 ra un ad cd rcode) 6 = un \<and>
    bit (flag_bits2 ra un ad cd rcode) 5 = ad \<and> bit (flag_bits2 ra un ad cd rcode) 4 = cd \<and> unat (flag_bits2 ra un ad cd rcode AND 15) = rcode"
proof -
  have "\<forall>rcode \<in> set [0..<16]. \<forall>ra \<in> set [False, True]. \<forall>un \<in> set [False, True]. \<forall>ad \<in> set [False, True]. \<forall>cd \<in> set [False, True].
    (let b = flag_bits2 ra un ad cd rcode in
     bit b 7 = ra \<and> bit b 6 = un \<and> bit b 5 = ad \<and> bit b 4 = cd \<and> unat (b AND 15) = rcode)" by code_simp
  moreover have "b \<in> set [False, True]" for b by auto
  ultimately show ?thesis using assms unfolding Let_def by (metis atLeastLessThan_iff set_upt zero_le)
qed

lemma be16_digits: "n < 65536 \<Longrightarrow> be16 (of_nat (n div 256)) (of_nat n) = n"
  by (rule be16_to_be16) (simp_all add: to_be16_def)

lemma dnsheader_of_ok: "dnsheader_ok (dnsheader_of p)"
  by (simp add: dnsheader_ok_def dnsheader_of_def be16_less unat_low_nibble)

lemma dnsheader_of_bytes: "dnsheader_ok h \<Longrightarrow> dnsheader_of (dnsheader_bytes h @ x) = h"
  using flag_bits1_read [of "h_opcode h" "h_qr h" "h_aa h" "h_tc h" "h_rd h"] flag_bits2_read [of "h_rcode h" "h_ra h" "h_unused h" "h_ad h" "h_cd h"]
  by (cases h) (simp add: dnsheader_of_def dnsheader_bytes_def dnsheader_ok_def to_be16_def be16_digits)

lemma dnsheader_of_take: "12 \<le> length p \<Longrightarrow> 12 \<le> length q \<Longrightarrow> take 12 p = take 12 q \<Longrightarrow> dnsheader_of p = dnsheader_of q"
  by (simp only: take_12) (simp add: dnsheader_of_def)

end
