(* ===== verification/Mangler.thy ===== *)
theory Mangler
  imports NameWire DnsHeader
begin

text \<open>
  The class \<^verbatim>\<open>DNSPacketMangler\<close> of \<^verbatim>\<open>pdns/dnsparser.hh\<close> and the functions of \<^verbatim>\<open>pdns/dnsparser.cc\<close> that
  walk over a packet with it: editing and ageing TTLs, shuffling addresses, the minimum TTL,
  the length of a message, counting records, the EDNS parameters. A packet is shorter than
  4 GiB less 64 KiB, so the 32-bit offset of the class does not wrap. The state keeps what was
  written before an exception; \<^verbatim>\<open>catch(...)\<close> drops the exception and keeps the state.
\<close>

section \<open>The class\<close>

record DNSPacketMangler =
  d_packet :: bytes
  d_notyouroffset :: nat

definition mangler_init :: "bytes \<Rightarrow> DNSPacketMangler" where
  "mangler_init packet = \<lparr>d_packet = packet, d_notyouroffset = 12\<rparr>"

definition moveOffset :: "nat \<Rightarrow> ('z DNSPacketMangler_scheme, unit) call" where
  "moveOffset by =
     bindC (putC (\<lambda>s. s\<lparr>d_notyouroffset := d_notyouroffset s + by\<rparr>)) (\<lambda>_ s.
       if d_notyouroffset s > length (d_packet s) then (Inl (out_of_range ''dns packet out of range''), s)
       else (Inr (), s))"

definition rewindOffset :: "nat \<Rightarrow> ('z DNSPacketMangler_scheme, unit) call" where
  "rewindOffset by = (\<lambda>s.
     if d_notyouroffset s < by then (Inl (out_of_range ''Rewinding dns packet out of range''), s)
     else
       let s' = s\<lparr>d_notyouroffset := d_notyouroffset s - by\<rparr> in
       if d_notyouroffset s' < 12 then (Inl (out_of_range ''Rewinding dns packet out of range''), s')
       else (Inr (), s'))"

definition dpm_skipBytes :: "nat \<Rightarrow> ('z DNSPacketMangler_scheme, unit) call" where
  "dpm_skipBytes n = moveOffset n"

definition dpm_rewindBytes :: "nat \<Rightarrow> ('z DNSPacketMangler_scheme, unit) call" where
  "dpm_rewindBytes by = rewindOffset by"

text \<open>Integers in network byte order at a position.\<close>

definition rd16 :: "bytes \<Rightarrow> nat \<Rightarrow> nat" where
  "rd16 p i = be16 (p ! i) (p ! (i + 1))"

definition rd32 :: "bytes \<Rightarrow> nat \<Rightarrow> nat" where
  "rd32 p i = be32 (p ! i) (p ! (i + 1)) (p ! (i + 2)) (p ! (i + 3))"

text \<open>\<^verbatim>\<open>memcpy\<close> into the packet.\<close>

definition overwrite :: "bytes \<Rightarrow> nat \<Rightarrow> bytes \<Rightarrow> bytes" where
  "overwrite p i bs = take i p @ bs @ drop (i + length bs) p"

definition dpm_get8BitInt :: "('z DNSPacketMangler_scheme, u8) call" where
  "dpm_get8BitInt =
     bindC (getC d_notyouroffset) (\<lambda>p. bindC (moveOffset 1) (\<lambda>_. getC (\<lambda>s. d_packet s ! p)))"

definition dpm_get16BitInt :: "('z DNSPacketMangler_scheme, nat) call" where
  "dpm_get16BitInt =
     bindC (getC d_notyouroffset) (\<lambda>p. bindC (moveOffset 2) (\<lambda>_. getC (\<lambda>s. rd16 (d_packet s) p)))"

definition dpm_get32BitInt :: "('z DNSPacketMangler_scheme, nat) call" where
  "dpm_get32BitInt =
     bindC (getC d_notyouroffset) (\<lambda>p. bindC (moveOffset 4) (\<lambda>_. getC (\<lambda>s. rd32 (d_packet s) p)))"

lemma moveOffset_eq:
  "moveOffset n s =
     (if d_notyouroffset s + n > length (d_packet s)
      then (Inl (out_of_range ''dns packet out of range''), s\<lparr>d_notyouroffset := d_notyouroffset s + n\<rparr>)
      else (Inr (), s\<lparr>d_notyouroffset := d_notyouroffset s + n\<rparr>))"
  by (simp add: moveOffset_def call_simps)

lemma dpm_get8BitInt_eq:
  "dpm_get8BitInt s =
     (if d_notyouroffset s + 1 > length (d_packet s)
      then (Inl (out_of_range ''dns packet out of range''), s\<lparr>d_notyouroffset := d_notyouroffset s + 1\<rparr>)
      else (Inr (d_packet s ! d_notyouroffset s), s\<lparr>d_notyouroffset := d_notyouroffset s + 1\<rparr>))"
  by (simp add: dpm_get8BitInt_def call_simps moveOffset_eq)

text \<open>\<^verbatim>\<open>skipDomainName\<close>: compression pointers end the name and are not followed.\<close>

function skipDomainName_loop :: "bool \<Rightarrow> ('z DNSPacketMangler_scheme, bool) call" where
  "skipDomainName_loop isRoot s =
     bindC dpm_get8BitInt (\<lambda>len s1.
       if len = 0 then returnC isRoot s1
       else if len \<ge> 0xc0 then bindC dpm_get8BitInt (\<lambda>_. returnC False) s1
       else bindC (dpm_skipBytes (unat len)) (\<lambda>_ s2. skipDomainName_loop False s2) s1) s"
  by pat_completeness auto
termination
  by (relation "measure (\<lambda>(r, s). length (d_packet s) - d_notyouroffset s)")
    (auto simp: dpm_get8BitInt_eq dpm_skipBytes_def moveOffset_eq split: if_splits)

declare skipDomainName_loop.simps [simp del]

definition skipDomainName :: "('z DNSPacketMangler_scheme, bool) call" where
  "skipDomainName = skipDomainName_loop True"

definition dpm_skipRData :: "('z DNSPacketMangler_scheme, unit) call" where
  "dpm_skipRData = bindC dpm_get16BitInt moveOffset"

definition skipRDataAndReturnOffsets :: "('z DNSPacketMangler_scheme, nat \<times> nat) call" where
  "skipRDataAndReturnOffsets =
     bindC dpm_get16BitInt (\<lambda>toskip. bindC (getC d_notyouroffset) (\<lambda>start.
       bindC (moveOffset toskip) (\<lambda>_. getC (\<lambda>s. (start, d_notyouroffset s)))))"

definition decreaseAndSkip32BitInt :: "nat \<Rightarrow> ('z DNSPacketMangler_scheme, unit) call" where
  "decreaseAndSkip32BitInt decrease =
     bindC dpm_get32BitInt (\<lambda>tmp.
       let tmp' = (if tmp > decrease then tmp - decrease else 0)
       in putC (\<lambda>s. s\<lparr>d_packet := overwrite (d_packet s) (d_notyouroffset s - 4) (to_be32 tmp')\<rparr>))"

definition setAndSkip32BitInt :: "nat \<Rightarrow> ('z DNSPacketMangler_scheme, unit) call" where
  "setAndSkip32BitInt value =
     bindC (moveOffset 4) (\<lambda>_.
       putC (\<lambda>s. s\<lparr>d_packet := overwrite (d_packet s) (d_notyouroffset s - 4) (to_be32 value)\<rparr>))"

text \<open>The segments are half-open ranges of positions; \<^verbatim>\<open>std::swap_ranges\<close> on two disjoint ones of one length.\<close>

definition swap_ranges :: "bytes \<Rightarrow> nat \<times> nat \<Rightarrow> nat \<times> nat \<Rightarrow> bytes" where
  "swap_ranges p a b =
     (let x = take (snd a - fst a) (drop (fst a) p); y = take (snd b - fst b) (drop (fst b) p)
      in overwrite (overwrite p (fst a) y) (fst b) x)"

definition swapInPlace :: "nat \<times> nat \<Rightarrow> nat \<times> nat \<Rightarrow> ('z DNSPacketMangler_scheme, unit) call" where
  "swapInPlace a0 b0 = (\<lambda>s.
     let (a, b) = (if fst b0 < fst a0 then (b0, a0) else (a0, b0)) in
     if int (snd a) - int (fst a) \<noteq> int (snd b) - int (fst b)
     then (Inl (out_of_range ''swap: segments have different lengths''), s)
     else if snd a \<le> fst a then (Inl (out_of_range ''swap: ending of segment before start of segment''), s)
     else if snd a > fst b then (Inl (out_of_range ''swap: overlapping segments''), s)
     else if snd b > length (d_packet s) then (Inl (out_of_range ''swap: ending of segment after end of array''), s)
     else if snd b > d_notyouroffset s then (Inl (out_of_range ''swap: ending of segment after current offset''), s)
     else (Inr (), s\<lparr>d_packet := swap_ranges (d_packet s) a b\<rparr>))"

section \<open>The functions on packets\<close>

text \<open>
  The local variables that a function still uses after its \<^verbatim>\<open>try\<close> block are part of the state.
\<close>

record 'r mangler_locals = DNSPacketMangler +
  d_result :: 'r

definition locals_init :: "bytes \<Rightarrow> 'r \<Rightarrow> 'r mangler_locals" where
  "locals_init packet r = \<lparr>d_packet = packet, d_notyouroffset = 12, d_result = r\<rparr>"

definition set_result :: "('r \<Rightarrow> 'r) \<Rightarrow> ('r mangler_locals, unit) call" where
  "set_result f = putC (\<lambda>s. s\<lparr>d_result := f (d_result s)\<rparr>)"

definition QType_A :: nat where "QType_A = 1"
definition QType_SOA :: nat where "QType_SOA = 6"
definition QType_AAAA :: nat where "QType_AAAA = 28"
definition QType_OPT :: nat where "QType_OPT = 41"
definition QClass_IN :: nat where "QClass_IN = 1"

lemmas qtype_defs = QType_A_def QType_SOA_def QType_AAAA_def QType_OPT_def QClass_IN_def

text \<open>The questions: a name, a type and a class each.\<close>

definition skip_questions :: "nat \<Rightarrow> ('z DNSPacketMangler_scheme, unit) call" where
  "skip_questions qdcount =
     forC [0..<qdcount] (\<lambda>n. bindC skipDomainName (\<lambda>_. bindC (dpm_skipBytes 4) (\<lambda>_. returnC False)))"

definition section_of :: "dnsheader \<Rightarrow> nat \<Rightarrow> nat" where
  "section_of dh n =
     (if n < h_ancount dh then 1 else if n < h_ancount dh + h_nscount dh then 2 else 3)"

definition numrecords :: "dnsheader \<Rightarrow> nat" where
  "numrecords dh = h_ancount dh + h_nscount dh + h_arcount dh"

definition edit_record :: "dnsheader \<Rightarrow> (nat \<Rightarrow> nat \<Rightarrow> nat \<Rightarrow> nat \<Rightarrow> nat) \<Rightarrow> nat \<Rightarrow> (DNSPacketMangler, bool) call" where
  "edit_record dh visitor n =
     bindC skipDomainName (\<lambda>_. bindC dpm_get16BitInt (\<lambda>dnstype. bindC dpm_get16BitInt (\<lambda>dnsclass.
       if dnstype = QType_OPT then returnC True
       else bindC dpm_get32BitInt (\<lambda>dnsttl.
         let newttl = visitor (section_of dh n) dnsclass dnstype dnsttl in
         bindC (if newttl \<noteq> 0 then bindC (dpm_rewindBytes 4) (\<lambda>_. setAndSkip32BitInt newttl) else returnC ()) (\<lambda>_.
           bindC dpm_skipRData (\<lambda>_. returnC False))))))"

definition editDNSPacketTTL :: "bytes \<Rightarrow> (nat \<Rightarrow> nat \<Rightarrow> nat \<Rightarrow> nat \<Rightarrow> nat) \<Rightarrow> bytes" where
  "editDNSPacketTTL packet visitor =
     (if length packet < sizeof_dnsheader then packet
      else
        let dh = dnsheader_of packet in
        d_packet (snd (bindC (skip_questions (h_qdcount dh)) (\<lambda>_.
          forC [0..<numrecords dh] (edit_record dh visitor)) (mangler_init packet))))"

definition checkIfPacketContainsRecords :: "bytes \<Rightarrow> nat set \<Rightarrow> bool" where
  "checkIfPacketContainsRecords packet qtypes =
     (if length packet < sizeof_dnsheader then False
      else
        let dh = dnsheader_of packet in
        d_result (snd (bindC (skip_questions (h_qdcount dh)) (\<lambda>_.
          forC [0..<numrecords dh] (\<lambda>n.
            bindC skipDomainName (\<lambda>_. bindC dpm_get16BitInt (\<lambda>dnstype. bindC dpm_get16BitInt (\<lambda>dnsclass.
              if dnsclass = QClass_IN \<and> dnstype \<in> qtypes then bindC (set_result (\<lambda>_. True)) (\<lambda>_. returnC True)
              else bindC (dpm_skipBytes 4) (\<lambda>_. bindC dpm_skipRData (\<lambda>_. returnC False))))))) (locals_init packet False))))"

definition age_record :: "nat \<Rightarrow> nat \<Rightarrow> (DNSPacketMangler, bool) call" where
  "age_record seconds rec =
     bindC skipDomainName (\<lambda>_. bindC dpm_get16BitInt (\<lambda>dnstype. bindC (dpm_skipBytes 2) (\<lambda>_.
       bindC (if dnstype \<noteq> QType_OPT then decreaseAndSkip32BitInt seconds else dpm_skipBytes 4) (\<lambda>_.
         bindC dpm_skipRData (\<lambda>_. returnC False)))))"

definition ageDNSPacket :: "bytes \<Rightarrow> nat \<Rightarrow> dnsheader \<Rightarrow> bytes" where
  "ageDNSPacket packet seconds dh =
     (if length packet < sizeof_dnsheader then packet
      else
        d_packet (snd (bindC (skip_questions (h_qdcount dh)) (\<lambda>_.
          forC [0..<numrecords dh] (age_record seconds)) (mangler_init packet))))"

text \<open>
  \<^verbatim>\<open>shuffleDNSPacket\<close>: \<open>pick n\<close> is the number from 0 to \<open>n\<close> that the random engine draws. The locals are
  the type and the name of the first address RRset and the ranges of its record data.
\<close>

definition shuffle_scan_body :: "nat \<Rightarrow> ((nat \<times> DNSName \<times> (nat \<times> nat) list) mangler_locals, bool) call" where
  "shuffle_scan_body iter =
     bindC (getC d_notyouroffset) (\<lambda>domain_start. bindC skipDomainName (\<lambda>_. bindC dpm_get16BitInt (\<lambda>dnstype.
       bindC (getC d_result) (\<lambda>(rrset_type, rrset_dnsname, indexes).
         let push = bindC (dpm_skipBytes 2) (\<lambda>_. bindC (dpm_skipBytes 4) (\<lambda>_.
               bindC skipRDataAndReturnOffsets (\<lambda>r. bindC (set_result (\<lambda>(t, n, ix). (t, n, ix @ [r]))) (\<lambda>_. returnC False))));
             parse = bindC (getC d_packet) (\<lambda>packet. bindC (liftC (DNSName_from_packet packet domain_start True False False 0 None))
               (\<lambda>(n, _). returnC n))
         in if dnstype = QType_A \<or> dnstype = QType_AAAA then
              (if indexes = [] then
                 bindC parse (\<lambda>n. bindC (set_result (\<lambda>(_, _, ix). (dnstype, n, ix))) (\<lambda>_. push))
               else if dnstype \<noteq> rrset_type then returnC True
               else bindC parse (\<lambda>n. if \<not> DNSName_eq n rrset_dnsname then returnC True else push))
            else if indexes \<noteq> [] then returnC True
            else bindC (dpm_skipBytes 2) (\<lambda>_. bindC (dpm_skipBytes 4) (\<lambda>_. bindC dpm_skipRData (\<lambda>_. returnC False)))))))"

definition shuffleDNSPacket :: "bytes \<Rightarrow> dnsheader \<Rightarrow> (nat \<Rightarrow> nat) \<Rightarrow> bytes" where
  "shuffleDNSPacket packet dh pick =
     (if length packet < sizeof_dnsheader then packet
      else if h_ancount dh = 1 then packet
      else
        d_packet (snd (bindC (skip_questions (h_qdcount dh)) (\<lambda>_.
          bindC (forC [0..<h_ancount dh] shuffle_scan_body) (\<lambda>_.
            bindC (getC d_result) (\<lambda>(_, _, indexes).
              if length indexes \<ge> 2 then
                forC (rev [1..<length indexes]) (\<lambda>swapped.
                  let swapped_with = pick swapped in
                  if swapped \<noteq> swapped_with then
                    bindC (liftC (at indexes swapped)) (\<lambda>a. bindC (liftC (at indexes swapped_with)) (\<lambda>b.
                      bindC (swapInPlace a b) (\<lambda>_. returnC False)))
                  else returnC False)
              else returnC ())))
          (locals_init packet (0, DNSName [], [])))))"

text \<open>\<^verbatim>\<open>getDNSPacketMinTTL\<close>: the result and, when the caller passed a pointer, whether a SOA record was seen in the authority section.\<close>

definition minTTL_record :: "dnsheader \<Rightarrow> bool \<Rightarrow> nat \<Rightarrow> ((nat \<times> bool) mangler_locals, bool) call" where
  "minTTL_record dh wantSOA n =
     bindC skipDomainName (\<lambda>_. bindC dpm_get16BitInt (\<lambda>dnstype. bindC dpm_get16BitInt (\<lambda>dnsclass.
       if dnstype = QType_OPT then returnC True
       else bindC
         (if dnstype = QType_SOA \<and> dnsclass = QClass_IN \<and> wantSOA \<and> n \<ge> h_ancount dh \<and> n < h_ancount dh + h_nscount dh
          then set_result (\<lambda>(r, _). (r, True)) else returnC ()) (\<lambda>_.
         bindC dpm_get32BitInt (\<lambda>ttl.
           bindC (set_result (\<lambda>(r, soa). (min r ttl, soa))) (\<lambda>_.
             bindC dpm_skipRData (\<lambda>_. returnC False)))))))"

definition getDNSPacketMinTTL :: "bytes \<Rightarrow> bool \<Rightarrow> bool \<Rightarrow> nat \<times> bool" where
  "getDNSPacketMinTTL packet wantSOA seenAuthSOA =
     (if length packet < sizeof_dnsheader then (4294967295, seenAuthSOA)
      else
        let dh = dnsheader_of packet in
        d_result (snd (bindC (skip_questions (h_qdcount dh)) (\<lambda>_.
          forC [0..<numrecords dh] (minTTL_record dh wantSOA)) (locals_init packet (4294967295, seenAuthSOA)))))"

definition getDNSPacketLength :: "bytes \<Rightarrow> nat" where
  "getDNSPacketLength packet =
     (if length packet < sizeof_dnsheader then length packet
      else
        let dh = dnsheader_of packet in
        d_result (snd (bindC (skip_questions (h_qdcount dh)) (\<lambda>_.
          bindC (forC [0..<numrecords dh] (\<lambda>n.
            bindC skipDomainName (\<lambda>_. bindC (dpm_skipBytes 8) (\<lambda>_. bindC dpm_skipRData (\<lambda>_. returnC False))))) (\<lambda>_.
            bindC (getC d_notyouroffset) (\<lambda>off. set_result (\<lambda>_. off))))
          (locals_init packet (length packet)))))"

text \<open>One of the four loops of \<^verbatim>\<open>getRecordsOfTypeCount\<close>; \<open>rr\<close> says whether a TTL and data follow. The count is a \<^verbatim>\<open>uint16_t\<close>.\<close>

definition count_loop :: "bool \<Rightarrow> bool \<Rightarrow> nat \<Rightarrow> nat \<Rightarrow> (nat mangler_locals, unit) call" where
  "count_loop wanted rr qtype cnt =
     forC [0..<cnt] (\<lambda>n.
       bindC skipDomainName (\<lambda>_.
         bindC (if wanted then
                  bindC dpm_get16BitInt (\<lambda>dnstype.
                    bindC (if dnstype = qtype then set_result (\<lambda>r. (r + 1) mod 65536) else returnC ()) (\<lambda>_. dpm_skipBytes 2))
                else dpm_skipBytes 4) (\<lambda>_.
           if rr then bindC (dpm_skipBytes 4) (\<lambda>_. bindC dpm_skipRData (\<lambda>_. returnC False)) else returnC False)))"

definition getRecordsOfTypeCount :: "bytes \<Rightarrow> nat \<Rightarrow> nat \<Rightarrow> nat" where
  "getRecordsOfTypeCount packet sect qtype =
     (if length packet < sizeof_dnsheader then 0
      else
        let dh = dnsheader_of packet in
        d_result (snd (bindC (count_loop (sect = 0) False qtype (h_qdcount dh)) (\<lambda>_.
          bindC (count_loop (sect = 1) True qtype (h_ancount dh)) (\<lambda>_.
            bindC (count_loop (sect = 2) True qtype (h_nscount dh)) (\<lambda>_.
              count_loop (sect = 3) True qtype (h_arcount dh)))) (locals_init packet 0))))"

text \<open>\<^verbatim>\<open>getEDNSUDPPayloadSizeAndZ\<close>: the return value and the two out-parameters, whose values before the call are arguments.\<close>

definition getEDNSUDPPayloadSizeAndZ :: "bytes \<Rightarrow> nat \<Rightarrow> nat \<Rightarrow> bool \<times> nat \<times> nat" where
  "getEDNSUDPPayloadSizeAndZ packet payloadSize z =
     (if length packet < sizeof_dnsheader then (False, payloadSize, z)
      else
        let dh = dnsheader_of packet in
        if h_arcount dh = 0 then (False, 0, 0)
        else
          d_result (snd (bindC (skip_questions (h_qdcount dh)) (\<lambda>_.
            forC [0..<numrecords dh] (\<lambda>index.
              bindC skipDomainName (\<lambda>wasRoot. bindC dpm_get16BitInt (\<lambda>dnstype.
                if section_of dh index = 3 \<and> dnstype = QType_OPT \<and> wasRoot then
                  bindC dpm_get16BitInt (\<lambda>dnsclass. bindC (dpm_skipBytes 2) (\<lambda>_. bindC dpm_get16BitInt (\<lambda>zval.
                    bindC (set_result (\<lambda>_. (True, dnsclass, zval))) (\<lambda>_. returnC True))))
                else bindC (dpm_skipBytes 2) (\<lambda>_. bindC (dpm_skipBytes 4) (\<lambda>_.
                  bindC dpm_skipRData (\<lambda>_. returnC False)))))))
            (locals_init packet (False, 0, 0)))))"

section \<open>The walk over a packet\<close>

text \<open>
  What the functions above have in common, without state: the end of a name, the end of the
  questions, and the positions of the type fields of the records whose TTL lies inside the
  packet. \<open>Inl\<close> is the offset at which a name runs out of the packet.
\<close>

function skip_name :: "bytes \<Rightarrow> nat \<Rightarrow> bool \<Rightarrow> nat + nat \<times> bool" where
  "skip_name p off isRoot =
     (if length p \<le> off then Inl (off + 1)
      else if p ! off = 0 then Inr (off + 1, isRoot)
      else if 0xc0 \<le> p ! off then (if off + 2 \<le> length p then Inr (off + 2, False) else Inl (off + 2))
      else if off + 1 + unat (p ! off) \<le> length p then skip_name p (off + 1 + unat (p ! off)) False
      else Inl (off + 1 + unat (p ! off)))"
  by pat_completeness auto
termination
  by (relation "measure (\<lambda>(p, off, r). length p - off)") auto

declare skip_name.simps [simp del]

fun question_end :: "bytes \<Rightarrow> nat \<Rightarrow> nat \<Rightarrow> nat option" where
  "question_end p off 0 = Some off"
| "question_end p off (Suc n) =
     (case skip_name p off True of
        Inl _ \<Rightarrow> None
      | Inr (t, _) \<Rightarrow> if t + 4 \<le> length p then question_end p (t + 4) n else None)"

fun rec_offsets :: "bytes \<Rightarrow> nat \<Rightarrow> nat \<Rightarrow> nat list" where
  "rec_offsets p off 0 = []"
| "rec_offsets p off (Suc n) =
     (case skip_name p off True of
        Inl _ \<Rightarrow> []
      | Inr (t, _) \<Rightarrow>
          if length p < t + 8 then []
          else t # (if t + 10 \<le> length p \<and> t + 10 + rd16 p (t + 8) \<le> length p
                    then rec_offsets p (t + 10 + rd16 p (t + 8)) n else []))"

definition record_offsets :: "bytes \<Rightarrow> nat list" where
  "record_offsets p =
     (case question_end p 12 (h_qdcount (dnsheader_of p)) of
        None \<Rightarrow> []
      | Some off \<Rightarrow> rec_offsets p off (numrecords (dnsheader_of p)))"

lemma skip_name_bounds: "skip_name p off r = Inr (t, b) \<Longrightarrow> off < t \<and> t \<le> length p"
proof (induction "length p - off" arbitrary: off r rule: less_induct)
  case less
  have IH: "skip_name p n r' = Inr (t, b) \<Longrightarrow> off < n \<Longrightarrow> n \<le> length p \<Longrightarrow> off < t \<and> t \<le> length p" for n r'
    using less.hyps [of n r'] diff_less_mono2 [of off n "length p"] by auto
  from less.prems show ?case by (subst (asm) skip_name.simps) (auto split: if_splits dest: IH)
qed

lemma question_end_bounds: "question_end p off n = Some e \<Longrightarrow> off \<le> e"
proof (induction n arbitrary: off)
  case (Suc n)
  obtain t b where "skip_name p off True = Inr (t, b)" "question_end p (t + 4) n = Some e"
    using Suc.prems by (auto split: sum.splits if_splits)
  then show ?case using Suc.IH [of "t + 4"] skip_name_bounds by fastforce
qed simp

text \<open>The shapes of the list of records.\<close>

lemma rec_offsets_cases:
  obtains (stop) "rec_offsets p off (Suc n) = []"
      "(\<exists>e. skip_name p off True = Inl e) \<or> (\<exists>t b. skip_name p off True = Inr (t, b) \<and> length p < t + 8)"
    | (last) t b where "skip_name p off True = Inr (t, b)" "t + 8 \<le> length p" "rec_offsets p off (Suc n) = [t]"
      "length p < t + 10 \<or> length p < t + 10 + rd16 p (t + 8)"
    | (more) t b where "skip_name p off True = Inr (t, b)" "t + 10 \<le> length p" "t + 10 + rd16 p (t + 8) \<le> length p"
      "rec_offsets p off (Suc n) = t # rec_offsets p (t + 10 + rd16 p (t + 8)) n"
proof (cases "skip_name p off True")
  case (Inl e)
  then show thesis using stop by simp
next
  case (Inr r)
  obtain t b where r: "r = (t, b)" by fastforce
  consider "length p < t + 8" | "t + 8 \<le> length p" "length p < t + 10 \<or> length p < t + 10 + rd16 p (t + 8)"
    | "t + 10 \<le> length p" "t + 10 + rd16 p (t + 8) \<le> length p" by linarith
  then show thesis
  proof cases
    case 1
    then show thesis using Inr r stop by simp
  next
    case 2
    then show thesis using Inr r last by auto
  next
    case 3
    then show thesis using Inr r more by simp
  qed
qed

lemma rec_offsets_bounds: "t \<in> set (rec_offsets p off n) \<Longrightarrow> off < t \<and> t + 8 \<le> length p"
proof (induction n arbitrary: off)
  case (Suc n)
  show ?case
  proof (cases rule: rec_offsets_cases [of p off n])
    case stop
    then show ?thesis using Suc.prems by simp
  next
    case (last t' b)
    then show ?thesis using Suc.prems skip_name_bounds by fastforce
  next
    case (more t' b)
    then show ?thesis using Suc.prems Suc.IH [of "t' + 10 + rd16 p (t' + 8)"] skip_name_bounds [OF more(1)] by auto
  qed
qed simp

lemma rec_offsets_sorted: "sorted_wrt (\<lambda>a b. a + 10 < b) (rec_offsets p off n)"
proof (induction n arbitrary: off)
  case (Suc n)
  show ?case
    by (cases rule: rec_offsets_cases [of p off n])
      (simp_all del: rec_offsets.simps add: Suc.IH, use rec_offsets_bounds in fastforce)
qed simp

subsection \<open>Reading does not change the packet\<close>

text \<open>The calls as equations; on failure only the offset has moved.\<close>

lemma dpm_get16BitInt_eq:
  "dpm_get16BitInt s =
     (if d_notyouroffset s + 2 > length (d_packet s)
      then (Inl (out_of_range ''dns packet out of range''), s\<lparr>d_notyouroffset := d_notyouroffset s + 2\<rparr>)
      else (Inr (rd16 (d_packet s) (d_notyouroffset s)), s\<lparr>d_notyouroffset := d_notyouroffset s + 2\<rparr>))"
  by (simp add: dpm_get16BitInt_def call_simps moveOffset_eq)

lemma dpm_get32BitInt_eq:
  "dpm_get32BitInt s =
     (if d_notyouroffset s + 4 > length (d_packet s)
      then (Inl (out_of_range ''dns packet out of range''), s\<lparr>d_notyouroffset := d_notyouroffset s + 4\<rparr>)
      else (Inr (rd32 (d_packet s) (d_notyouroffset s)), s\<lparr>d_notyouroffset := d_notyouroffset s + 4\<rparr>))"
  by (simp add: dpm_get32BitInt_def call_simps moveOffset_eq)

lemma dpm_skipRData_eq:
  "dpm_skipRData s =
     (let off = d_notyouroffset s; p = d_packet s in
      if off + 2 > length p then (Inl (out_of_range ''dns packet out of range''), s\<lparr>d_notyouroffset := off + 2\<rparr>)
      else if off + 2 + rd16 p off > length p
      then (Inl (out_of_range ''dns packet out of range''), s\<lparr>d_notyouroffset := off + 2 + rd16 p off\<rparr>)
      else (Inr (), s\<lparr>d_notyouroffset := off + 2 + rd16 p off\<rparr>))"
  by (simp add: dpm_skipRData_def call_simps dpm_get16BitInt_eq moveOffset_eq Let_def)

lemma skipDomainName_loop_eq:
  "skipDomainName_loop r s =
     (case skip_name (d_packet s) (d_notyouroffset s) r of
        Inl off \<Rightarrow> (Inl (out_of_range ''dns packet out of range''), s\<lparr>d_notyouroffset := off\<rparr>)
      | Inr (off, b) \<Rightarrow> (Inr b, s\<lparr>d_notyouroffset := off\<rparr>))"
proof (induction "length (d_packet s) - d_notyouroffset s" arbitrary: r s rule: less_induct)
  case less
  let ?p = "d_packet s" and ?o = "d_notyouroffset s"
  show ?case
  proof (cases "?o < length ?p \<and> ?p ! ?o \<noteq> 0 \<and> \<not> 0xc0 \<le> ?p ! ?o \<and> ?o + 1 + unat (?p ! ?o) \<le> length ?p")
    case True
    let ?s = "s\<lparr>d_notyouroffset := ?o + 1 + unat (?p ! ?o)\<rparr>"
    have "skipDomainName_loop r s = skipDomainName_loop False ?s"
      using True by (subst skipDomainName_loop.simps) (simp add: bindC_apply dpm_get8BitInt_eq dpm_skipBytes_def moveOffset_eq)
    moreover have "length (d_packet ?s) - d_notyouroffset ?s < length ?p - ?o"
      using True by (simp add: diff_less_mono2)
    ultimately show ?thesis using less [of ?s False] True
      by (subst skip_name.simps) (auto split: sum.split)
  next
    case False
    then show ?thesis
      by (subst skipDomainName_loop.simps, subst skip_name.simps)
        (auto simp: bindC_apply dpm_get8BitInt_eq dpm_skipBytes_def moveOffset_eq)
  qed
qed

lemma skipDomainName_eq:
  "skipDomainName s =
     (case skip_name (d_packet s) (d_notyouroffset s) True of
        Inl off \<Rightarrow> (Inl (out_of_range ''dns packet out of range''), s\<lparr>d_notyouroffset := off\<rparr>)
      | Inr (off, b) \<Rightarrow> (Inr b, s\<lparr>d_notyouroffset := off\<rparr>))"
  by (simp add: skipDomainName_def skipDomainName_loop_eq)

lemma skip_questions_eq:
  "case question_end (d_packet s) (d_notyouroffset s) n of
     Some off \<Rightarrow> skip_questions n s = (Inr (), s\<lparr>d_notyouroffset := off\<rparr>)
   | None \<Rightarrow> \<exists>off. skip_questions n s = (Inl (out_of_range ''dns packet out of range''), s\<lparr>d_notyouroffset := off\<rparr>)"
proof -
  have "case question_end (d_packet s) (d_notyouroffset s) (length ns) of
     Some off \<Rightarrow> forC ns (\<lambda>n. bindC skipDomainName (\<lambda>_. bindC (dpm_skipBytes 4) (\<lambda>_. returnC False))) s =
       (Inr (), s\<lparr>d_notyouroffset := off\<rparr>)
   | None \<Rightarrow> \<exists>off. forC ns (\<lambda>n. bindC skipDomainName (\<lambda>_. bindC (dpm_skipBytes 4) (\<lambda>_. returnC False))) s =
       (Inl (out_of_range ''dns packet out of range''), s\<lparr>d_notyouroffset := off\<rparr>)" for ns
  proof (induction ns arbitrary: s)
    case (Cons n ns)
    show ?case
    proof (cases "skip_name (d_packet s) (d_notyouroffset s) True")
      case (Inl off)
      then show ?thesis by (auto simp: bindC_apply skipDomainName_eq)
    next
      case (Inr r)
      obtain t b where r: "r = (t, b)" by fastforce
      show ?thesis
        using Inr r Cons [of "s\<lparr>d_notyouroffset := t + 4\<rparr>"]
        by (cases "question_end (d_packet s) (t + 4) (length ns)")
          (auto simp: bindC_apply skipDomainName_eq dpm_skipBytes_def moveOffset_eq)
    qed
  qed simp
  from this [of "[0..<n]"] show ?thesis unfolding skip_questions_def by simp
qed

subsection \<open>Writing TTLs keeps the walk\<close>

lemma length_overwrite [simp]: "i + length bs \<le> length p \<Longrightarrow> length (overwrite p i bs) = length p"
  by (simp add: overwrite_def)

lemma nth_overwrite:
  "i + length bs \<le> length p \<Longrightarrow> j < length p \<Longrightarrow>
   overwrite p i bs ! j = (if i \<le> j \<and> j < i + length bs then bs ! (j - i) else p ! j)"
  by (auto simp: overwrite_def nth_append min_def)

lemma rd32_overwrite: "i + 4 \<le> length p \<Longrightarrow> v < 4294967296 \<Longrightarrow> rd32 (overwrite p i (to_be32 v)) i = v"
proof -
  assume i: "i + 4 \<le> length p" and v: "v < 4294967296"
  obtain a b c d where abcd: "to_be32 v = [a, b, c, d]" by (auto simp: to_be32_def)
  then show ?thesis using i be32_to_be32 [OF v abcd] by (simp add: rd32_def nth_overwrite)
qed

text \<open>
  Two packets that agree from \<open>off\<close> on except in TTL fields, where \<open>ts\<close> are the positions of the
  type fields.
\<close>

definition ttl_field :: "nat list \<Rightarrow> nat \<Rightarrow> bool" where
  "ttl_field ts i \<longleftrightarrow> (\<exists>t \<in> set ts. t + 4 \<le> i \<and> i < t + 8)"

definition same_but_ttls :: "nat \<Rightarrow> nat list \<Rightarrow> bytes \<Rightarrow> bytes \<Rightarrow> bool" where
  "same_but_ttls off ts p q \<longleftrightarrow>
     length q = length p \<and> (\<forall>i. off \<le> i \<and> i < length p \<and> \<not> ttl_field ts i \<longrightarrow> q ! i = p ! i)"

lemma skip_name_cong:
  "length q = length p \<Longrightarrow>
   (\<forall>i. off \<le> i \<and> i < (case skip_name p off r of Inl _ \<Rightarrow> length p | Inr (t, _) \<Rightarrow> t) \<longrightarrow> q ! i = p ! i) \<Longrightarrow>
   skip_name q off r = skip_name p off r"
proof (induction "length p - off" arbitrary: off r rule: less_induct)
  case less
  show ?case
  proof (cases "off < length p")
    case False
    then show ?thesis using less.prems(1) by (subst (1 2) skip_name.simps) simp
  next
    case True
    have "off < (case skip_name p off r of Inl _ \<Rightarrow> length p | Inr (t, _) \<Rightarrow> t)"
      using True skip_name_bounds [of p off r] by (auto split: sum.split)
    then have h: "q ! off = p ! off" using less.prems(2) by simp
    show ?thesis
    proof (cases "p ! off \<noteq> 0 \<and> \<not> 0xc0 \<le> p ! off \<and> off + 1 + unat (p ! off) \<le> length p")
      case c: True
      have eq: "skip_name p off r = skip_name p (off + 1 + unat (p ! off)) False"
        using True c by (subst skip_name.simps) simp
      have "skip_name q (off + 1 + unat (p ! off)) False = skip_name p (off + 1 + unat (p ! off)) False"
        using less.prems True unfolding eq by (intro less.hyps) auto
      then show ?thesis using True c h less.prems(1) by (subst (1 2) skip_name.simps) simp
    next
      case False
      then show ?thesis using True h less.prems(1) by (subst (1 2) skip_name.simps) auto
    qed
  qed
qed

lemma rec_offsets_same:
  "same_but_ttls off (rec_offsets p off n) p q \<Longrightarrow> rec_offsets q off n = rec_offsets p off n"
proof (induction n arbitrary: off)
  case (Suc n)
  note [simp del] = rec_offsets.simps(2)
  have len: "length q = length p" using Suc.prems by (simp add: same_but_ttls_def)
  have same: "q ! i = p ! i" if "off \<le> i" "i < length p" "\<not> ttl_field (rec_offsets p off (Suc n)) i" for i
    using Suc.prems that by (simp add: same_but_ttls_def)
  have name: "skip_name q off True = skip_name p off True"
  proof (rule skip_name_cong [OF len], intro allI impI)
    fix i assume i: "off \<le> i \<and> i < (case skip_name p off True of Inl _ \<Rightarrow> length p | Inr (t, _) \<Rightarrow> t)"
    show "q ! i = p ! i"
    proof (cases rule: rec_offsets_cases [of p off n])
      case stop
      then have "i < length p" using i skip_name_bounds [of p off True] by (auto split: sum.splits)
      then show ?thesis using i same [of i] stop(1) by (simp add: ttl_field_def)
    next
      case (last t b)
      then show ?thesis using i same [of i] skip_name_bounds [OF last(1)] by (simp add: ttl_field_def)
    next
      case (more t b)
      then have "\<not> ttl_field (rec_offsets p off (Suc n)) i"
        using i rec_offsets_bounds [of _ p "t + 10 + rd16 p (t + 8)" n] by (fastforce simp: ttl_field_def)
      then show ?thesis using i same [of i] skip_name_bounds [OF more(1)] more by simp
    qed
  qed
  show ?case
  proof (cases rule: rec_offsets_cases [of p off n])
    case stop
    then show ?thesis using name len by (auto simp: rec_offsets.simps split: sum.splits)
  next
    case (last t b)
    have "rd16 q (t + 8) = rd16 p (t + 8)" if "t + 10 \<le> length p"
      using same [of "t + 8"] same [of "t + 8 + 1"] last skip_name_bounds [OF last(1)] that
      by (simp add: rd16_def ttl_field_def)
    then show ?thesis using last name len by (auto simp: rec_offsets.simps)
  next
    case (more t b)
    let ?o = "t + 10 + rd16 p (t + 8)"
    have fields: "ttl_field (rec_offsets p off (Suc n)) i \<longleftrightarrow> t + 4 \<le> i \<and> i < t + 8 \<or> ttl_field (rec_offsets p ?o n) i" for i
      by (auto simp: ttl_field_def more(4))
    have after: "\<not> ttl_field (rec_offsets p ?o n) i" if "i \<le> ?o" for i
      using that rec_offsets_bounds [of _ p ?o n] by (fastforce simp: ttl_field_def)
    have "rd16 q (t + 8) = rd16 p (t + 8)"
      using same [of "t + 8"] same [of "t + 8 + 1"] more after fields skip_name_bounds [OF more(1)] by (simp add: rd16_def)
    moreover have "same_but_ttls ?o (rec_offsets p ?o n) p q"
      using same fields len skip_name_bounds [OF more(1)] by (simp add: same_but_ttls_def)
    ultimately show ?thesis using more name len Suc.IH by (simp add: rec_offsets.simps)
  qed
qed simp

section \<open>Ageing\<close>

declare add_2_eq_Suc [simp del] add_2_eq_Suc' [simp del]

definition age_one :: "nat \<Rightarrow> nat \<Rightarrow> bytes \<Rightarrow> bytes" where
  "age_one seconds t p = (if rd16 p t = QType_OPT then p else overwrite p (t + 4) (to_be32 (rd32 p (t + 4) - seconds)))"

lemma length_age_one [simp]: "t + 8 \<le> length p \<Longrightarrow> length (age_one secs t p) = length p"
  by (simp add: age_one_def)

lemma nth_age_one: "t + 8 \<le> length p \<Longrightarrow> i < length p \<Longrightarrow> \<not> (t + 4 \<le> i \<and> i < t + 8) \<Longrightarrow> age_one secs t p ! i = p ! i"
  by (auto simp: age_one_def nth_overwrite)

lemma decrease_eq:
  "decreaseAndSkip32BitInt secs s =
     (let off = d_notyouroffset s; p = d_packet s in
      if off + 4 > length p then (Inl (out_of_range ''dns packet out of range''), s\<lparr>d_notyouroffset := off + 4\<rparr>)
      else (Inr (), s\<lparr>d_packet := overwrite p off (to_be32 (rd32 p off - secs)), d_notyouroffset := off + 4\<rparr>))"
  by (simp add: decreaseAndSkip32BitInt_def bindC_apply dpm_get32BitInt_eq Let_def)

lemma age_record_eq:
  assumes "skip_name (d_packet s) (d_notyouroffset s) True = Inr (t, b)" "t + 8 \<le> length (d_packet s)"
  shows "\<exists>off. age_record secs n s =
    (let p' = age_one secs t (d_packet s) in
     if length p' < t + 10 \<or> length p' < t + 10 + rd16 p' (t + 8)
     then (Inl (out_of_range ''dns packet out of range''), s\<lparr>d_packet := p', d_notyouroffset := off\<rparr>)
     else (Inr False, s\<lparr>d_packet := p', d_notyouroffset := t + 10 + rd16 p' (t + 8)\<rparr>))"
  using assms
  by (auto simp: age_record_def bindC_apply skipDomainName_eq dpm_get16BitInt_eq dpm_skipBytes_def moveOffset_eq
      decrease_eq dpm_skipRData_eq Let_def age_one_def ac_simps)

lemma age_record_stop:
  assumes "(\<exists>e. skip_name (d_packet s) (d_notyouroffset s) True = Inl e) \<or>
    (\<exists>t b. skip_name (d_packet s) (d_notyouroffset s) True = Inr (t, b) \<and> length (d_packet s) < t + 8)"
  shows "\<exists>e off. age_record secs n s = (Inl e, s\<lparr>d_notyouroffset := off\<rparr>)"
  using assms
  by (auto simp: age_record_def bindC_apply skipDomainName_eq dpm_get16BitInt_eq dpm_skipBytes_def moveOffset_eq
      decrease_eq Let_def ac_simps)

lemma rd16_age_one: "t + 10 \<le> length p \<Longrightarrow> rd16 (age_one secs t p) (t + 8) = rd16 p (t + 8)"
  by (simp add: rd16_def nth_age_one)

lemma same_age_one:
  "t + 8 \<le> length p \<Longrightarrow> t + 10 \<le> off \<Longrightarrow> same_but_ttls off ts p (age_one secs t p)"
  by (simp add: same_but_ttls_def nth_age_one)

lemma age_loop:
  "d_packet (snd (forC ns (age_record secs) s)) =
     fold (age_one secs) (rec_offsets (d_packet s) (d_notyouroffset s) (length ns)) (d_packet s)"
proof (induction ns arbitrary: s)
  case (Cons n ns)
  let ?p = "d_packet s" and ?o = "d_notyouroffset s"
  show ?case
  proof (cases rule: rec_offsets_cases [of ?p ?o "length ns"])
    case stop
    then obtain e off where "age_record secs n s = (Inl e, s\<lparr>d_notyouroffset := off\<rparr>)" using age_record_stop by blast
    then show ?thesis using stop(1) by (simp del: rec_offsets.simps)
  next
    case (last t b)
    have "length ?p < t + 10 \<or> length ?p < t + 10 + rd16 (age_one secs t ?p) (t + 8)"
      using last(4) rd16_age_one [of t ?p secs] by (cases "t + 10 \<le> length ?p") auto
    then obtain off where "age_record secs n s =
        (Inl (out_of_range ''dns packet out of range''), s\<lparr>d_packet := age_one secs t ?p, d_notyouroffset := off\<rparr>)"
      using age_record_eq [OF last(1,2), of secs n] last(2) by (auto simp: Let_def)
    then show ?thesis using last(3) by (simp del: rec_offsets.simps)
  next
    case (more t b)
    let ?p' = "age_one secs t ?p" and ?o' = "t + 10 + rd16 ?p (t + 8)"
    have t: "t + 8 \<le> length ?p" using more(2) by simp
    have step: "age_record secs n s = (Inr False, s\<lparr>d_packet := ?p', d_notyouroffset := ?o'\<rparr>)"
      using age_record_eq [OF more(1) t, of secs n] more(2,3) rd16_age_one [of t ?p secs] by (auto simp: Let_def)
    have "rec_offsets ?p' ?o' (length ns) = rec_offsets ?p ?o' (length ns)"
      using same_age_one [OF t, of ?o'] by (intro rec_offsets_same) simp
    then show ?thesis using step more(4) Cons [of "s\<lparr>d_packet := ?p', d_notyouroffset := ?o'\<rparr>"]
      by (simp add: bindC_apply del: rec_offsets.simps)
  qed
qed simp

lemma ageDNSPacket_fold:
  "12 \<le> length p \<Longrightarrow> ageDNSPacket p secs (dnsheader_of p) = fold (age_one secs) (record_offsets p) p"
  using skip_questions_eq [where s = "mangler_init p" and n = "h_qdcount (dnsheader_of p)"]
    age_loop [of "[0..<numrecords (dnsheader_of p)]" secs]
  by (auto simp: ageDNSPacket_def sizeof_dnsheader_def record_offsets_def mangler_init_def split: option.splits)

lemma record_offsets_sorted: "sorted_wrt (\<lambda>a b. a + 10 < b) (record_offsets p)"
  by (simp add: record_offsets_def rec_offsets_sorted split: option.split)

lemma record_offsets_bounds: "t \<in> set (record_offsets p) \<Longrightarrow> 12 < t \<and> t + 8 \<le> length p"
  by (cases "question_end p 12 (h_qdcount (dnsheader_of p))")
    (auto simp: record_offsets_def dest!: rec_offsets_bounds question_end_bounds)

lemma fold_age:
  "sorted_wrt (\<lambda>a b. a + 10 < b) ts \<Longrightarrow> (\<forall>t \<in> set ts. t + 8 \<le> length p) \<Longrightarrow>
   length (fold (age_one secs) ts p) = length p \<and>
   (\<forall>i < length p. \<not> ttl_field ts i \<longrightarrow> fold (age_one secs) ts p ! i = p ! i) \<and>
   (\<forall>t \<in> set ts. rd32 (fold (age_one secs) ts p) (t + 4) =
      (if rd16 p t = QType_OPT then rd32 p (t + 4) else rd32 p (t + 4) - secs))"
proof (induction ts arbitrary: p)
  case (Cons t ts)
  let ?p = "age_one secs t p"
  have t: "t + 8 \<le> length p" using Cons.prems by simp
  have later: "t + 10 < t'" if "t' \<in> set ts" for t' using Cons.prems that by simp
  have IH: "length (fold (age_one secs) ts ?p) = length p"
    "\<And>i. i < length p \<Longrightarrow> \<not> ttl_field ts i \<Longrightarrow> fold (age_one secs) ts ?p ! i = ?p ! i"
    "\<And>t'. t' \<in> set ts \<Longrightarrow> rd32 (fold (age_one secs) ts ?p) (t' + 4) =
      (if rd16 ?p t' = QType_OPT then rd32 ?p (t' + 4) else rd32 ?p (t' + 4) - secs)"
    using Cons.IH [of ?p] Cons.prems t by simp_all
  have here: "rd32 (fold (age_one secs) ts ?p) (t + 4) = rd32 ?p (t + 4)"
  proof -
    have "\<not> ttl_field ts i" if "i < t + 8" for i using that later by (fastforce simp: ttl_field_def)
    then show ?thesis using t IH(2) by (simp add: rd32_def)
  qed
  have ttl: "rd32 ?p (t + 4) = (if rd16 p t = QType_OPT then rd32 p (t + 4) else rd32 p (t + 4) - secs)"
  proof -
    have "rd32 p (t + 4) - secs < 4294967296" unfolding rd32_def by (rule less_imp_diff_less) (rule be32_less)
    then show ?thesis using t rd32_overwrite [of "t + 4" p "rd32 p (t + 4) - secs"] by (simp add: age_one_def)
  qed
  have "rd16 ?p t' = rd16 p t'" "rd32 ?p (t' + 4) = rd32 p (t' + 4)" if "t' \<in> set ts" for t'
  proof -
    have "t' + 8 \<le> length p" using Cons.prems(2) that by simp
    then show "rd16 ?p t' = rd16 p t'" "rd32 ?p (t' + 4) = rd32 p (t' + 4)"
      using later [OF that] t by (simp_all add: rd16_def rd32_def nth_age_one)
  qed
  then have rest: "rd32 (fold (age_one secs) ts ?p) (t' + 4) =
      (if rd16 p t' = QType_OPT then rd32 p (t' + 4) else rd32 p (t' + 4) - secs)" if "t' \<in> set ts" for t'
    using IH(3) [OF that] that by simp
  have other: "fold (age_one secs) ts ?p ! i = p ! i" if "i < length p" "\<not> ttl_field (t # ts) i" for i
    using that IH(2) nth_age_one [OF t, of i] by (auto simp: ttl_field_def)
  show ?case using IH(1) here ttl rest other by simp
qed simp

text \<open>
  Claim C10 (ageing): \<^verbatim>\<open>ageDNSPacket\<close> lowers the TTL of every record it reaches by the given number of
  seconds, stopping at zero, leaves those of OPT records alone, and changes no other byte of
  the packet, however malformed the packet is.
\<close>

theorem ageDNSPacket_spec:
  assumes "12 \<le> length p"
  shows "length (ageDNSPacket p secs (dnsheader_of p)) = length p \<and>
    (\<forall>t \<in> set (record_offsets p). rd32 (ageDNSPacket p secs (dnsheader_of p)) (t + 4) =
      (if rd16 p t = QType_OPT then rd32 p (t + 4) else rd32 p (t + 4) - secs)) \<and>
    (\<forall>i < length p. \<not> ttl_field (record_offsets p) i \<longrightarrow> ageDNSPacket p secs (dnsheader_of p) ! i = p ! i)"
  using fold_age [OF record_offsets_sorted, of p p secs] record_offsets_bounds
  by (simp add: ageDNSPacket_fold [OF assms])

theorem ageDNSPacket_spec_witness:
  "length (ageDNSPacket (replicate 11 0 @ [1, 0, 0, 1, 0, 1, 0, 0, 0, 9, 0, 0]) 4
     (dnsheader_of (replicate 11 0 @ [1, 0, 0, 1, 0, 1, 0, 0, 0, 9, 0, 0]))) = 23"
  using ageDNSPacket_spec [of "replicate 11 0 @ [1, 0, 0, 1, 0, 1, 0, 0, 0, 9, 0, 0]" 4] by simp

end
