(* ===== verification/PacketTTL.thy ===== *)
theory PacketTTL
  imports Mangler
begin

text \<open>
  What the packet functions built on the mangler compute: the minimum TTL of a packet and how
  ageing changes it, the length of the message in a buffer, and the shuffling of address records.
\<close>

section \<open>The minimum TTL\<close>

lemma question_end_cong:
  "length q = length p \<Longrightarrow>
   (\<forall>i. off \<le> i \<and> i < length p \<and> i < (case question_end p off n of None \<Rightarrow> length p | Some e \<Rightarrow> e) \<longrightarrow> q ! i = p ! i) \<Longrightarrow>
   question_end q off n = question_end p off n"
proof (induction n arbitrary: off)
  case (Suc n)
  have name: "skip_name q off True = skip_name p off True"
  proof (rule skip_name_cong [OF Suc.prems(1)], intro allI impI)
    fix i assume i: "off \<le> i \<and> i < (case skip_name p off True of Inl _ \<Rightarrow> length p | Inr (t, _) \<Rightarrow> t)"
    have "i < length p \<and> i < (case question_end p off (Suc n) of None \<Rightarrow> length p | Some e \<Rightarrow> e)"
      using i by (cases "skip_name p off True")
        (auto split: option.split if_splits dest!: question_end_bounds skip_name_bounds)
    then show "q ! i = p ! i" using Suc.prems(2) i by blast
  qed
  show ?case
  proof (cases "skip_name p off True")
    case (Inr r)
    obtain t b where r: "r = (t, b)" by fastforce
    have "off < t" using Inr r skip_name_bounds by blast
    then have "question_end q (t + 4) n = question_end p (t + 4) n" if "t + 4 \<le> length p"
      using Suc.prems Inr r that by (intro Suc.IH) auto
    then show ?thesis using Inr r name Suc.prems(1) by auto
  qed (use name in auto)
qed simp

lemma dnsheader_same:
  "(\<And>i. i < 12 \<Longrightarrow> q ! i = p ! i) \<Longrightarrow> dnsheader_of q = dnsheader_of p"
  by (simp add: dnsheader_of_def)

lemma record_offsets_same:
  assumes "same_but_ttls 0 (record_offsets p) p q" "12 \<le> length p"
  shows "dnsheader_of q = dnsheader_of p" "record_offsets q = record_offsets p"
proof -
  have len: "length q = length p" and same: "\<And>i. i < length p \<Longrightarrow> \<not> ttl_field (record_offsets p) i \<Longrightarrow> q ! i = p ! i"
    using assms by (auto simp: same_but_ttls_def)
  show h: "dnsheader_of q = dnsheader_of p"
    using assms(2) record_offsets_bounds by (intro dnsheader_same same) (fastforce simp: ttl_field_def)+
  let ?e = "question_end p 12 (h_qdcount (dnsheader_of p))"
  have "question_end q 12 (h_qdcount (dnsheader_of p)) = ?e"
  proof (rule question_end_cong [OF len], intro allI impI)
    fix i assume i: "12 \<le> i \<and> i < length p \<and> i < (case ?e of None \<Rightarrow> length p | Some e \<Rightarrow> e)"
    have "\<not> ttl_field (record_offsets p) i"
      using i rec_offsets_bounds by (cases ?e) (fastforce simp: ttl_field_def record_offsets_def)+
    then show "q ! i = p ! i" using same i by blast
  qed
  then show "record_offsets q = record_offsets p"
    using h assms(1) rec_offsets_same by (auto simp: record_offsets_def same_but_ttls_def split: option.splits)
qed

definition counted_offsets :: "bytes \<Rightarrow> nat list" where
  "counted_offsets p = takeWhile (\<lambda>t. rd16 p t \<noteq> QType_OPT) (record_offsets p)"

lemma set_result_eq: "set_result f s = (Inr (), s\<lparr>d_result := f (d_result s)\<rparr>)"
  by (simp add: set_result_def)

text \<open>The reads of the walk on each side of their bounds check.\<close>

lemma get16_ok:
  "d_notyouroffset s + 2 \<le> length (d_packet s) \<Longrightarrow>
   dpm_get16BitInt s = (Inr (rd16 (d_packet s) (d_notyouroffset s)), s\<lparr>d_notyouroffset := d_notyouroffset s + 2\<rparr>)"
  by (simp add: dpm_get16BitInt_eq)

lemma get16_short:
  "length (d_packet s) < d_notyouroffset s + 2 \<Longrightarrow>
   dpm_get16BitInt s = (Inl (out_of_range ''dns packet out of range''), s\<lparr>d_notyouroffset := d_notyouroffset s + 2\<rparr>)"
  by (simp add: dpm_get16BitInt_eq)

lemma get32_ok:
  "d_notyouroffset s + 4 \<le> length (d_packet s) \<Longrightarrow>
   dpm_get32BitInt s = (Inr (rd32 (d_packet s) (d_notyouroffset s)), s\<lparr>d_notyouroffset := d_notyouroffset s + 4\<rparr>)"
  by (simp add: dpm_get32BitInt_eq)

lemma get32_short:
  "length (d_packet s) < d_notyouroffset s + 4 \<Longrightarrow>
   dpm_get32BitInt s = (Inl (out_of_range ''dns packet out of range''), s\<lparr>d_notyouroffset := d_notyouroffset s + 4\<rparr>)"
  by (simp add: dpm_get32BitInt_eq)

lemma skip_name_ok:
  "skip_name (d_packet s) (d_notyouroffset s) True = Inr (off, b) \<Longrightarrow>
   skipDomainName s = (Inr b, s\<lparr>d_notyouroffset := off\<rparr>)"
  by (simp add: skipDomainName_eq)

lemma skip_name_short:
  "skip_name (d_packet s) (d_notyouroffset s) True = Inl off \<Longrightarrow>
   skipDomainName s = (Inl (out_of_range ''dns packet out of range''), s\<lparr>d_notyouroffset := off\<rparr>)"
  by (simp add: skipDomainName_eq)

lemma skipRData_ok:
  "d_notyouroffset s + 2 \<le> length (d_packet s) \<Longrightarrow>
   d_notyouroffset s + 2 + rd16 (d_packet s) (d_notyouroffset s) \<le> length (d_packet s) \<Longrightarrow>
   dpm_skipRData s = (Inr (), s\<lparr>d_notyouroffset := d_notyouroffset s + 2 + rd16 (d_packet s) (d_notyouroffset s)\<rparr>)"
  by (simp add: dpm_skipRData_eq Let_def)

lemma skipRData_short:
  "length (d_packet s) < d_notyouroffset s + 2 \<or>
   length (d_packet s) < d_notyouroffset s + 2 + rd16 (d_packet s) (d_notyouroffset s) \<Longrightarrow>
   \<exists>o'. dpm_skipRData s = (Inl (out_of_range ''dns packet out of range''), s\<lparr>d_notyouroffset := o'\<rparr>)"
  by (auto simp: dpm_skipRData_eq Let_def)

lemma bind_skipRData_short:
  "length (d_packet s) < d_notyouroffset s + 2 \<or>
   length (d_packet s) < d_notyouroffset s + 2 + rd16 (d_packet s) (d_notyouroffset s) \<Longrightarrow>
   \<exists>o'. bindC dpm_skipRData k s = (Inl (out_of_range ''dns packet out of range''), s\<lparr>d_notyouroffset := o'\<rparr>)"
  using skipRData_short [of s] by (auto simp: bindC_apply)

lemma bind_set_result_if:
  "bindC (if c then set_result f else returnC ()) k s = k () (s\<lparr>d_result := (if c then f else id) (d_result s)\<rparr>)"
  by (simp add: bindC_apply set_result_eq)

lemma bind_set_result: "bindC (set_result f) k s = k () (s\<lparr>d_result := f (d_result s)\<rparr>)"
  by (simp add: bindC_apply set_result_eq)

lemma fst_min_soa [simp]: "fst ((\<lambda>(r, soa). (min r ttl, soa)) x) = min (fst x) ttl"
  by (cases x) simp

lemma fst_seen_soa [simp]: "fst ((if c then (\<lambda>(r, _). (r, True)) else id) x) = fst x"
  by (cases x) simp

lemmas walk_steps = bindC_cong_ok [of dpm_get16BitInt, OF get16_ok] bindC_cong_err [of dpm_get16BitInt, OF get16_short] bindC_cong_ok [of dpm_get32BitInt, OF get32_ok]
  bindC_cong_err [of dpm_get32BitInt, OF get32_short] bindC_cong_ok [of skipDomainName, OF skip_name_ok] bindC_cong_err [of skipDomainName, OF skip_name_short]
  bind_set_result_if bind_set_result add.assoc

lemma minTTL_record_stop:
  assumes "(\<exists>e. skip_name (d_packet s) (d_notyouroffset s) True = Inl e) \<or>
    (\<exists>t b. skip_name (d_packet s) (d_notyouroffset s) True = Inr (t, b) \<and> length (d_packet s) < t + 8)"
  shows "\<exists>r s'. minTTL_record dh w n s = (r, s') \<and> fst (d_result s') = fst (d_result s) \<and> r \<noteq> Inr False"
proof -
  let ?p = "d_packet s" and ?n = "skip_name (d_packet s) (d_notyouroffset s) True"
  show ?thesis
  proof (cases ?n)
    case (Inl e)
    then show ?thesis by (simp add: minTTL_record_def walk_steps)
  next
    case (Inr r)
    then obtain t b where n: "?n = Inr (t, b)" and l: "length ?p < t + 8" using assms by auto
    consider "length ?p < t + 2" | "t + 2 \<le> length ?p" "length ?p < t + 4" | "t + 4 \<le> length ?p" by linarith
    then show ?thesis using n l by cases (simp_all add: minTTL_record_def walk_steps)
  qed
qed

lemma minTTL_record_opt:
  assumes "skip_name (d_packet s) (d_notyouroffset s) True = Inr (t, b)" "t + 8 \<le> length (d_packet s)"
    "rd16 (d_packet s) t = QType_OPT"
  shows "minTTL_record dh w n s = (Inr True, s\<lparr>d_notyouroffset := t + 4\<rparr>)"
  using assms by (simp add: minTTL_record_def walk_steps)

lemma minTTL_record_counted:
  assumes "skip_name (d_packet s) (d_notyouroffset s) True = Inr (t, b)" "t + 8 \<le> length (d_packet s)"
    "rd16 (d_packet s) t \<noteq> QType_OPT"
  obtains u where "minTTL_record dh w n s = bindC dpm_skipRData (\<lambda>_. returnC False) u"
    "d_packet u = d_packet s" "d_notyouroffset u = t + 8"
    "fst (d_result u) = min (fst (d_result s)) (rd32 (d_packet s) (t + 4))"
proof (rule that)
  show "minTTL_record dh w n s = bindC dpm_skipRData (\<lambda>_. returnC False)
    (s\<lparr>d_notyouroffset := t + 8, d_result := (\<lambda>(r, soa). (min r (rd32 (d_packet s) (t + 4)), soa))
       ((if rd16 (d_packet s) t = QType_SOA \<and> rd16 (d_packet s) (t + 2) = QClass_IN \<and> w \<and> n \<ge> h_ancount dh \<and>
          n < h_ancount dh + h_nscount dh then (\<lambda>(r, _). (r, True)) else id) (d_result s))\<rparr>)"
    using assms by (simp add: minTTL_record_def walk_steps)
qed simp_all

lemma minTTL_record_eq:
  assumes "skip_name (d_packet s) (d_notyouroffset s) True = Inr (t, b)" "t + 8 \<le> length (d_packet s)"
  shows "\<exists>r s'. minTTL_record dh w n s = (r, s') \<and> d_packet s' = d_packet s \<and>
    (if rd16 (d_packet s) t = QType_OPT then fst (d_result s') = fst (d_result s) \<and> r \<noteq> Inr False
     else fst (d_result s') = min (fst (d_result s)) (rd32 (d_packet s) (t + 4)) \<and>
       (if length (d_packet s) < t + 10 \<or> length (d_packet s) < t + 10 + rd16 (d_packet s) (t + 8) then r \<noteq> Inr False
        else r = Inr False \<and> d_notyouroffset s' = t + 10 + rd16 (d_packet s) (t + 8)))"
proof (cases "rd16 (d_packet s) t = QType_OPT")
  case True
  then show ?thesis using minTTL_record_opt [OF assms True, of dh w n] by simp
next
  case False
  obtain u where u: "minTTL_record dh w n s = bindC dpm_skipRData (\<lambda>_. returnC False) u"
    "d_packet u = d_packet s" "d_notyouroffset u = t + 8"
    "fst (d_result u) = min (fst (d_result s)) (rd32 (d_packet s) (t + 4))"
    using minTTL_record_counted [OF assms False] .
  show ?thesis
  proof (cases "length (d_packet s) < t + 10 \<or> length (d_packet s) < t + 10 + rd16 (d_packet s) (t + 8)")
    case True
    then obtain o' where "bindC dpm_skipRData (\<lambda>_. returnC False) u =
      (Inl (out_of_range ''dns packet out of range''), u\<lparr>d_notyouroffset := o'\<rparr>)"
      using bind_skipRData_short [of u] u by (auto simp: ac_simps)
    then show ?thesis using True False u by auto
  next
    case ok: False
    then have "bindC dpm_skipRData (\<lambda>_. returnC False) u = (Inr False, u\<lparr>d_notyouroffset := t + 10 + rd16 (d_packet s) (t + 8)\<rparr>)"
      using u by (simp add: bindC_apply skipRData_ok ac_simps)
    then show ?thesis using ok False u by auto
  qed
qed

lemma forC_stop: "body n s = (r, s') \<Longrightarrow> r \<noteq> Inr False \<Longrightarrow> snd (forC (n # ns) body s) = s'"
  by (cases r) (auto simp: bindC_apply)

lemma forC_next: "body n s = (Inr False, s') \<Longrightarrow> forC (n # ns) body s = forC ns body s'"
  by (simp add: bindC_apply)

lemma minTTL_loop:
  "fst (d_result (snd (forC ns (minTTL_record dh w) s))) =
     fold (\<lambda>t r. min r (rd32 (d_packet s) (t + 4)))
       (takeWhile (\<lambda>t. rd16 (d_packet s) t \<noteq> QType_OPT) (rec_offsets (d_packet s) (d_notyouroffset s) (length ns)))
       (fst (d_result s))"
proof (induction ns arbitrary: s)
  case (Cons n ns)
  note [simp del] = rec_offsets.simps(2) forC.simps(2)
  let ?p = "d_packet s" and ?o = "d_notyouroffset s"
  show ?case
  proof (cases rule: rec_offsets_cases [of ?p ?o "length ns"])
    case stop
    then obtain r s' where "minTTL_record dh w n s = (r, s')" "fst (d_result s') = fst (d_result s)" "r \<noteq> Inr False"
      using minTTL_record_stop by blast
    then show ?thesis using stop(1) forC_stop [of "minTTL_record dh w" n s r s' ns] by simp
  next
    case (last t b)
    obtain r s' where r: "minTTL_record dh w n s = (r, s')" "r \<noteq> Inr False"
      "if rd16 ?p t = QType_OPT then fst (d_result s') = fst (d_result s)
       else fst (d_result s') = min (fst (d_result s)) (rd32 ?p (t + 4))"
      using minTTL_record_eq [OF last(1,2), of dh w n] last(4) by (auto split: if_splits)
    then show ?thesis using forC_stop [of "minTTL_record dh w" n s r s' ns] last(3) by simp
  next
    case (more t b)
    then have t: "t + 8 \<le> length ?p" by simp
    obtain r s' where r: "minTTL_record dh w n s = (r, s')" "d_packet s' = ?p"
      "if rd16 ?p t = QType_OPT then fst (d_result s') = fst (d_result s) \<and> r \<noteq> Inr False
       else fst (d_result s') = min (fst (d_result s)) (rd32 ?p (t + 4)) \<and> r = Inr False \<and>
         d_notyouroffset s' = t + 10 + rd16 ?p (t + 8)"
      using minTTL_record_eq [OF more(1) t, of dh w n] more(2,3) by (auto split: if_splits)
    show ?thesis
    proof (cases "rd16 ?p t = QType_OPT")
      case True
      then show ?thesis using r more(4) forC_stop [of "minTTL_record dh w" n s r s' ns] by simp
    next
      case False
      then show ?thesis using r more(4) forC_next [of "minTTL_record dh w" n s s' ns] Cons [of s'] by simp
    qed
  qed
qed simp

lemma getDNSPacketMinTTL_fold:
  assumes "12 \<le> length p"
  shows "fst (getDNSPacketMinTTL p w b) = fold (\<lambda>t r. min r (rd32 p (t + 4))) (counted_offsets p) 4294967295"
proof -
  let ?s = "locals_init p (4294967295 :: nat, b)" and ?n = "h_qdcount (dnsheader_of p)"
  have s: "d_packet ?s = p" "d_notyouroffset ?s = 12" "d_result ?s = (4294967295, b)" by (simp_all add: locals_init_def)
  show ?thesis
  proof (cases "question_end p 12 ?n")
    case None
    then show ?thesis using skip_questions_eq [where s = ?s and n = ?n] s assms
      by (auto simp: getDNSPacketMinTTL_def sizeof_dnsheader_def counted_offsets_def record_offsets_def Let_def)
  next
    case (Some e)
    then show ?thesis
      using skip_questions_eq [where s = ?s and n = ?n] s assms
        minTTL_loop [of "[0..<numrecords (dnsheader_of p)]" "dnsheader_of p" w "?s\<lparr>d_notyouroffset := e\<rparr>"]
      by (simp add: getDNSPacketMinTTL_def sizeof_dnsheader_def counted_offsets_def record_offsets_def Let_def bindC_apply)
  qed
qed


lemma ageDNSPacket_facts:
  assumes "12 \<le> length p"
  shows "same_but_ttls 0 (record_offsets p) p (ageDNSPacket p secs (dnsheader_of p))"
    "t \<in> set (record_offsets p) \<Longrightarrow> rd32 (ageDNSPacket p secs (dnsheader_of p)) (t + 4) =
      (if rd16 p t = QType_OPT then rd32 p (t + 4) else rd32 p (t + 4) - secs)"
  using fold_age [OF record_offsets_sorted, of p p secs] record_offsets_bounds
  by (simp_all add: ageDNSPacket_fold [OF assms] same_but_ttls_def)

lemma records_apart:
  "sorted_wrt (\<lambda>a b. a + 10 < b) ts \<Longrightarrow> t \<in> set ts \<Longrightarrow> t' \<in> set ts \<Longrightarrow> t = t' \<or> t + 10 < t' \<or> t' + (10 :: nat) < t"
  by (induction ts) auto

lemma counted_offsets_same:
  assumes same: "same_but_ttls 0 (record_offsets p) p q" and p: "12 \<le> length p"
  shows "counted_offsets q = counted_offsets p"
proof -
  have "rd16 q t = rd16 p t" if t: "t \<in> set (record_offsets p)" for t
  proof -
    have "\<not> ttl_field (record_offsets p) t" "\<not> ttl_field (record_offsets p) (t + 1)"
      using records_apart [OF record_offsets_sorted t] by (fastforce simp: ttl_field_def)+
    then show ?thesis using same record_offsets_bounds [OF t] by (simp add: rd16_def same_but_ttls_def)
  qed
  then show ?thesis
    unfolding counted_offsets_def record_offsets_same(2) [OF same p] by (intro takeWhile_cong) simp_all
qed

lemma fold_min_sub:
  "(\<forall>t \<in> set ts. f t = g t - c) \<Longrightarrow> fold (\<lambda>t r. min r (f t)) ts (a - c) = fold (\<lambda>t r. min r (g t)) ts a - (c :: nat)"
proof (induction ts arbitrary: a)
  case (Cons t ts)
  have "min (a - c) (f t) = min a (g t) - c" using Cons.prems by (simp add: min_def)
  then show ?case using Cons by simp
qed simp

text \<open>
  Claim C31 (ageing and the minimum TTL): the minimum TTL that a cache computes for an aged packet is
  the minimum TTL of the packet before it was aged, less the age and not below zero; a packet
  without records before the first OPT record keeps the maximal value.
\<close>

theorem getDNSPacketMinTTL_aged:
  assumes "12 \<le> length p"
  shows "fst (getDNSPacketMinTTL (ageDNSPacket p secs (dnsheader_of p)) w b) =
    (if counted_offsets p = [] then 4294967295 else fst (getDNSPacketMinTTL p w b) - secs)"
proof -
  let ?q = "ageDNSPacket p secs (dnsheader_of p)"
  note q = ageDNSPacket_facts [OF assms, where secs = secs]
  have len: "12 \<le> length ?q" using assms q(1) by (simp add: same_but_ttls_def)
  note eqs = getDNSPacketMinTTL_fold [OF assms] getDNSPacketMinTTL_fold [OF len] counted_offsets_same [OF q(1) assms]
  have ttl: "rd32 ?q (t + 4) = rd32 p (t + 4) - secs" if "t \<in> set (counted_offsets p)" for t
    using that q(2) [of t] by (auto simp: counted_offsets_def dest!: set_takeWhileD)
  show ?thesis
  proof (cases "counted_offsets p")
    case Nil
    then show ?thesis by (simp add: eqs)
  next
    case (Cons t ts)
    have "rd32 p (t + 4) < 4294967296" unfolding rd32_def by (rule be32_less)
    then have "rd32 p (t + 4) \<le> 4294967295" "rd32 p (t + 4) - secs \<le> 4294967295" by simp_all
    then have "fst (getDNSPacketMinTTL ?q w b) = fold (\<lambda>t r. min r (rd32 ?q (t + 4))) ts (rd32 p (t + 4) - secs)"
      "fst (getDNSPacketMinTTL p w b) = fold (\<lambda>t r. min r (rd32 p (t + 4))) ts (rd32 p (t + 4))"
      using ttl [of t] Cons by (simp_all add: eqs min_absorb2)
    then show ?thesis using fold_min_sub [of ts "\<lambda>t. rd32 ?q (t + 4)"] ttl Cons by simp
  qed
qed

theorem getDNSPacketMinTTL_aged_witness:
  "fst (getDNSPacketMinTTL (ageDNSPacket (replicate 11 0 @ [1, 0, 0, 1, 0, 1, 0, 0, 0, 9, 0, 0]) 4
     (dnsheader_of (replicate 11 0 @ [1, 0, 0, 1, 0, 1, 0, 0, 0, 9, 0, 0]))) False False) = 5"
proof -
  define p :: bytes where "p = replicate 11 0 @ [1, 0, 0, 1, 0, 1, 0, 0, 0, 9, 0, 0]"
  have len: "12 \<le> length p" and off: "counted_offsets p = [13]" and ttl: "rd32 p 17 = 9"
    unfolding p_def by code_simp+
  have "fst (getDNSPacketMinTTL p False False) = 9" by (simp add: getDNSPacketMinTTL_fold len off ttl)
  then show ?thesis unfolding p_def [symmetric] using getDNSPacketMinTTL_aged [OF len, of 4 False False] off by simp
qed

end
