(* ===== verification/Shuffle.thy ===== *)
theory Shuffle
  imports PacketTTL "HOL-Library.Multiset"
begin

text \<open>
  The shuffling of address records: \<^verbatim>\<open>shuffleDNSPacket\<close> permutes the data of the records of one address
  RRset and changes nothing else, for every packet and every sequence of random numbers.
\<close>

section \<open>Calls that only read the packet\<close>

definition keeps_packet :: "('z DNSPacketMangler_scheme, 'a) call \<Rightarrow> bool" where
  "keeps_packet m \<longleftrightarrow> (\<forall>s. d_packet (snd (m s)) = d_packet s)"

named_theorems reads \<open>calls that leave the packet as it is\<close>

lemma keeps_bindC [reads]: "keeps_packet m \<Longrightarrow> (\<And>a. keeps_packet (f a)) \<Longrightarrow> keeps_packet (bindC m f)"
  unfolding keeps_packet_def by (auto simp: bindC_apply split: prod.split sum.split) (metis snd_conv)+

lemma keeps_returnC [reads]: "keeps_packet (returnC a)" "keeps_packet (getC f)" "keeps_packet (liftC r)"
  by (simp_all add: keeps_packet_def)

lemma keeps_if [reads]: "keeps_packet m \<Longrightarrow> keeps_packet m' \<Longrightarrow> keeps_packet (if b then m else m')"
  by simp

lemma keeps_walk [reads]:
  "keeps_packet skipDomainName" "keeps_packet dpm_get16BitInt" "keeps_packet (dpm_skipBytes n)" "keeps_packet (moveOffset n)"
  "keeps_packet dpm_skipRData"
  by (simp_all add: keeps_packet_def skipDomainName_eq dpm_get16BitInt_eq dpm_skipBytes_def moveOffset_eq dpm_skipRData_eq
      Let_def split: sum.split prod.split)

lemma keeps_set_result [reads]: "keeps_packet (set_result f)"
  by (simp add: keeps_packet_def set_result_eq)

lemma keeps_offsets [reads]: "keeps_packet skipRDataAndReturnOffsets"
  unfolding skipRDataAndReturnOffsets_def by (intro reads)

lemma keeps_scan: "keeps_packet (shuffle_scan_body n)"
  unfolding shuffle_scan_body_def Let_def case_prod_beta by (intro reads)

section \<open>What the scan collects\<close>

abbreviation ranges :: "(nat \<times> DNSName \<times> (nat \<times> nat) list) mangler_locals \<Rightarrow> (nat \<times> nat) list" where
  "ranges s \<equiv> snd (snd (d_result s))"

abbreviation rtype :: "(nat \<times> DNSName \<times> (nat \<times> nat) list) mangler_locals \<Rightarrow> nat" where
  "rtype s \<equiv> fst (d_result s)"

text \<open>The data of the record whose type field is at \<open>t\<close>.\<close>

definition rdata_range :: "bytes \<Rightarrow> nat \<Rightarrow> nat \<times> nat" where
  "rdata_range p t = (t + 10, t + 10 + rd16 p (t + 8))"

lemma skipRData_offsets_Inr:
  "skipRDataAndReturnOffsets s = (Inr r, s') \<longleftrightarrow>
   d_notyouroffset s + 2 + rd16 (d_packet s) (d_notyouroffset s) \<le> length (d_packet s) \<and>
   r = (d_notyouroffset s + 2, d_notyouroffset s + 2 + rd16 (d_packet s) (d_notyouroffset s)) \<and>
   s' = s\<lparr>d_notyouroffset := d_notyouroffset s + 2 + rd16 (d_packet s) (d_notyouroffset s)\<rparr>"
  by (auto simp: skipRDataAndReturnOffsets_def bindC_Inr dpm_get16BitInt_eq moveOffset_eq split: if_splits)

lemma scan_step:
  assumes "shuffle_scan_body n s = (Inr brk, s')"
  obtains (skip) t b where "skip_name (d_packet s) (d_notyouroffset s) True = Inr (t, b)" "\<not> brk"
      "snd (rdata_range (d_packet s) t) \<le> length (d_packet s)" "d_notyouroffset s' = snd (rdata_range (d_packet s) t)"
      "ranges s = []" "ranges s' = []"
    | (push) t b where "skip_name (d_packet s) (d_notyouroffset s) True = Inr (t, b)" "\<not> brk"
      "snd (rdata_range (d_packet s) t) \<le> length (d_packet s)" "d_notyouroffset s' = snd (rdata_range (d_packet s) t)"
      "ranges s' = ranges s @ [rdata_range (d_packet s) t]" "rtype s' = rd16 (d_packet s) t"
      "rtype s' \<in> {QType_A, QType_AAAA}" "ranges s \<noteq> [] \<longrightarrow> rtype s' = rtype s"
    | (stop) brk "ranges s' = ranges s" "rtype s' = rtype s"
proof -
  obtain t b where n: "skip_name (d_packet s) (d_notyouroffset s) True = Inr (t, b)"
    using assms by (auto simp: shuffle_scan_body_def bindC_Inr skipDomainName_eq split: sum.splits)
  obtain ty nm ix where r: "d_result s = (ty, nm, ix)" by (metis surj_pair)
  from assms show thesis
    using skip push stop n r
    by (simp add: shuffle_scan_body_def bindC_Inr skip_name_ok Let_def)
      (auto simp: dpm_get16BitInt_eq bindC_Inr dpm_skipBytes_def moveOffset_eq skipRData_offsets_Inr set_result_eq
        dpm_skipRData_eq Let_def rdata_range_def add.commute [of _ t] add.assoc split: if_splits)
qed

lemma rec_offsets_next:
  assumes "skip_name p off True = Inr (t, b)" "snd (rdata_range p t) \<le> length p"
  shows "rec_offsets p off (Suc n) = t # rec_offsets p (snd (rdata_range p t)) n"
  using assms by (simp add: rdata_range_def)

definition scanned :: "bytes \<Rightarrow> nat list \<Rightarrow> nat list \<Rightarrow> nat \<Rightarrow> bool" where
  "scanned p ts us ty \<longleftrightarrow> set us \<subseteq> set ts \<and> sorted_wrt (\<lambda>a b. snd (rdata_range p a) < b) us \<and>
     (\<forall>u \<in> set us. snd (rdata_range p u) \<le> length p \<and> rd16 p u = ty \<and> (ty = QType_A \<or> ty = QType_AAAA))"

lemma scan_loop:
  "forC ns shuffle_scan_body s = (Inr (), s') \<Longrightarrow>
   \<exists>us. ranges s' = ranges s @ map (rdata_range (d_packet s)) us \<and>
     scanned (d_packet s) (rec_offsets (d_packet s) (d_notyouroffset s) (length ns)) us (rtype s') \<and>
     (ranges s \<noteq> [] \<longrightarrow> rtype s' = rtype s)"
proof (induction ns arbitrary: s)
  case Nil
  then show ?case by (auto simp: scanned_def)
next
  case (Cons n ns)
  note [simp del] = rec_offsets.simps
  let ?p = "d_packet s"
  obtain brk s1 where step: "shuffle_scan_body n s = (Inr brk, s1)"
    and rest: "(if brk then returnC () else forC ns shuffle_scan_body) s1 = (Inr (), s')"
    using Cons.prems by (auto simp: bindC_Inr)
  have p: "d_packet s1 = ?p" using step keeps_scan [of n] by (auto simp: keeps_packet_def) (metis snd_conv)
  from step show ?case
  proof (cases rule: scan_step)
    case (skip t b)
    then obtain us where "ranges s' = map (rdata_range ?p) us"
      "scanned ?p (rec_offsets ?p (snd (rdata_range ?p t)) (length ns)) us (rtype s')"
      using Cons.IH [of s1] rest p by auto
    then show ?thesis using skip rec_offsets_next [OF skip(1,3), of "length ns"] by (intro exI [of _ us]) (auto simp: scanned_def)
  next
    case (push t b)
    have "forC ns shuffle_scan_body s1 = (Inr (), s')" using rest push(2) by simp
    from Cons.IH [OF this] obtain us where "ranges s' = ranges s1 @ map (rdata_range (d_packet s1)) us"
      "scanned (d_packet s1) (rec_offsets (d_packet s1) (d_notyouroffset s1) (length ns)) us (rtype s')"
      "ranges s1 \<noteq> [] \<longrightarrow> rtype s' = rtype s1" by blast
    then have us: "ranges s' = ranges s @ map (rdata_range ?p) (t # us)"
      "scanned ?p (rec_offsets ?p (snd (rdata_range ?p t)) (length ns)) us (rtype s')" "rtype s' = rtype s1"
      using p push(4,5) by simp_all
    have later: "\<forall>u \<in> set us. snd (rdata_range ?p t) < u"
      using us(2) rec_offsets_bounds by (auto simp: scanned_def)
    have ts: "rec_offsets ?p (d_notyouroffset s) (length (n # ns)) = t # rec_offsets ?p (snd (rdata_range ?p t)) (length ns)"
      using rec_offsets_next [OF push(1,3), of "length ns"] by simp
    have "scanned ?p (t # rec_offsets ?p (snd (rdata_range ?p t)) (length ns)) (t # us) (rtype s')"
      using later us(2,3) push(3,6,7) unfolding scanned_def by auto
    then show ?thesis unfolding ts using us(1,3) push(8) by (intro exI [of _ "t # us"]) simp
  next
    case stop
    then show ?thesis using rest by (intro exI [of _ "[]"]) (auto simp: scanned_def)
  qed
qed

section \<open>Swapping segments\<close>

lemma forC_inv:
  "(\<And>n s. P s \<Longrightarrow> P (snd (body n s))) \<Longrightarrow> P s \<Longrightarrow> P (snd (forC ns body s))"
proof (induction ns arbitrary: s)
  case (Cons n ns)
  obtain r s1 where "body n s = (r, s1)" by fastforce
  moreover have "P s1" using Cons.prems(1) [of s n] Cons.prems(2) calculation by simp
  ultimately show ?case using Cons by (cases r) (auto simp: bindC_apply)
qed simp

definition slice :: "bytes \<Rightarrow> nat \<times> nat \<Rightarrow> bytes" where
  "slice p r = map ((!) p) [fst r..<snd r]"

definition apart :: "(nat \<times> nat) list \<Rightarrow> bool" where
  "apart ix \<longleftrightarrow> sorted_wrt (\<lambda>a b. snd a \<le> fst b) ix \<and> (\<forall>r \<in> set ix. fst r \<le> snd r)"

text \<open>\<open>q\<close> is \<open>p\<close> with the segments \<open>ix\<close> permuted.\<close>

definition segments_permuted :: "(nat \<times> nat) list \<Rightarrow> bytes \<Rightarrow> bytes \<Rightarrow> bool" where
  "segments_permuted ix p q \<longleftrightarrow> length q = length p \<and>
     (\<forall>i < length p. (\<forall>r \<in> set ix. i < fst r \<or> snd r \<le> i) \<longrightarrow> q ! i = p ! i) \<and>
     mset (map (slice q) ix) = mset (map (slice p) ix)"

lemma segments_permuted_trans:
  "segments_permuted ix p q \<Longrightarrow> segments_permuted ix q r \<Longrightarrow> segments_permuted ix p r"
  by (simp add: segments_permuted_def)

lemma nth_swap_ranges:
  assumes "a + n \<le> b" "b + n \<le> length p" "i < length p"
  shows "swap_ranges p (a, a + n) (b, b + n) ! i =
    (if a \<le> i \<and> i < a + n then p ! (b + (i - a)) else if b \<le> i \<and> i < b + n then p ! (a + (i - b)) else p ! i)"
proof -
  let ?x = "take n (drop a p)" and ?y = "take n (drop b p)"
  have len: "length ?x = n" "length ?y = n" using assms by auto
  have "overwrite (overwrite p a ?y) b ?x ! i = (if b \<le> i \<and> i < b + n then ?x ! (i - b) else overwrite p a ?y ! i)"
    using nth_overwrite [of b ?x "overwrite p a ?y" i] len assms by simp
  moreover have "overwrite p a ?y ! i = (if a \<le> i \<and> i < a + n then ?y ! (i - a) else p ! i)"
    using nth_overwrite [of a ?y p i] len assms by simp
  ultimately show ?thesis using assms by (auto simp: swap_ranges_def)
qed

lemma length_swap_ranges:
  "a + n \<le> b \<Longrightarrow> b + n \<le> length p \<Longrightarrow> length (swap_ranges p (a, a + n) (b, b + n)) = length p"
  by (simp add: swap_ranges_def)

lemma slice_eqI: "(\<And>i. fst r \<le> i \<Longrightarrow> i < snd r \<Longrightarrow> q ! i = p ! i) \<Longrightarrow> slice q r = slice p r"
  by (simp add: slice_def)

lemma apart_nth:
  "apart ix \<Longrightarrow> i < length ix \<Longrightarrow> k < length ix \<Longrightarrow> i \<noteq> k \<Longrightarrow> snd (ix ! k) \<le> fst (ix ! i) \<or> snd (ix ! i) \<le> fst (ix ! k)"
  unfolding apart_def by (cases "i < k") (auto simp: sorted_wrt_iff_nth_less)

lemma swap_slices:
  assumes ix: "apart ix" "\<forall>r \<in> set ix. snd r \<le> length p" and ij: "i < length ix" "j < length ix" "i \<noteq> j"
    and a: "ix ! i = (a, a + n)" and b: "ix ! j = (b, b + n)" and ab: "a + n \<le> b" and k: "k < length ix"
  shows "slice (swap_ranges p (a, a + n) (b, b + n)) (ix ! k) =
    (if k = i then slice p (ix ! j) else if k = j then slice p (ix ! i) else slice p (ix ! k))"
proof -
  let ?q = "swap_ranges p (a, a + n) (b, b + n)"
  have bn: "b + n \<le> length p" using ix(2) ij(2) b by (metis nth_mem snd_conv)
  note q = nth_swap_ranges [OF ab bn]
  consider (i) "k = i" | (j) "k = j" | (other) "k \<noteq> i" "k \<noteq> j" by blast
  then show ?thesis
  proof cases
    case i
    then show ?thesis using a b ab bn ij q by (intro nth_equalityI) (simp_all add: slice_def)
  next
    case j
    then show ?thesis using a b ab bn ij q by (intro nth_equalityI) (simp_all add: slice_def)
  next
    case other
    have "snd (ix ! k) \<le> length p" using ix(2) k by simp
    moreover have "snd (ix ! k) \<le> a \<or> a + n \<le> fst (ix ! k)" "snd (ix ! k) \<le> b \<or> b + n \<le> fst (ix ! k)"
      using apart_nth [OF ix(1) ij(1) k] apart_nth [OF ix(1) ij(2) k] other a b by auto
    ultimately have "slice ?q (ix ! k) = slice p (ix ! k)" using q by (intro slice_eqI) auto
    then show ?thesis using other by simp
  qed
qed

lemma swap_permutes:
  assumes ix: "apart ix" "\<forall>r \<in> set ix. snd r \<le> length p" and ij: "i < length ix" "j < length ix" "i \<noteq> j"
    and a: "ix ! i = (a, a + n)" and b: "ix ! j = (b, b + n)" and ab: "a + n \<le> b"
  shows "segments_permuted ix p (swap_ranges p (a, a + n) (b, b + n))"
proof -
  let ?q = "swap_ranges p (a, a + n) (b, b + n)"
  have bn: "b + n \<le> length p" using ix(2) ij(2) b by (metis nth_mem snd_conv)
  have "map (slice ?q) ix = (map (slice p) ix)[j := slice p (ix ! i), i := slice p (ix ! j)]"
    using ij by (intro nth_equalityI) (simp_all add: nth_list_update swap_slices [OF assms])
  then have "mset (map (slice ?q) ix) = mset (map (slice p) ix)" using ij mset_swap [of i "map (slice p) ix" j] by simp
  moreover have "?q ! k = p ! k" if "k < length p" "\<forall>r \<in> set ix. k < fst r \<or> snd r \<le> k" for k
    using that nth_swap_ranges [OF ab bn that(1)] ij a b by (metis fst_conv leD nth_mem snd_conv)
  ultimately show ?thesis using length_swap_ranges [OF ab bn] by (simp add: segments_permuted_def)
qed

lemma swapInPlace_permutes:
  assumes ix: "apart ix" "\<forall>r \<in> set ix. snd r \<le> length (d_packet s)" and ij: "i < length ix" "j < length ix" "i \<noteq> j"
  shows "segments_permuted ix (d_packet s) (d_packet (snd (swapInPlace (ix ! i) (ix ! j) s)))"
proof -
  have refl: "segments_permuted ix q q" for q by (simp add: segments_permuted_def)
  have main: "segments_permuted ix (d_packet s) (swap_ranges (d_packet s) (ix ! i) (ix ! j))"
    if "i < length ix" "j < length ix" "i \<noteq> j" "int (snd (ix ! i)) - int (fst (ix ! i)) = int (snd (ix ! j)) - int (fst (ix ! j))"
      "fst (ix ! i) < snd (ix ! i)" "snd (ix ! i) \<le> fst (ix ! j)" for i j
  proof -
    let ?n = "snd (ix ! i) - fst (ix ! i)"
    have "ix ! i = (fst (ix ! i), fst (ix ! i) + ?n)" "ix ! j = (fst (ix ! j), fst (ix ! j) + ?n)"
      using that by (auto simp: prod_eq_iff)
    then show ?thesis using swap_permutes [OF ix that(1-3)] that(5,6) by (metis add_diff_inverse_nat leD less_imp_le_nat)
  qed
  show ?thesis
    using main [of i j] main [of j i] ij refl by (auto simp: swapInPlace_def)
qed

section \<open>The whole function\<close>

lemma segments_permuted_refl: "segments_permuted ix p p"
  by (simp add: segments_permuted_def)

lemma rec_offsets_mono: "m \<le> n \<Longrightarrow> set (rec_offsets p off m) \<subseteq> set (rec_offsets p off n)"
proof (induction m arbitrary: off n)
  case (Suc m)
  then obtain k where k: "n = Suc k" "m \<le> k" by (cases n) auto
  note [simp del] = rec_offsets.simps
  show ?case
  proof (cases rule: rec_offsets_cases [of p off m])
    case (last t b)
    then show ?thesis unfolding k(1) by (auto simp: rec_offsets.simps)
  next
    case (more t b)
    have "rec_offsets p off n = t # rec_offsets p (t + 10 + rd16 p (t + 8)) k"
      using more(1-3) unfolding k(1) by (simp add: rec_offsets.simps)
    then show ?thesis using more(4) Suc.IH [OF k(2), of "t + 10 + rd16 p (t + 8)"] by auto
  qed simp
qed simp

lemma scanned_apart:
  assumes "scanned p ts us ty"
  shows "apart (map (rdata_range p) us)" "\<forall>r \<in> set (map (rdata_range p) us). snd r \<le> length p"
  using assms by (auto simp: scanned_def apart_def sorted_wrt_map rdata_range_def elim!: sorted_wrt_mono_rel [rotated])

lemma swaps_permute:
  fixes s :: "(nat \<times> DNSName \<times> (nat \<times> nat) list) mangler_locals"
  assumes "apart ix" "\<forall>r \<in> set ix. snd r \<le> length (d_packet s)"
  shows "segments_permuted ix (d_packet s) (d_packet (snd (forC ns (\<lambda>swapped.
    let swapped_with = pick swapped in
    if swapped \<noteq> swapped_with then
      bindC (liftC (at ix swapped)) (\<lambda>a. bindC (liftC (at ix swapped_with)) (\<lambda>b. bindC (swapInPlace a b) (\<lambda>_. returnC False)))
    else returnC False) s)))"
proof (rule forC_inv [where P = "\<lambda>t. segments_permuted ix (d_packet s) (d_packet t)"])
  fix n and t :: "(nat \<times> DNSName \<times> (nat \<times> nat) list) mangler_locals"
  assume t: "segments_permuted ix (d_packet s) (d_packet t)"
  then have len: "\<forall>r \<in> set ix. snd r \<le> length (d_packet t)" using assms(2) by (simp add: segments_permuted_def)
  have "segments_permuted ix (d_packet s) (d_packet (snd (swapInPlace (ix ! n) (ix ! pick n) t)))"
    if "n < length ix" "pick n < length ix" "n \<noteq> pick n"
    using segments_permuted_trans [OF t swapInPlace_permutes [OF assms(1) len that]] .
  then show "segments_permuted ix (d_packet s) (d_packet (snd ((let swapped_with = pick n in
    if n \<noteq> swapped_with then
      bindC (liftC (at ix n)) (\<lambda>a. bindC (liftC (at ix swapped_with)) (\<lambda>b. bindC (swapInPlace a b) (\<lambda>_. returnC False)))
    else returnC False) t)))"
    using t by (auto simp: Let_def bindC_apply at_def split: prod.split sum.split)
qed (rule segments_permuted_refl)

text \<open>
  Claim C21 (shuffling): whatever the packet and the random numbers, \<^verbatim>\<open>shuffleDNSPacket\<close> permutes the data of
  some records of the packet, all of one type that is A or AAAA and all complete, and changes no
  byte outside them; the length of the packet stays the same.
\<close>

theorem shuffleDNSPacket_permutes:
  "\<exists>us ty. scanned p (record_offsets p) us ty \<and>
     segments_permuted (map (rdata_range p) us) p (shuffleDNSPacket p (dnsheader_of p) pick)"
proof -
  let ?dh = "dnsheader_of p" and ?s = "locals_init p (0 :: nat, DNSName [], [] :: (nat \<times> nat) list)"
  have none: ?thesis if "shuffleDNSPacket p ?dh pick = p"
    using that by (intro exI [of _ "[]"] exI [of _ 0]) (simp add: scanned_def segments_permuted_refl)
  show ?thesis
  proof (cases "length p < 12 \<or> h_ancount ?dh = 1 \<or> question_end p 12 (h_qdcount ?dh) = None")
    case True
    then show ?thesis
      using skip_questions_eq [where s = ?s and n = "h_qdcount ?dh"]
      by (intro none) (auto simp: shuffleDNSPacket_def sizeof_dnsheader_def locals_init_def)
  next
    case False
    then obtain off where off: "question_end p 12 (h_qdcount ?dh) = Some off" and big: "12 \<le> length p" "h_ancount ?dh \<noteq> 1" by auto
    let ?t = "?s\<lparr>d_notyouroffset := off\<rparr>" and ?scan = "forC [0..<h_ancount ?dh] shuffle_scan_body"
    have keeps: "d_packet (snd (?scan ?t)) = p"
      using forC_inv [where P = "\<lambda>s. d_packet s = p" and body = shuffle_scan_body] keeps_scan
      by (simp add: keeps_packet_def locals_init_def)
    have skip: "skip_questions (h_qdcount ?dh) ?s = (Inr (), ?t)"
      using skip_questions_eq [where s = ?s and n = "h_qdcount ?dh"] off by (simp add: locals_init_def)
    show ?thesis
    proof (cases "?scan ?t")
      case (Pair r u)
      show ?thesis
      proof (cases r)
        case (Inl e)
        then show ?thesis using keeps Pair skip big by (intro none) (simp add: shuffleDNSPacket_def sizeof_dnsheader_def)
      next
        case (Inr x)
        then have scan: "?scan ?t = (Inr (), u)" using Pair by simp
        obtain us where us: "ranges u = map (rdata_range p) us" "scanned p (rec_offsets p off (h_ancount ?dh)) us (rtype u)"
          using scan_loop [OF scan] by (auto simp: locals_init_def)
        have sc: "scanned p (record_offsets p) us (rtype u)"
          using us(2) rec_offsets_mono [of "h_ancount ?dh" "numrecords ?dh" p off] off
          by (auto simp: scanned_def record_offsets_def numrecords_def)
        have p: "d_packet u = p" using keeps scan by simp
        obtain ty nm where res: "d_result u = (ty, nm, map (rdata_range p) us)" using us(1) by (metis surjective_pairing)
        have "segments_permuted (map (rdata_range p) us) p (shuffleDNSPacket p ?dh pick)"
          using swaps_permute [OF scanned_apart(1) [OF sc], where s = u and pick = pick] scanned_apart(2) [OF sc] p skip scan big res
          by (simp add: shuffleDNSPacket_def sizeof_dnsheader_def segments_permuted_refl del: upt_conv_Cons)
        then show ?thesis using sc by blast
      qed
    qed
  qed
qed

end
