(* ===== verification/Reader.thy ===== *)
theory Reader
  imports NameWire NameText DnsHeader
begin

text \<open>
  The class \<^verbatim>\<open>PacketReader\<close> of \<^verbatim>\<open>pdns/dnsparser.hh\<close> and \<^verbatim>\<open>pdns/dnsparser.cc\<close>: a cursor over a packet that
  knows the bounds of the record it is in. The content has at most 65535 bytes, which the
  constructor checks, so a 16-bit position that was just read at does not wrap when it is
  advanced; positions are natural numbers and the one place where the source counts on
  wrapping, \<^verbatim>\<open>getUnquotedText\<close>, writes the modulus out. After an exception only the fields other
  than the position and the pointer budget are those of the source.
\<close>

section \<open>State\<close>

record PacketReader =
  d_pointerBudget :: nat
  d_pos :: nat
  d_startrecordpos :: nat
  d_recordlen :: nat
  d_internal :: bool
  d_standalone :: bool
  d_content :: bytes

definition s_MaxPointersPerByte :: nat where
  "s_MaxPointersPerByte = 4"

definition PacketReader_init :: "bytes \<Rightarrow> nat \<Rightarrow> bool \<Rightarrow> bool \<Rightarrow> PacketReader result" where
  "PacketReader_init content initialPos internalRepresentation standalone =
     (if length content > 65535 then Inl (out_of_range ''packet too large'')
      else Inr \<lparr>d_pointerBudget = length content * s_MaxPointersPerByte, d_pos = initialPos, d_startrecordpos = initialPos,
                d_recordlen = length content, d_internal = internalRepresentation, d_standalone = standalone,
                d_content = content\<rparr>)"

definition setPointerBudget :: "nat \<Rightarrow> PacketReader \<Rightarrow> PacketReader" where
  "setPointerBudget maxPointers r = r\<lparr>d_pointerBudget := maxPointers\<rparr>"

definition isWithinRecordBoundaries :: "PacketReader \<Rightarrow> nat \<Rightarrow> nat \<Rightarrow> bool \<Rightarrow> bool" where
  "isWithinRecordBoundaries r initialPosition endPosition canBeOutsideRecordContent =
     (if initialPosition > endPosition then False
      else if canBeOutsideRecordContent \<and> d_recordlen r = 0 then True
      else
        let endOfRecordContent = d_startrecordpos r + d_recordlen r in
        if canBeOutsideRecordContent \<and> initialPosition \<ge> endOfRecordContent then True
        else initialPosition \<ge> d_startrecordpos r \<and> initialPosition \<le> endOfRecordContent \<and> endPosition \<le> endOfRecordContent)"

section \<open>Integers, names and headers\<close>

text \<open>\<^verbatim>\<open>d_content.at(d_pos++)\<close>\<close>

definition pr_next :: "(PacketReader, u8) call" where
  "pr_next = (\<lambda>r. (at (d_content r) (d_pos r), r\<lparr>d_pos := d_pos r + 1\<rparr>))"

definition boundary :: "nat \<Rightarrow> string \<Rightarrow> (PacketReader, unit) call" where
  "boundary n msg = (\<lambda>r.
     if isWithinRecordBoundaries r (d_pos r) (d_pos r + n) False then (Inr (), r) else (Inl (out_of_range msg), r))"

definition pr_get8BitInt :: "(PacketReader, u8) call" where
  "pr_get8BitInt = bindC (boundary 1 ''Attempt to read 8 bit value outside of record'') (\<lambda>_. pr_next)"

definition pr_get16BitInt :: "(PacketReader, nat) call" where
  "pr_get16BitInt =
     bindC (boundary 2 ''Attempt to read 16 bit value outside of record'') (\<lambda>_.
       bindC pr_next (\<lambda>a. bindC pr_next (\<lambda>b. returnC (be16 a b))))"

definition pr_get32BitInt :: "(PacketReader, nat) call" where
  "pr_get32BitInt =
     bindC (boundary 4 ''Attempt to read 32 bit value outside of record'') (\<lambda>_.
       bindC pr_next (\<lambda>a. bindC pr_next (\<lambda>b. bindC pr_next (\<lambda>c. bindC pr_next (\<lambda>d. returnC (be32 a b c d))))))"

definition pr_xfr48BitInt :: "(PacketReader, nat) call" where
  "pr_xfr48BitInt =
     bindC (boundary 6 ''Attempt to read 48 bit value outside of record'') (\<lambda>_.
       bindC pr_next (\<lambda>a. bindC pr_next (\<lambda>b. bindC pr_next (\<lambda>c. bindC pr_next (\<lambda>d. bindC pr_next (\<lambda>e. bindC pr_next (\<lambda>f.
         returnC ((be32 a b c d * 256 + unat e) * 256 + unat f))))))))"

text \<open>The bytes of the 64-bit identifier, in memory order.\<close>

definition pr_xfrNodeOrLocatorID :: "(PacketReader, bytes) call" where
  "pr_xfrNodeOrLocatorID = (\<lambda>r.
     if d_pos r + 8 > length (d_content r) then (Inl (out_of_range ''Attempt to read 64 bit value outside of packet''), r)
     else bindC (boundary 8 ''Attempt to read node or locator ID outside of record'') (\<lambda>_.
       bindC (liftC (at (d_content r) (d_pos r))) (\<lambda>_ r.
         (Inr (take 8 (drop (d_pos r) (d_content r))), r\<lparr>d_pos := d_pos r + 8\<rparr>))) r)"

text \<open>Every exception thrown while reading a name leaves as \<^verbatim>\<open>std::out_of_range\<close>.\<close>

definition pr_getName :: "(PacketReader, DNSName) call" where
  "pr_getName = (\<lambda>r.
     let minOffset = (if d_standalone r then 0 else sizeof_dnsheader); uncompress = (\<not> d_standalone r) in
     case DNSName_from_packet (d_content r) (d_pos r) uncompress False False minOffset (Some (d_pointerBudget r)) of
       Inl e \<Rightarrow> (Inl (out_of_range ''dnsname issue''), r)
     | Inr (name, consumed, budget, _) \<Rightarrow>
         let r' = r\<lparr>d_pos := d_pos r + consumed, d_pointerBudget := (case budget of None \<Rightarrow> d_pointerBudget r | Some b \<Rightarrow> b)\<rparr> in
         if \<not> isWithinRecordBoundaries r (d_pos r) (d_pos r') True then (Inl (out_of_range ''dnsname issue''), r')
         else (Inr name, r'))"

record dnsrecordheader =
  rh_type :: nat
  rh_class :: nat
  rh_ttl :: nat
  rh_clen :: nat

fun read_bytes :: "nat \<Rightarrow> (PacketReader, bytes) call" where
  "read_bytes 0 = returnC []"
| "read_bytes (Suc n) = bindC pr_next (\<lambda>b. bindC (read_bytes n) (\<lambda>bs. returnC (b # bs)))"

definition dnsrecordheader_of :: "bytes \<Rightarrow> dnsrecordheader" where
  "dnsrecordheader_of p =
     \<lparr>rh_type = be16 (p ! 0) (p ! 1), rh_class = be16 (p ! 2) (p ! 3),
      rh_ttl = be32 (p ! 4) (p ! 5) (p ! 6) (p ! 7), rh_clen = be16 (p ! 8) (p ! 9)\<rparr>"

definition getDnsrecordheader :: "(PacketReader, dnsrecordheader) call" where
  "getDnsrecordheader =
     bindC (read_bytes 10) (\<lambda>p r.
       let ah = dnsrecordheader_of p;
           r' = r\<lparr>d_startrecordpos := d_pos r, d_recordlen := rh_clen ah\<rparr> in
       if d_pos r' > length (d_content r') \<or> length (d_content r') - d_pos r' < d_recordlen r'
       then (Inl (out_of_range ''DNS record length goes beyond the packet's content''), r')
       else (Inr ah, r'))"

text \<open>\<open>dest\<close> is the vector before the call.\<close>

definition copyRecord :: "bytes \<Rightarrow> nat \<Rightarrow> (PacketReader, bytes) call" where
  "copyRecord dest len = (\<lambda>r.
     if len = 0 then (Inr dest, r)
     else if d_pos r + len > length (d_content r) then (Inl (out_of_range ''Attempt to copy outside of packet''), r)
     else if \<not> isWithinRecordBoundaries r (d_pos r) (d_pos r + len) False
     then (Inl (out_of_range ''Attempt to copy outside of record''), r)
     else read_bytes len r)"

definition copyRecord_raw :: "nat \<Rightarrow> (PacketReader, bytes) call" where
  "copyRecord_raw len = (\<lambda>r.
     if d_pos r + len > length (d_content r) then (Inl (out_of_range ''Attempt to copy outside of packet''), r)
     else if \<not> isWithinRecordBoundaries r (d_pos r) (d_pos r + len) False
     then (Inl (out_of_range ''Attempt to copy outside of record''), r)
     else bindC (liftC (at (d_content r) (d_pos r))) (\<lambda>_ r.
       (Inr (take len (drop (d_pos r) (d_content r))), r\<lparr>d_pos := d_pos r + len\<rparr>)) r)"

definition pr_eof :: "(PacketReader, bool) call" where
  "pr_eof = (\<lambda>r.
     let endOfRecordContent = d_startrecordpos r + d_recordlen r in
     if d_pos r > endOfRecordContent
     then (Inl (out_of_range ''Looking for EOF in PacketReader but we are already beyond the record content's end''), r)
     else (Inr (d_pos r = endOfRecordContent), r))"

definition consumeRemaining :: "(PacketReader, unit) call" where
  "consumeRemaining = putC (\<lambda>r. r\<lparr>d_pos := d_startrecordpos r + d_recordlen r\<rparr>)"

definition getPosition :: "PacketReader \<Rightarrow> nat" where
  "getPosition r = d_pos r"

definition pr_skip :: "nat \<Rightarrow> (PacketReader, unit) call" where
  "pr_skip n = (\<lambda>r.
     if \<not> isWithinRecordBoundaries r (d_pos r) (d_pos r + n) False
     then (Inl (out_of_range ''Attempt to skip bytes farther than the record's end''), r)
     else if d_pos r + n > length (d_content r)
     then (Inl (out_of_range ''Attempt to skip bytes farther than the packet's end''), r)
     else (Inr (), r\<lparr>d_pos := d_pos r + n\<rparr>))"

section \<open>Text and blobs\<close>

definition txtEscape_char :: "u8 \<Rightarrow> bytes" where
  "txtEscape_char letter =
     (if letter \<ge> 127 \<or> letter < 32 then 92 # decimal3 letter
      else if letter = 34 \<or> letter = 92 then [92, letter]
      else [letter])"

definition txtEscape :: "bytes \<Rightarrow> bytes" where
  "txtEscape name = concat (map txtEscape_char name)"

text \<open>The characters between the pointers \<^verbatim>\<open>&d_content.at(a)\<close> and \<^verbatim>\<open>&d_content.at(b) + 1\<close>.\<close>

definition content_range :: "PacketReader \<Rightarrow> nat \<Rightarrow> nat \<Rightarrow> bytes result" where
  "content_range r a b =
     bindR (at (d_content r) a) (\<lambda>_. bindR (at (d_content r) b) (\<lambda>_. Inr (take (b + 1 - a) (drop a (d_content r)))))"

definition text_segment :: "bool \<Rightarrow> (PacketReader, bytes) call" where
  "text_segment lenField =
     bindC (if lenField then bindC pr_next (\<lambda>b. returnC (unat b))
            else getC (\<lambda>r. d_startrecordpos r + d_recordlen r - d_pos r)) (\<lambda>labellen r.
       if labellen > d_startrecordpos r + d_recordlen r - d_pos r
       then (Inl (out_of_range ''label length in text record exceeds record boundary''), r)
       else bindC (if labellen \<noteq> 0
                   then bindC (liftC (content_range r (d_pos r) (d_pos r + labellen - 1))) (\<lambda>val. returnC (txtEscape val))
                   else returnC []) (\<lambda>txt r. (Inr (34 # txt @ [34]), r\<lparr>d_pos := d_pos r + labellen\<rparr>)) r)"

lemma text_segment_progress:
  "text_segment lenField r = (Inr t, r') \<Longrightarrow> d_pos r < d_startrecordpos r + d_recordlen r \<Longrightarrow>
   d_pos r < d_pos r' \<and> d_startrecordpos r' = d_startrecordpos r \<and> d_recordlen r' = d_recordlen r"
  by (cases lenField) (auto simp: text_segment_def bindC_Inr pr_next_def content_range_def split: if_splits)

function getText_loop :: "bool \<Rightarrow> bool \<Rightarrow> bytes \<Rightarrow> (PacketReader, bytes) call" where
  "getText_loop multi lenField ret r =
     (if d_pos r < d_startrecordpos r + d_recordlen r then
        bindC (text_segment lenField) (\<lambda>txt r1.
          let ret1 = (if ret \<noteq> [] then ret @ [32] else ret) @ txt in
          if multi then getText_loop multi lenField ret1 r1 else (Inr ret1, r1)) r
      else (Inr ret, r))"
  by pat_completeness auto
termination
  by (relation "measure (\<lambda>(m, l, t, r). d_startrecordpos r + d_recordlen r - d_pos r)")
    (simp, fastforce dest: text_segment_progress)

declare getText_loop.simps [simp del]

definition getText :: "bool \<Rightarrow> bool \<Rightarrow> (PacketReader, bytes) call" where
  "getText multi lenField =
     bindC (getText_loop multi lenField []) (\<lambda>ret. returnC (if ret = [] \<and> \<not> lenField then [34, 34] else ret))"

definition getUnquotedText :: "bool \<Rightarrow> (PacketReader, bytes) call" where
  "getUnquotedText lenField = (\<lambda>r.
     bindC (if lenField
            then bindC (liftC (at (d_content r) (d_pos r))) (\<lambda>b. returnC ((unat b + d_pos r + 1) mod 65536))
            else returnC (d_recordlen r)) (\<lambda>stop_at r.
       let recordEnd = (d_startrecordpos r + d_recordlen r) mod 65536 in
       if stop_at < d_pos r then (Inl (out_of_range ''getUnquotedText out of record range''), r)
       else if stop_at > recordEnd then (Inl (out_of_range ''getUnquotedText: length exceeds record boundary''), r)
       else if stop_at = d_pos r then (Inr [], r)
       else
         let pos = d_pos r + 1 in
         if pos > length (d_content r) then (Inl (out_of_range ''substr''), r\<lparr>d_pos := pos\<rparr>)
         else (Inr (take (stop_at - pos) (drop pos (d_content r))), r\<lparr>d_pos := stop_at\<rparr>)) r)"

definition pr_xfrBlob :: "(PacketReader, bytes) call" where
  "pr_xfrBlob = (\<lambda>r.
     let e = d_startrecordpos r + d_recordlen r in
     if d_recordlen r \<noteq> 0 \<and> d_pos r \<noteq> e then
       (if d_pos r > e then (Inl (out_of_range ''xfrBlob out of range''), r)
        else case content_range r (d_pos r) (e - 1) of
               Inl _ \<Rightarrow> (Inl (out_of_range ''xfrBlob out of range''), r)
             | Inr blob \<Rightarrow> (Inr blob, r\<lparr>d_pos := e\<rparr>))
     else (Inr [], r\<lparr>d_pos := e\<rparr>))"

definition pr_xfrBlob_len :: "int \<Rightarrow> (PacketReader, bytes) call" where
  "pr_xfrBlob_len len = (\<lambda>r.
     if len \<noteq> 0 then
       (if len < 0 then (Inl (out_of_range ''xfrBlob out of range (negative length)''), r)
        else
          let available = int (d_startrecordpos r + d_recordlen r) - int (d_pos r) in
          if available < len then (Inl (out_of_range ''xfrBlob out of range (excessive length)''), r)
          else bindC (liftC (content_range r (d_pos r) (d_pos r + nat len - 1))) (\<lambda>blob r.
            (Inr blob, r\<lparr>d_pos := d_pos r + nat len\<rparr>)) r)
     else (Inr [], r))"

section \<open>Safety of sequences of reads\<close>

text \<open>One successful read of record data. A name counts as record data when it starts before the end of the record.\<close>

inductive content_step :: "PacketReader \<Rightarrow> PacketReader \<Rightarrow> bool" where
  get8: "pr_get8BitInt r = (Inr v8, r') \<Longrightarrow> content_step r r'"
| get16: "pr_get16BitInt r = (Inr v, r') \<Longrightarrow> content_step r r'"
| get32: "pr_get32BitInt r = (Inr v, r') \<Longrightarrow> content_step r r'"
| xfr48: "pr_xfr48BitInt r = (Inr v, r') \<Longrightarrow> content_step r r'"
| xfrID: "pr_xfrNodeOrLocatorID r = (Inr bs, r') \<Longrightarrow> content_step r r'"
| name: "pr_getName r = (Inr n, r') \<Longrightarrow> d_pos r < d_startrecordpos r + d_recordlen r \<Longrightarrow> content_step r r'"
| copy: "copyRecord dest len r = (Inr bs, r') \<Longrightarrow> content_step r r'"
| copy_raw: "copyRecord_raw len r = (Inr bs, r') \<Longrightarrow> content_step r r'"
| skip: "pr_skip len r = (Inr u, r') \<Longrightarrow> content_step r r'"
| consume: "consumeRemaining r = (Inr u, r') \<Longrightarrow> content_step r r'"
| quoted: "getText multi lenField r = (Inr bs, r') \<Longrightarrow> content_step r r'"
| unquoted: "getUnquotedText lenField r = (Inr bs, r') \<Longrightarrow> content_step r r'"
| blob: "pr_xfrBlob r = (Inr bs, r') \<Longrightarrow> content_step r r'"
| blob_len: "pr_xfrBlob_len n r = (Inr bs, r') \<Longrightarrow> content_step r r'"

inductive content_steps :: "PacketReader \<Rightarrow> PacketReader \<Rightarrow> bool" where
  none: "content_steps r r"
| more: "content_steps r s \<Longrightarrow> content_step s t \<Longrightarrow> content_steps r t"

text \<open>One successful call of any kind: also the owner name and the header of a record.\<close>

inductive reader_step :: "PacketReader \<Rightarrow> PacketReader \<Rightarrow> bool" where
  content: "content_step r r' \<Longrightarrow> reader_step r r'"
| owner: "pr_getName r = (Inr n, r') \<Longrightarrow> reader_step r r'"
| header: "getDnsrecordheader r = (Inr ah, r') \<Longrightarrow> reader_step r r'"

inductive reader_steps :: "PacketReader \<Rightarrow> PacketReader \<Rightarrow> bool" where
  none: "reader_steps r r"
| more: "reader_steps r s \<Longrightarrow> reader_step s t \<Longrightarrow> reader_steps r t"

definition reader_inv :: "PacketReader \<Rightarrow> bool" where
  "reader_inv r \<longleftrightarrow> length (d_content r) \<le> 65535 \<and> d_pos r \<le> length (d_content r) \<and>
     d_startrecordpos r + d_recordlen r \<le> length (d_content r)"

text \<open>What a call may change: the position, inside the content, and the budget, downwards.\<close>

definition advances :: "PacketReader \<Rightarrow> PacketReader \<Rightarrow> bool" where
  "advances r r' \<longleftrightarrow> d_content r' = d_content r \<and> d_standalone r' = d_standalone r \<and> d_internal r' = d_internal r \<and>
     d_pointerBudget r' \<le> d_pointerBudget r \<and> reader_inv r'"

text \<open>The position is inside the data of the current record; a read of record data keeps the record and moves forwards in it.\<close>

definition in_record :: "PacketReader \<Rightarrow> bool" where
  "in_record r \<longleftrightarrow> d_startrecordpos r \<le> d_pos r \<and> d_pos r \<le> d_startrecordpos r + d_recordlen r"

definition stays_in_record :: "PacketReader \<Rightarrow> PacketReader \<Rightarrow> bool" where
  "stays_in_record r r' \<longleftrightarrow> advances r r' \<and> d_startrecordpos r' = d_startrecordpos r \<and> d_recordlen r' = d_recordlen r \<and>
     d_pos r \<le> d_pos r' \<and> (in_record r \<longrightarrow> in_record r')"

named_theorems reader_ops \<open>unfolding of the reading operations\<close>

lemmas [reader_ops] = pr_xfrNodeOrLocatorID_def
  copyRecord_raw_def pr_skip_def consumeRemaining_def pr_xfrBlob_len_def

lemma pr_next_Inr:
  "pr_next r = (Inr b, r') \<longleftrightarrow> d_pos r < length (d_content r) \<and> b = d_content r ! d_pos r \<and> r' = r\<lparr>d_pos := d_pos r + 1\<rparr>"
  by (auto simp: pr_next_def at_Inr_iff)

lemma boundary_Inr:
  "boundary n msg r = (Inr u, r') \<longleftrightarrow>
   r' = r \<and> d_startrecordpos r \<le> d_pos r \<and> d_pos r + n \<le> d_startrecordpos r + d_recordlen r"
  by (auto simp: boundary_def isWithinRecordBoundaries_def Let_def)

lemma read_bytes_Inr:
  "read_bytes n r = (Inr bs, r') \<longleftrightarrow>
   (n = 0 \<or> d_pos r + n \<le> length (d_content r)) \<and> bs = take n (drop (d_pos r) (d_content r)) \<and> r' = r\<lparr>d_pos := d_pos r + n\<rparr>"
proof (induction n arbitrary: r bs)
  case (Suc n)
  have eq: "d_pos r < length (d_content r) \<Longrightarrow>
      drop (d_pos r) (d_content r) = d_content r ! d_pos r # drop (Suc (d_pos r)) (d_content r)"
    by (rule Cons_nth_drop_Suc [symmetric])
  show ?case by (auto simp: bindC_Inr pr_next_Inr Suc.IH eq)
qed auto

lemma read_bytes_numeral:
  "read_bytes (numeral k) = bindC pr_next (\<lambda>b. bindC (read_bytes (pred_numeral k)) (\<lambda>bs. returnC (b # bs)))"
  by (simp add: numeral_eq_Suc)

text \<open>The integers as fixed-width reads.\<close>

lemma get_as_read:
  "pr_get8BitInt = bindC (boundary 1 ''Attempt to read 8 bit value outside of record'') (\<lambda>_.
     bindC (read_bytes 1) (\<lambda>bs. returnC (bs ! 0)))"
  "pr_get16BitInt = bindC (boundary 2 ''Attempt to read 16 bit value outside of record'') (\<lambda>_.
     bindC (read_bytes 2) (\<lambda>bs. returnC (be16 (bs ! 0) (bs ! 1))))"
  "pr_get32BitInt = bindC (boundary 4 ''Attempt to read 32 bit value outside of record'') (\<lambda>_.
     bindC (read_bytes 4) (\<lambda>bs. returnC (be32 (bs ! 0) (bs ! 1) (bs ! 2) (bs ! 3))))"
  "pr_xfr48BitInt = bindC (boundary 6 ''Attempt to read 48 bit value outside of record'') (\<lambda>_.
     bindC (read_bytes 6) (\<lambda>bs. returnC ((be32 (bs ! 0) (bs ! 1) (bs ! 2) (bs ! 3) * 256 + unat (bs ! 4)) * 256 + unat (bs ! 5))))"
  by (simp_all add: pr_get8BitInt_def pr_get16BitInt_def pr_get32BitInt_def pr_xfr48BitInt_def read_bytes_numeral
      bindC_assoc bindC_returnC bindC_returnC_right del: returnC_apply)

text \<open>Reading \<open>n\<close> bytes inside the record.\<close>

definition within :: "nat \<Rightarrow> PacketReader \<Rightarrow> bool" where
  "within n r \<longleftrightarrow> d_startrecordpos r \<le> d_pos r \<and> d_pos r + n \<le> d_startrecordpos r + d_recordlen r \<and> d_pos r + n \<le> length (d_content r)"

lemma bounded_read_Inr:
  "0 < n \<Longrightarrow> bindC (boundary n msg) (\<lambda>_. bindC (read_bytes n) (\<lambda>bs. returnC (f bs))) r = (Inr v, r') \<longleftrightarrow>
   within n r \<and> v = f (take n (drop (d_pos r) (d_content r))) \<and> r' = r\<lparr>d_pos := d_pos r + n\<rparr>"
  by (auto simp: bindC_Inr boundary_Inr read_bytes_Inr within_def)

lemma get8_Inr:
  "pr_get8BitInt r = (Inr v, r') \<longleftrightarrow> within 1 r \<and> v = d_content r ! d_pos r \<and> r' = r\<lparr>d_pos := d_pos r + 1\<rparr>"
  unfolding get_as_read by (subst bounded_read_Inr) (auto simp: within_def)

lemma get16_Inr:
  "pr_get16BitInt r = (Inr v, r') \<longleftrightarrow> within 2 r \<and> v = be16 (d_content r ! d_pos r) (d_content r ! (d_pos r + 1)) \<and>
   r' = r\<lparr>d_pos := d_pos r + 2\<rparr>"
  unfolding get_as_read by (subst bounded_read_Inr) (auto simp: within_def)

lemma get32_Inr:
  "pr_get32BitInt r = (Inr v, r') \<longleftrightarrow> within 4 r \<and>
   v = be32 (d_content r ! d_pos r) (d_content r ! (d_pos r + 1)) (d_content r ! (d_pos r + 2)) (d_content r ! (d_pos r + 3)) \<and>
   r' = r\<lparr>d_pos := d_pos r + 4\<rparr>"
  unfolding get_as_read by (subst bounded_read_Inr) (auto simp: within_def)

lemma get48_Inr:
  "pr_xfr48BitInt r = (Inr v, r') \<longleftrightarrow> within 6 r \<and>
   v = (be32 (d_content r ! d_pos r) (d_content r ! (d_pos r + 1)) (d_content r ! (d_pos r + 2)) (d_content r ! (d_pos r + 3)) * 256 +
     unat (d_content r ! (d_pos r + 4))) * 256 + unat (d_content r ! (d_pos r + 5)) \<and>
   r' = r\<lparr>d_pos := d_pos r + 6\<rparr>"
  unfolding get_as_read by (subst bounded_read_Inr) (auto simp: within_def)

lemma content_range_Inr:
  "content_range r a b = Inr bs \<longleftrightarrow>
   a < length (d_content r) \<and> b < length (d_content r) \<and> bs = take (b + 1 - a) (drop a (d_content r))"
  by (auto simp: content_range_def bindR_Inr_iff at_Inr_iff)

fun budget_le :: "nat option \<Rightarrow> nat option \<Rightarrow> bool" where
  "budget_le b' None \<longleftrightarrow> b' = None"
| "budget_le b' (Some n) \<longleftrightarrow> (\<exists>m \<le> n. b' = Some m)"

lemma budget_le_refl [simp]: "budget_le b b"
  by (cases b) auto

lemma budget_le_dec [simp]: "budget_le (map_option (\<lambda>n. n - 1) b) b"
  by (cases b) auto

lemma budget_le_trans: "budget_le a b \<Longrightarrow> budget_le b c \<Longrightarrow> budget_le a c"
  by (cases b; cases c) auto

lemma packetParser_shape:
  assumes "packetParser view off u d m c bud st = Inr (p, bud', st')" "parsePacketUncompressed view off u st = Inr (e, st1)"
    "e < length view"
  shows "p = e + 1 \<and> budget_le bud' bud \<or>
    e + 1 < length view \<and> p = e + 2 \<and>
      (\<exists>np c' b1 q st2. np < off \<and> packetParser view np True (d + 1) m c' b1 st1 = Inr (q, bud', st2) \<and> budget_le b1 bud)"
proof -
  obtain c' b1 where b1: "budget_le b1 bud" and tail: "bindR (Inr (view ! e)) (\<lambda>labellen.
      if labellen \<noteq> 0 \<and> e + 1 < length view then
        (if labellen < 0xc0 then Inl (range_error ''Invalid label byte during decompression'')
         else if \<not> u then Inl (range_error ''Found compressed label, instructed not to follow'')
         else bindR (at view (e + 1)) (\<lambda>low.
           let newpos = unat (labellen AND NOT 0xc0) * 256 + unat low in
           if newpos \<ge> off then Inl (range_error ''Found a forward reference during label decompression'')
           else if newpos < m then Inl (range_error ''Invalid label position during decompression'')
           else if d + 1 > s_maxPointersPerName
           then Inl (range_error ''Abort label decompression after too many redirects'')
           else bindR (packetParser view newpos True (d + 1) m c' b1 st1)
                  (\<lambda>(_, budget2, storage2). Inr (e + 2, budget2, if storage2 = [] then [0] else storage2))))
      else Inr (e + 1, b1, if st1 = [] then [0] else st1)) = Inr (p, bud', st')"
    using assms(1) that [of "map_option (\<lambda>n. n - 1) bud" "c + 1"] that [of bud 0]
    by (subst (asm) packetParser.simps) (auto simp only: assms(2) bindR_simps prod.case at_simps(1) [OF assms(3)]
        budget_le_refl budget_le_dec split: if_splits)
  show ?thesis
  proof (cases "view ! e = 0 \<or> length view \<le> e + 1")
    case True
    then show ?thesis using tail b1 by auto
  next
    case False
    let ?np = "unat (view ! e AND NOT 0xc0) * 256 + unat (view ! (e + 1))"
    have "?np < off" "\<exists>q st2. packetParser view ?np True (d + 1) m c' b1 st1 = Inr (q, bud', st2)" "p = e + 2"
      using tail False by (auto simp: Let_def bindR_Inr_iff split: if_splits)
    then show ?thesis using False b1 by (meson not_le)
  qed
qed

lemma packetParser_bounds:
  "packetParser view off u d m c bud st = Inr (p, bud', st') \<Longrightarrow> p \<le> length view \<and> off < p \<and> budget_le bud' bud"
proof (induction off arbitrary: u d c bud st p bud' st' rule: less_induct)
  case (less off)
  obtain e st1 where e: "parsePacketUncompressed view off u st = Inr (e, st1)"
    using less.prems by (subst (asm) packetParser.simps) (auto simp: bindR_Inr_iff split: if_splits)
  have lt: "e < length view" using uncompressed_position [OF e] .
  have le: "off \<le> e"
    using e by (auto simp: parsePacketUncompressed_def Let_def bindR_Inr_iff dest!: loop_sound seg_bounds split: if_splits)
  from packetParser_shape [OF less.prems e lt] show ?case
  proof (elim disjE conjE exE)
    fix np c' b1 q st2
    assume np: "np < off" and rec: "packetParser view np True (d + 1) m c' b1 st1 = Inr (q, bud', st2)"
      and rest: "budget_le b1 bud" "e + 1 < length view" "p = e + 2"
    then show ?thesis using less.IH [OF np rec] le budget_le_trans by auto
  qed (use lt le in auto)
qed

lemma getName_Inr:
  assumes "pr_getName r = (Inr n, r')"
  shows "isWithinRecordBoundaries r (d_pos r) (d_pos r') True \<and> d_pos r < d_pos r' \<and> d_pos r' \<le> length (d_content r) \<and>
    (\<exists>b \<le> d_pointerBudget r. r' = r\<lparr>d_pos := d_pos r', d_pointerBudget := b\<rparr>)"
proof -
  obtain consumed bud' qt qc where from_packet: "DNSName_from_packet (d_content r) (d_pos r) (\<not> d_standalone r) False False
      (if d_standalone r then 0 else sizeof_dnsheader) (Some (d_pointerBudget r)) = Inr (n, consumed, bud', qt, qc)"
    and r': "r' = r\<lparr>d_pos := d_pos r + consumed, d_pointerBudget := (case bud' of None \<Rightarrow> d_pointerBudget r | Some b \<Rightarrow> b)\<rparr>"
    and inside: "isWithinRecordBoundaries r (d_pos r) (d_pos r') True"
    using assms by (auto simp: pr_getName_def Let_def split: sum.splits if_splits)
  from from_packet obtain p st where "packetParser (d_content r) (d_pos r) (\<not> d_standalone r) 0
      (if d_standalone r then 0 else sizeof_dnsheader) 0 (Some (d_pointerBudget r)) [] = Inr (p, bud', st)"
    and "consumed = p - d_pos r"
    by (auto simp: DNSName_from_packet_def bindR_Inr_iff split: if_splits)
  with packetParser_bounds [OF this(1)] show ?thesis using r' inside by auto
qed

lemma getName_advances:
  assumes "pr_getName r = (Inr n, r')" "reader_inv r"
  shows "advances r r'"
proof -
  obtain q b where "r' = r\<lparr>d_pos := q, d_pointerBudget := b\<rparr>" "b \<le> d_pointerBudget r" "q \<le> length (d_content r)"
    using getName_Inr [OF assms(1)] by blast
  then show ?thesis using assms(2) by (simp add: advances_def reader_inv_def)
qed

lemma getName_in_record:
  assumes "pr_getName r = (Inr n, r')" "d_pos r < d_startrecordpos r + d_recordlen r" "reader_inv r"
  shows "stays_in_record r r'"
proof -
  obtain q b where r': "r' = r\<lparr>d_pos := q, d_pointerBudget := b\<rparr>" "isWithinRecordBoundaries r (d_pos r) q True" "d_pos r < q"
    using getName_Inr [OF assms(1)] by auto
  then have "q \<le> d_startrecordpos r + d_recordlen r" if "d_startrecordpos r \<le> d_pos r"
    using assms(2) that by (auto simp: isWithinRecordBoundaries_def Let_def split: if_splits)
  then show ?thesis using getName_advances [OF assms(1,3)] r' by (simp add: stays_in_record_def in_record_def)
qed

lemma text_segment_Inr:
  assumes "text_segment lenField r = (Inr t, r')" "reader_inv r" "d_pos r < d_startrecordpos r + d_recordlen r"
  shows "stays_in_record r r'"
  using assms
  by (cases lenField) (auto simp: text_segment_def bindC_Inr pr_next_Inr content_range_Inr stays_in_record_def in_record_def
      advances_def reader_inv_def split: if_splits)

lemma advances_trans: "advances r s \<Longrightarrow> advances s t \<Longrightarrow> advances r t"
  by (simp add: advances_def)

lemma stays_in_record_refl: "reader_inv r \<Longrightarrow> stays_in_record r r"
  by (simp add: stays_in_record_def advances_def)

lemma stays_in_record_trans: "stays_in_record r s \<Longrightarrow> stays_in_record s t \<Longrightarrow> stays_in_record r t"
  unfolding stays_in_record_def using advances_trans by auto

lemma getText_loop_in_record:
  "getText_loop multi lenField ret r = (Inr t, r') \<Longrightarrow> reader_inv r \<Longrightarrow> stays_in_record r r'"
proof (induction multi lenField ret r rule: getText_loop.induct)
  case (1 multi lenField ret r)
  show ?case
  proof (cases "d_pos r < d_startrecordpos r + d_recordlen r")
    case True
    obtain tx r1 where seg: "text_segment lenField r = (Inr tx, r1)"
      using "1.prems"(1) True by (subst (asm) getText_loop.simps) (auto simp: bindC_Inr)
    note adv = text_segment_Inr [OF seg "1.prems"(2) True]
    have inv: "reader_inv r1" using adv by (simp add: stays_in_record_def advances_def)
    show ?thesis
    proof (cases multi)
      case multi: True
      have "getText_loop multi lenField ((if ret \<noteq> [] then ret @ [32] else ret) @ tx) r1 = (Inr t, r')"
        using "1.prems"(1) True seg multi by (subst (asm) getText_loop.simps) (simp add: Let_def)
      from "1.IH" [OF True seg refl multi this inv] show ?thesis by (rule stays_in_record_trans [OF adv])
    next
      case False
      then show ?thesis using "1.prems"(1) True seg adv by (subst (asm) getText_loop.simps) (simp add: Let_def)
    qed
  next
    case False
    then show ?thesis using "1.prems" stays_in_record_refl by (subst (asm) getText_loop.simps) simp
  qed
qed

lemma getUnquotedText_in_record:
  assumes "getUnquotedText lenField r = (Inr bs, r')" "reader_inv r"
  shows "stays_in_record r r'"
  using assms
  by (cases lenField) (auto simp: getUnquotedText_def bindC_Inr at_Inr_iff Let_def stays_in_record_def in_record_def advances_def reader_inv_def
      split: if_splits)

lemma getDnsrecordheader_Inr:
  assumes "getDnsrecordheader r = (Inr ah, r')"
  shows "ah = dnsrecordheader_of (take 10 (drop (d_pos r) (d_content r))) \<and>
    d_pos r + 10 + rh_clen ah \<le> length (d_content r) \<and>
    r' = r\<lparr>d_pos := d_pos r + 10, d_startrecordpos := d_pos r + 10, d_recordlen := rh_clen ah\<rparr>"
  using assms by (auto simp: getDnsrecordheader_def bindC_Inr read_bytes_Inr Let_def split: if_splits)

text \<open>
  A read of record data stays in the record when it starts there. \<^verbatim>\<open>consumeRemaining\<close> and \<^verbatim>\<open>xfrBlob\<close> jump to the end of the record
  wherever they start.
\<close>

lemma content_step_advances: "content_step r r' \<Longrightarrow> reader_inv r \<Longrightarrow> advances r r'"
proof (induction rule: content_step.induct)
  case (copy dest len r bs r')
  then show ?case by (auto simp: copyRecord_def read_bytes_Inr advances_def reader_inv_def split: if_splits)
next
  case (quoted multi lenField r bs r')
  then show ?case by (auto simp: getText_def bindC_Inr stays_in_record_def dest: getText_loop_in_record)
next
  case (name r n r')
  then show ?case by (intro getName_advances)
next
  case (unquoted lenField r bs r')
  then show ?case using getUnquotedText_in_record by (auto simp: stays_in_record_def)
next
  case (blob r bs r')
  then show ?case
    by (auto simp: pr_xfrBlob_def Let_def content_range_Inr advances_def reader_inv_def split: if_splits sum.splits)
qed (auto simp: reader_ops get8_Inr get16_Inr get32_Inr get48_Inr within_def bindC_Inr boundary_Inr content_range_Inr advances_def reader_inv_def
    split: if_splits)

lemma content_step_in_record: "content_step r r' \<Longrightarrow> reader_inv r \<Longrightarrow> in_record r \<Longrightarrow> stays_in_record r r'"
proof (induction rule: content_step.induct)
  case (copy dest len r bs r')
  then show ?case
    by (auto simp: copyRecord_def read_bytes_Inr stays_in_record_def in_record_def advances_def reader_inv_def isWithinRecordBoundaries_def Let_def
        split: if_splits)
next
  case (quoted multi lenField r bs r')
  then show ?case by (auto simp: getText_def bindC_Inr dest: getText_loop_in_record)
next
  case (name r n r')
  then show ?case by (intro getName_in_record)
next
  case (unquoted lenField r bs r')
  then show ?case by (intro getUnquotedText_in_record)
next
  case (blob r bs r')
  then show ?case
    by (auto simp: pr_xfrBlob_def Let_def content_range_Inr stays_in_record_def in_record_def advances_def reader_inv_def split: if_splits sum.splits)
qed (auto simp: reader_ops get8_Inr get16_Inr get32_Inr get48_Inr within_def bindC_Inr boundary_Inr content_range_Inr
    stays_in_record_def in_record_def advances_def reader_inv_def isWithinRecordBoundaries_def Let_def
    split: if_splits)

lemma content_steps_in_record: "content_steps r r' \<Longrightarrow> reader_inv r \<Longrightarrow> in_record r \<Longrightarrow> stays_in_record r r'"
proof (induction rule: content_steps.induct)
  case (more r s t)
  then have s: "stays_in_record r s" by simp
  then have "reader_inv s" "in_record s" using more.prems by (simp_all add: stays_in_record_def advances_def)
  then show ?case using stays_in_record_trans [OF s content_step_in_record [OF more.hyps(2)]] by simp
qed (simp add: stays_in_record_refl)

lemma reader_step_advances: "reader_step r r' \<Longrightarrow> reader_inv r \<Longrightarrow> advances r r'"
proof (induction rule: reader_step.induct)
  case (header r ah r')
  then show ?case using getDnsrecordheader_Inr [of r ah r'] by (auto simp: advances_def reader_inv_def)
qed (simp_all add: content_step_advances getName_advances)

lemma reader_steps_advances: "reader_steps r r' \<Longrightarrow> reader_inv r \<Longrightarrow> advances r r'"
proof (induction rule: reader_steps.induct)
  case (more r s t)
  then have "advances r s" by simp
  moreover have "advances s t" using reader_step_advances [OF more.hyps(2)] calculation by (simp add: advances_def)
  ultimately show ?case by (rule advances_trans)
qed (simp add: advances_def)

text \<open>
  Claim C20 (reads stay inside the record and the packet): once the header of a record has been read, any
  sequence of successful reads of record data leaves the position inside the data of that
  record, from its first byte to its \<^verbatim>\<open>RDLENGTH\<close>-th, and never moves back to before it. After any further sequence of
  successful calls, owner names and headers of other records included, the position and the
  bounds of the then current record are inside the packet; no call changes the packet or raises
  the budget of compression pointers. The offsets that arrive from the network (label lengths, text
  lengths, the record length itself) are arbitrary. A name is record data when it starts before the end
  of the record: at the end \<^verbatim>\<open>getName\<close> takes it for the owner name of the next record and only
  the bounds of the packet hold.
\<close>

theorem PacketReader_stays_inside:
  assumes "length (d_content r) \<le> 65535" "getDnsrecordheader r = (Inr ah, r1)" "content_steps r1 s" "reader_steps s r'"
  shows "d_startrecordpos s = d_pos r + 10 \<and> d_recordlen s = rh_clen ah \<and>
    d_pos r + 10 \<le> d_pos s \<and> d_pos s \<le> d_pos r + 10 + rh_clen ah \<and>
    d_pos r' \<le> length (d_content r') \<and> d_startrecordpos r' + d_recordlen r' \<le> length (d_content r') \<and>
    d_content r' = d_content r \<and> d_pointerBudget r' \<le> d_pointerBudget r"
proof -
  have r1: "reader_inv r1" "in_record r1" "d_startrecordpos r1 = d_pos r + 10" "d_recordlen r1 = rh_clen ah"
    "d_content r1 = d_content r" "d_pointerBudget r1 = d_pointerBudget r"
    using assms(1) getDnsrecordheader_Inr [OF assms(2)] by (auto simp: reader_inv_def in_record_def)
  have s: "stays_in_record r1 s" using content_steps_in_record [OF assms(3) r1(1,2)] .
  then have "advances s r'" using reader_steps_advances [OF assms(4)] by (simp add: stays_in_record_def advances_def)
  then show ?thesis using s r1 by (auto simp: stays_in_record_def in_record_def advances_def reader_inv_def)
qed

text \<open>A record of two bytes, followed by the owner name of another one.\<close>

definition example_reader :: PacketReader where
  "example_reader =
     \<lparr>d_pointerBudget = 8, d_pos = 0, d_startrecordpos = 0, d_recordlen = 13, d_internal = False, d_standalone = False,
      d_content = [0, 1, 0, 1, 0, 0, 0, 9, 0, 2, 7, 8, 0]\<rparr>"

theorem PacketReader_stays_inside_witness:
  "\<exists>ah r1 s n r'. getDnsrecordheader example_reader = (Inr ah, r1) \<and> rh_clen ah = 2 \<and> pr_get16BitInt r1 = (Inr 0x708, s) \<and>
     pr_getName s = (Inr n, r') \<and> d_pos s \<le> d_pos example_reader + 10 + rh_clen ah \<and> d_pos r' \<le> length (d_content r')"
proof -
  let ?ah = "\<lparr>rh_type = 1, rh_class = 1, rh_ttl = 9, rh_clen = 2\<rparr>"
  let ?r1 = "example_reader\<lparr>d_pos := 10, d_startrecordpos := 10, d_recordlen := 2\<rparr>"
  let ?s = "?r1\<lparr>d_pos := 12\<rparr>" and ?r' = "?r1\<lparr>d_pos := 13\<rparr>"
  have h: "getDnsrecordheader example_reader = (Inr ?ah, ?r1)" by code_simp
  have s: "pr_get16BitInt ?r1 = (Inr 0x708, ?s)" by code_simp
  have n: "pr_getName ?s = (Inr (DNSName [0]), ?r')" by code_simp
  have "content_steps ?r1 ?s" using s by (intro content_steps.more [OF content_steps.none] content_step.get16)
  moreover have "reader_steps ?s ?r'" using n by (intro reader_steps.more [OF reader_steps.none] reader_step.owner)
  ultimately have "d_pos ?s \<le> d_pos example_reader + 10 + rh_clen ?ah" "d_pos ?r' \<le> length (d_content ?r')"
    using PacketReader_stays_inside [OF _ h, of ?s ?r'] by (simp_all add: example_reader_def)
  moreover have "rh_clen ?ah = 2" by simp
  ultimately show ?thesis using h s n by blast
qed

end
