(* ===== verification/TextSegments.thy ===== *)
theory TextSegments
  imports Reader
begin

text \<open>
  Character strings of TXT-like records: \<^verbatim>\<open>segmentDNSText\<close> of \<^verbatim>\<open>pdns/dnslabeltext.rl\<close>, a Ragel state machine that
  splits quoted text into the strings of a record, and its relation to \<^verbatim>\<open>PacketReader::getText\<close>, which prints
  them.
\<close>

datatype txt_cs = txt_start | txt_in | txt_esc | txt_d1 | txt_d2 | txt_num | txt_close | txt_space | txt_error

record txt_state =
  t_cs :: txt_cs
  t_val :: u8
  t_segment :: bytes
  t_ret :: "bytes list"

definition appendSplit :: "u8 \<Rightarrow> txt_state \<Rightarrow> txt_state" where
  "appendSplit c s =
     (let s1 = (if length (t_segment s) > 254 then s\<lparr>t_ret := t_ret s @ [t_segment s], t_segment := []\<rparr> else s)
      in s1\<lparr>t_segment := t_segment s1 @ [c]\<rparr>)"

definition txt_segmentEnd :: "txt_state \<Rightarrow> txt_state" where
  "txt_segmentEnd s = s\<lparr>t_ret := t_ret s @ [t_segment s], t_segment := []\<rparr>"

definition txt_segmentBegin :: "txt_state \<Rightarrow> txt_state" where
  "txt_segmentBegin s = s\<lparr>t_segment := []\<rparr>"

definition txt_reportEscapedNumber :: "u8 \<Rightarrow> txt_state \<Rightarrow> txt_state" where
  "txt_reportEscapedNumber c s = s\<lparr>t_val := t_val s * 10 + (c - 48)\<rparr>"

definition txt_doneEscapedNumber :: "txt_state \<Rightarrow> txt_state" where
  "txt_doneEscapedNumber s = (appendSplit (t_val s) s)\<lparr>t_val := 0\<rparr>"

definition txt_is_space :: "u8 \<Rightarrow> bool" where
  "txt_is_space c \<longleftrightarrow> c = 32 \<or> (9 \<le> c \<and> c \<le> 13)"

text \<open>A transition inside the quotes, in the state after any pending number has been appended.\<close>

definition txt_element :: "u8 \<Rightarrow> txt_state \<Rightarrow> txt_state" where
  "txt_element c s =
     (if c = 92 then s\<lparr>t_cs := txt_esc\<rparr>
      else if c = 34 then s\<lparr>t_cs := txt_close\<rparr>
      else (appendSplit c s)\<lparr>t_cs := txt_in\<rparr>)"

definition txt_next_segment :: "u8 \<Rightarrow> txt_state \<Rightarrow> txt_state" where
  "txt_next_segment c s =
     (if c = 34 then (txt_segmentBegin (txt_segmentEnd s))\<lparr>t_cs := txt_in\<rparr> else s\<lparr>t_cs := txt_error\<rparr>)"

definition txt_step :: "u8 \<Rightarrow> txt_state \<Rightarrow> txt_state" where
  "txt_step c s =
     (case t_cs s of
        txt_start \<Rightarrow> if c = 34 then (txt_segmentBegin s)\<lparr>t_cs := txt_in\<rparr> else s\<lparr>t_cs := txt_error\<rparr>
      | txt_in \<Rightarrow> txt_element c s
      | txt_esc \<Rightarrow> if raw_digit c then (txt_reportEscapedNumber c s)\<lparr>t_cs := txt_d1\<rparr>
                   else (appendSplit c s)\<lparr>t_cs := txt_in\<rparr>
      | txt_d1 \<Rightarrow> if raw_digit c then (txt_reportEscapedNumber c s)\<lparr>t_cs := txt_d2\<rparr> else s\<lparr>t_cs := txt_error\<rparr>
      | txt_d2 \<Rightarrow> if raw_digit c then (txt_reportEscapedNumber c s)\<lparr>t_cs := txt_num\<rparr> else s\<lparr>t_cs := txt_error\<rparr>
      | txt_num \<Rightarrow> txt_element c (txt_doneEscapedNumber s)
      | txt_close \<Rightarrow> if txt_is_space c then s\<lparr>t_cs := txt_space\<rparr> else txt_next_segment c s
      | txt_space \<Rightarrow> txt_next_segment c s
      | txt_error \<Rightarrow> s)"

definition txt_run :: "bytes \<Rightarrow> txt_state \<Rightarrow> txt_state" where
  "txt_run = fold txt_step"

definition segmentDNSText :: "bytes \<Rightarrow> bytes list result" where
  "segmentDNSText input =
     (let s = txt_run input \<lparr>t_cs = txt_start, t_val = 0, t_segment = [], t_ret = []\<rparr> in
      if t_cs s = txt_close \<or> t_cs s = txt_space then Inr (t_ret (txt_segmentEnd s))
      else Inl (runtime_error ''Unable to parse DNS TXT''))"

section \<open>Reading back what is printed\<close>

text \<open>The text of the strings, as \<^verbatim>\<open>getText\<close> prints them.\<close>

definition txt_quote :: "bytes \<Rightarrow> bytes" where
  "txt_quote s = 34 # txtEscape s @ [34]"

fun txt_print :: "bytes list \<Rightarrow> bytes" where
  "txt_print [] = []"
| "txt_print [s] = txt_quote s"
| "txt_print (s # ss) = txt_quote s @ 32 # txt_print ss"

text \<open>Inside a segment, any pending number appended.\<close>

definition txt_leave :: "txt_state \<Rightarrow> txt_state" where
  "txt_leave s = (if t_cs s = txt_num then (txt_doneEscapedNumber s)\<lparr>t_cs := txt_in\<rparr> else s)"

definition txt_at :: "txt_state \<Rightarrow> bytes list \<Rightarrow> bytes \<Rightarrow> bool" where
  "txt_at s ss cur \<longleftrightarrow> (let t = txt_leave s in t_cs t = txt_in \<and> t_val t = 0 \<and> t_segment t = cur \<and> t_ret t = ss)"

lemma txt_element_leave:
  "t_cs s = txt_in \<or> t_cs s = txt_num \<Longrightarrow> txt_step c s = txt_element c (txt_leave s)"
  by (auto simp: txt_step_def txt_leave_def txt_element_def appendSplit_def txt_doneEscapedNumber_def Let_def)

lemma txt_at_cs: "txt_at s ss cur \<Longrightarrow> t_cs s = txt_in \<or> t_cs s = txt_num"
  by (auto simp: txt_at_def txt_leave_def Let_def split: if_splits)

lemma txt_plain:
  "t_cs (txt_leave s) = txt_in \<Longrightarrow> t_cs s = txt_in \<or> t_cs s = txt_num \<Longrightarrow> c \<noteq> 92 \<Longrightarrow> c \<noteq> 34 \<Longrightarrow>
   txt_run [c] s = (appendSplit c (txt_leave s))\<lparr>t_cs := txt_in\<rparr>"
  by (simp add: txt_run_def txt_element_leave txt_element_def)

lemma txt_escaped:
  "t_cs (txt_leave s) = txt_in \<Longrightarrow> t_cs s = txt_in \<or> t_cs s = txt_num \<Longrightarrow> \<not> raw_digit c \<Longrightarrow>
   txt_run [92, c] s = (appendSplit c (txt_leave s))\<lparr>t_cs := txt_in\<rparr>"
  by (simp add: txt_run_def txt_element_leave txt_element_def txt_step_def [of c] appendSplit_def Let_def)

lemma txt_number:
  assumes "t_cs (txt_leave s) = txt_in" "t_cs s = txt_in \<or> t_cs s = txt_num" "t_val (txt_leave s) = 0"
  shows "txt_run (92 # decimal3 c) s = (txt_leave s)\<lparr>t_cs := txt_num, t_val := c\<rparr>"
proof -
  let ?a = "of_nat (48 + unat c div 100) :: u8" and ?b = "of_nat (48 + unat c div 10 mod 10) :: u8"
    and ?d = "of_nat (48 + unat c mod 10) :: u8"
  have val: "((0 * 10 + (?a - 48)) * 10 + (?b - 48)) * 10 + (?d - 48) = c"
    using decimal3_value [of c] by simp
  have esc: "txt_step 92 s = (txt_leave s)\<lparr>t_cs := txt_esc\<rparr>"
    using txt_element_leave [OF assms(2)] by (simp add: txt_element_def)
  have "txt_run [?a, ?b, ?d] ((txt_leave s)\<lparr>t_cs := txt_esc\<rparr>) =
      (txt_leave s)\<lparr>t_cs := txt_num, t_val := ((0 * 10 + (?a - 48)) * 10 + (?b - 48)) * 10 + (?d - 48)\<rparr>"
    using decimal3_digits [of c] assms(3) by (simp only: txt_run_def fold.simps o_apply id_apply) 
      (simp add: txt_step_def txt_reportEscapedNumber_def del: of_nat_add)
  then show ?thesis using esc by (simp only: val) (simp add: txt_run_def decimal3_def)
qed

lemma txt_read_char:
  assumes "txt_at s ss cur" "length cur < 255"
  shows "txt_at (txt_run (txtEscape_char c) s) ss (cur @ [c])"
proof -
  let ?t = "txt_leave s"
  have t: "t_cs ?t = txt_in" "t_val ?t = 0" "t_segment ?t = cur" "t_ret ?t = ss"
    using assms(1) by (auto simp: txt_at_def Let_def)
  note cs = txt_at_cs [OF assms(1)]
  have app: "txt_at ((appendSplit c ?t)\<lparr>t_cs := txt_in\<rparr>) ss (cur @ [c])"
    using t assms(2) by (simp add: txt_at_def txt_leave_def [of "t_cs_update _ _"] appendSplit_def)
  have num: "txt_at (?t\<lparr>t_cs := txt_num, t_val := c\<rparr>) ss (cur @ [c])"
    using t assms(2) by (simp add: txt_at_def txt_leave_def [of "t_cs_update _ _"] txt_leave_def [of "t_val_update _ _"]
        txt_doneEscapedNumber_def appendSplit_def)
  have "\<not> raw_digit 34" "\<not> raw_digit 92" by (simp_all add: raw_digit_def)
  then show ?thesis
    using txt_plain [OF t(1) cs, of c] txt_escaped [OF t(1) cs, of c] txt_number [OF t(1) cs t(2), of c] app num
    by (auto simp: txtEscape_char_def)
qed

lemma txt_run_append: "txt_run (xs @ ys) s = txt_run ys (txt_run xs s)"
  by (simp add: txt_run_def)

lemma txt_read_string:
  "txt_at s ss cur \<Longrightarrow> length cur + length str \<le> 255 \<Longrightarrow> txt_at (txt_run (txtEscape str) s) ss (cur @ str)"
proof (induction str arbitrary: s cur)
  case (Cons c str)
  have "txt_at (txt_run (txtEscape_char c) s) ss (cur @ [c])" using Cons.prems by (intro txt_read_char) auto
  then have "txt_at (txt_run (txtEscape str) (txt_run (txtEscape_char c) s)) ss ((cur @ [c]) @ str)"
    using Cons.prems by (intro Cons.IH) auto
  then show ?case by (simp add: txtEscape_def txt_run_append)
qed (simp add: txtEscape_def txt_run_def)

definition txt_ready :: "txt_state \<Rightarrow> bytes list \<Rightarrow> bool" where
  "txt_ready s ss \<longleftrightarrow> t_val s = 0 \<and>
     (t_cs s = txt_start \<and> t_ret s = ss \<or> t_cs s = txt_space \<and> t_ret s @ [t_segment s] = ss)"

definition txt_closed :: "txt_state \<Rightarrow> bytes list \<Rightarrow> bool" where
  "txt_closed s ss \<longleftrightarrow> t_val s = 0 \<and> t_cs s = txt_close \<and> t_ret s @ [t_segment s] = ss"

lemma txt_read_quoted:
  assumes "txt_ready s ss" "length str \<le> 255"
  shows "txt_closed (txt_run (txt_quote str) s) (ss @ [str])"
proof -
  have "txt_at (txt_step 34 s) ss []"
    using assms(1) by (auto simp: txt_ready_def txt_at_def txt_step_def txt_segmentBegin_def txt_next_segment_def
        txt_segmentEnd_def txt_leave_def)
  then have at: "txt_at (txt_run (txtEscape str) (txt_step 34 s)) ss str"
    using txt_read_string [of "txt_step 34 s" ss "[]" str] assms(2) by simp
  have "txt_run (txt_quote str) s = txt_step 34 (txt_run (txtEscape str) (txt_step 34 s))"
    by (simp add: txt_quote_def txt_run_def)
  then show ?thesis
    using txt_element_leave [OF txt_at_cs [OF at], of 34] at by (simp add: txt_closed_def txt_element_def txt_at_def Let_def)
qed

lemma txt_read_print:
  "txt_ready s ss \<Longrightarrow> strs \<noteq> [] \<Longrightarrow> \<forall>str \<in> set strs. length str \<le> 255 \<Longrightarrow> txt_closed (txt_run (txt_print strs) s) (ss @ strs)"
proof (induction strs arbitrary: s ss rule: txt_print.induct)
  case (2 str)
  then show ?case using txt_read_quoted by simp
next
  case (3 str a strs)
  let ?s = "txt_run (txt_quote str) s"
  have c: "txt_closed ?s (ss @ [str])" using "3.prems" by (intro txt_read_quoted) auto
  then have "txt_ready (txt_step 32 ?s) (ss @ [str])"
    by (simp add: txt_closed_def txt_ready_def txt_step_def txt_is_space_def)
  then have "txt_closed (txt_run (txt_print (a # strs)) (txt_step 32 ?s)) ((ss @ [str]) @ a # strs)"
    using "3.prems" by (intro "3.IH") auto
  then show ?case by (simp add: txt_run_append) (simp add: txt_run_def)
qed simp

lemma segmentDNSText_print:
  assumes "strs \<noteq> []" "\<forall>str \<in> set strs. length str \<le> 255"
  shows "segmentDNSText (txt_print strs) = Inr strs"
proof -
  let ?s = "\<lparr>t_cs = txt_start, t_val = 0, t_segment = [], t_ret = []\<rparr>"
  have "txt_closed (txt_run (txt_print strs) ?s) ([] @ strs)"
    using assms by (intro txt_read_print) (simp add: txt_ready_def)
  then show ?thesis by (simp add: segmentDNSText_def txt_closed_def txt_segmentEnd_def Let_def)
qed

section \<open>Text of a record\<close>

text \<open>The wire form of character strings: each with a length byte in front.\<close>

definition txt_wire :: "bytes list \<Rightarrow> bytes" where
  "txt_wire strs = concat (map (\<lambda>s. of_nat (length s) # s) strs)"

fun txt_glue :: "bytes \<Rightarrow> bytes list \<Rightarrow> bytes" where
  "txt_glue ret [] = ret"
| "txt_glue ret (s # ss) = txt_glue ((if ret \<noteq> [] then ret @ [32] else ret) @ txt_quote s) ss"

lemma txt_glue_print: "txt_glue ret ss = (if ss = [] then ret else if ret = [] then txt_print ss else ret @ 32 # txt_print ss)"
  by (induction ret ss rule: txt_glue.induct) (auto simp: txt_quote_def neq_Nil_conv)

lemma text_segment_wire:
  assumes "d_content r = pre @ (of_nat (length s) # s) @ post" "d_pos r = length pre" "length s \<le> 255"
    "length pre + 1 + length s \<le> d_startrecordpos r + d_recordlen r"
  shows "text_segment True r = (Inr (txt_quote s), r\<lparr>d_pos := length pre + 1 + length s\<rparr>)"
proof -
  have byte: "pr_next r = (Inr (of_nat (length s)), r\<lparr>d_pos := length pre + 1\<rparr>)"
    using assms by (simp add: pr_next_def)
  have len: "unat (of_nat (length s) :: u8) = length s" using assms(3) by (intro unat_of_nat_u8) simp
  show ?thesis
  proof (cases "s = []")
    case True
    then show ?thesis using assms byte by (simp add: text_segment_def txt_quote_def txtEscape_def)
  next
    case False
    then have "content_range (r\<lparr>d_pos := length pre + 1\<rparr>) (length pre + 1) (length pre + 1 + length s - 1) = Inr s"
      using assms by (auto simp: content_range_Inr)
    then show ?thesis using assms byte len False by (simp add: text_segment_def txt_quote_def)
  qed
qed

lemma getText_loop_wire:
  "d_content r = pre @ txt_wire ss @ post \<Longrightarrow> d_pos r = length pre \<Longrightarrow>
   d_startrecordpos r + d_recordlen r = length pre + length (txt_wire ss) \<Longrightarrow> \<forall>s \<in> set ss. length s \<le> 255 \<Longrightarrow>
   getText_loop True True ret r = (Inr (txt_glue ret ss), r\<lparr>d_pos := length pre + length (txt_wire ss)\<rparr>)"
proof (induction ss arbitrary: pre r ret)
  case Nil
  then show ?case by (subst getText_loop.simps) (simp add: txt_wire_def)
next
  case (Cons s ss)
  let ?e = "length pre + 1 + length s"
  have seg: "text_segment True r = (Inr (txt_quote s), r\<lparr>d_pos := ?e\<rparr>)"
    using Cons.prems by (intro text_segment_wire [where post = "txt_wire ss @ post"]) (simp_all add: txt_wire_def)
  let ?ret = "(if ret \<noteq> [] then ret @ [32] else ret) @ txt_quote s"
  have rec: "getText_loop True True ?ret (r\<lparr>d_pos := ?e\<rparr>) =
      (Inr (txt_glue ?ret ss), (r\<lparr>d_pos := ?e\<rparr>)\<lparr>d_pos := length (pre @ of_nat (length s) # s) + length (txt_wire ss)\<rparr>)"
    using Cons.prems by (intro Cons.IH) (simp_all add: txt_wire_def)
  show ?case
    using Cons.prems(2,3) seg rec by (subst getText_loop.simps) (simp add: txt_wire_def Let_def)
qed

lemma getText_wire:
  assumes "d_content r = pre @ txt_wire ss @ post" "d_pos r = length pre"
    "d_startrecordpos r + d_recordlen r = length pre + length (txt_wire ss)" "\<forall>s \<in> set ss. length s \<le> 255"
  shows "getText True True r = (Inr (txt_print ss), r\<lparr>d_pos := length pre + length (txt_wire ss)\<rparr>)"
  by (simp add: getText_def getText_loop_wire [OF assms] txt_glue_print)

text \<open>
  Claim C32 (character strings survive printing): the text printed for a record made of one or more
  character strings of at most 255 bytes, whatever bytes they hold, is split again into exactly
  those strings.
\<close>

theorem getText_segmentDNSText:
  assumes "d_content r = pre @ txt_wire ss @ post" "d_pos r = length pre"
    "d_startrecordpos r + d_recordlen r = length pre + length (txt_wire ss)"
    "\<forall>s \<in> set ss. length s \<le> 255" "ss \<noteq> []"
  shows "bindR (fst (getText True True r)) segmentDNSText = Inr ss"
  by (simp add: getText_wire [OF assms(1-4)] segmentDNSText_print [OF assms(5,4)])

theorem getText_segmentDNSText_witness:
  "bindR (fst (getText True True \<lparr>d_pointerBudget = 0, d_pos = 1, d_startrecordpos = 1, d_recordlen = 5, d_internal = False,
     d_standalone = False, d_content = [9, 1, 34, 2, 0, 92, 7]\<rparr>)) segmentDNSText = Inr [[34], [0, 92]]"
  by (rule getText_segmentDNSText [of _ "[9]" "[[34], [0, 92]]" "[7]"]) (simp_all add: txt_wire_def)

end
