(* ===== verification/Writer.thy ===== *)
theory Writer
  imports TextSegments
begin

text \<open>
  The class \<^verbatim>\<open>GenericDNSPacketWriter\<close> of \<^verbatim>\<open>pdns/dnswriter.hh\<close> and \<^verbatim>\<open>pdns/dnswriter.cc\<close>, which builds a message record
  by record and compresses names. Sizes stay far below the range of \<^verbatim>\<open>size_t\<close>; the 16-bit markers
  are only set after the source has checked that the size fits.
\<close>

unbundle bit_operations_syntax

section \<open>State\<close>

datatype Place = QUESTION | ANSWER | AUTHORITY | ADDITIONAL

record DNSPacketWriter =
  w_namepositions :: "nat list"
  w_qname :: DNSName
  w_content :: bytes
  w_sor :: nat
  w_rollbackmarker :: nat
  w_truncatemarker :: nat
  w_recordplace :: Place
  w_canonic :: bool
  w_lowerCase :: bool
  w_compress :: bool

type_synonym 'a writing = "(DNSPacketWriter, 'a) call"

definition pw_append :: "bytes \<Rightarrow> unit writing" where
  "pw_append bs = putC (\<lambda>w. w\<lparr>w_content := w_content w @ bs\<rparr>)"

section \<open>Integers, text and blobs\<close>

definition pw_xfr48BitInt :: "nat \<Rightarrow> unit writing" where
  "pw_xfr48BitInt val =
     (if val div 281474976710656 \<noteq> 0 then throwC (runtime_error ''Value too large to fit in 48 bits'')
      else pw_append (to_be16 (val div 4294967296 mod 65536) @ to_be32 (val mod 4294967296)))"

definition pw_xfrNodeOrLocatorID :: "bytes \<Rightarrow> unit writing" where
  "pw_xfrNodeOrLocatorID val = pw_append (take 8 val)"

definition pw_xfr32BitInt :: "nat \<Rightarrow> unit writing" where
  "pw_xfr32BitInt val =
     (if val > 4294967295 then throwC (runtime_error ''Value too large to fit in 32 bits'') else pw_append (to_be32 val))"

definition pw_xfr16BitInt :: "nat \<Rightarrow> unit writing" where
  "pw_xfr16BitInt val =
     (if val > 65535 then throwC (runtime_error ''Value too large to fit in 16 bits'') else pw_append (to_be16 val))"

definition pw_xfr8BitInt :: "nat \<Rightarrow> unit writing" where
  "pw_xfr8BitInt val =
     (if val > 255 then throwC (runtime_error ''Value too large to fit in 8 bits'') else pw_append [of_nat val])"

text \<open>An address is the list of its 4 or 16 bytes.\<close>

definition pw_xfrCAWithoutPort :: "nat \<Rightarrow> bytes \<Rightarrow> unit writing" where
  "pw_xfrCAWithoutPort version val =
     (if version = 4 then pw_append (take 4 val)
      else if version = 6 then pw_append (take 16 val)
      else throwC (runtime_error ''invalid IP protocol''))"

fun pw_segments :: "bool \<Rightarrow> bytes list \<Rightarrow> unit writing" where
  "pw_segments lenField [] = returnC ()"
| "pw_segments lenField (str # segments) =
     bindC (pw_append ((if lenField then [of_nat (length str)] else []) @ str)) (\<lambda>_. pw_segments lenField segments)"

definition pw_xfrText :: "bytes \<Rightarrow> bool \<Rightarrow> unit writing" where
  "pw_xfrText text lenField =
     (if text = [] then pw_append [0]
      else bindC (liftC (segmentDNSText text)) (pw_segments lenField))"

definition pw_xfrUnquotedText :: "bytes \<Rightarrow> bool \<Rightarrow> unit writing" where
  "pw_xfrUnquotedText text lenField =
     (if text = [] then pw_append [0]
      else bindC (if lenField then
                    (if length text > 255 then throwC (runtime_error ''invalid unquoted text length'')
                     else pw_append [of_nat (length text)])
                  else returnC ()) (\<lambda>_. pw_append text))"

definition pw_xfrBlob :: "bytes \<Rightarrow> unit writing" where
  "pw_xfrBlob blob = pw_append blob"

section \<open>Names\<close>

definition maxCompressionOffset :: nat where
  "maxCompressionOffset = 16384"

text \<open>
  \<^verbatim>\<open>boost::container::static_vector<uint16_t, 34>\<close>: the push of a 35th element throws \<^verbatim>\<open>std::bad_alloc\<close>, which
  is \<open>None\<close> here.
\<close>

definition static_vector_capacity :: nat where
  "static_vector_capacity = 34"

function positionsInName :: "bytes \<Rightarrow> nat \<Rightarrow> nat list \<Rightarrow> nat list option" where
  "positionsInName raw riter ps =
     (if riter < length raw then
        (if raw ! riter = 0 then Some ps
         else if length ps \<ge> static_vector_capacity then None
         else positionsInName raw (riter + unat (raw ! riter) + 1) (ps @ [riter]))
      else Some ps)"
  by pat_completeness auto
termination
  by (relation "measure (\<lambda>(raw, riter, ps). length raw - riter)") auto

declare positionsInName.simps [simp del]

text \<open>
  The positions of the labels of a name written before. The second byte of a pointer that the
  writer wrote is always there. \<^verbatim>\<open>labelLength & 0xc0\<close> is tested as the source does.
\<close>

function positionsInPacket :: "bytes \<Rightarrow> nat \<Rightarrow> nat \<Rightarrow> nat list \<Rightarrow> nat list option" where
  "positionsInPacket content iter pointerQuota ps =
     (if iter < length content \<and> pointerQuota > 0 then
        let labelLength = content ! iter; currentPos = iter in
        if labelLength AND 0xc0 \<noteq> 0 then
          let npos = 256 * unat (labelLength AND NOT 0xc0) + unat (content ! (iter + 1)) in
          if npos \<ge> currentPos \<or> npos < sizeof_dnsheader then Some ps
          else positionsInPacket content npos (pointerQuota - 1) ps
        else if labelLength = 0 then Some ps
        else if currentPos \<ge> maxCompressionOffset then Some ps
        else if length ps \<ge> static_vector_capacity then None
        else positionsInPacket content (iter + unat labelLength + 1) pointerQuota (ps @ [currentPos])
      else Some ps)"
  by pat_completeness auto
termination
  by (relation "measures [\<lambda>(content, iter, quota, ps). quota, \<lambda>(content, iter, quota, ps). length content - iter]") auto

declare positionsInPacket.simps [simp del]

text \<open>
  Comparing the labels from the right. The result is the number of bytes matched, counting the
  root label, the position of the last label matched, and whether the whole name matched.
\<close>

fun match_labels :: "bytes \<Rightarrow> bytes \<Rightarrow> nat list \<Rightarrow> nat list \<Rightarrow> nat \<Rightarrow> nat option \<Rightarrow> nat \<times> nat option \<times> bool" where
  "match_labels raw content (pn # pns) (pp # pps) cmatchlen lastpos =
     (let nlen = raw ! pn; plen = content ! pp in
      if nlen \<noteq> plen then (cmatchlen, lastpos, False)
      else if pdns_ilexicographical_compare_three_way
                (take (unat nlen) (drop (pn + 1) raw)) (take (unat nlen) (drop (pp + 1) content)) \<noteq> 0
      then (cmatchlen, lastpos, False)
      else
        let cmatchlen' = cmatchlen + unat nlen + 1 in
        if cmatchlen' = length raw then (cmatchlen', Some pp, True)
        else match_labels raw content pns pps cmatchlen' (Some pp))"
| "match_labels raw content _ _ cmatchlen lastpos = (cmatchlen, lastpos, False)"

fun lookup_positions :: "bytes \<Rightarrow> bytes \<Rightarrow> nat list \<Rightarrow> nat list \<Rightarrow> nat \<Rightarrow> nat \<Rightarrow> nat \<times> nat" where
  "lookup_positions raw content pname [] bestpos matchLen = (bestpos, matchLen)"
| "lookup_positions raw content pname (p # ps) bestpos matchLen =
     (case positionsInPacket content p 50 [] of
        None \<Rightarrow> lookup_positions raw content pname ps bestpos matchLen
      | Some ppacket \<Rightarrow>
          (case match_labels raw content (rev pname) (rev ppacket) 1 None of
             (cmatchlen, Some pos, True) \<Rightarrow> (pos, cmatchlen)
           | (cmatchlen, Some pos, False) \<Rightarrow>
               if matchLen < cmatchlen then lookup_positions raw content pname ps pos cmatchlen
               else lookup_positions raw content pname ps bestpos matchLen
           | (cmatchlen, None, _) \<Rightarrow> lookup_positions raw content pname ps bestpos matchLen))"

text \<open>\<^verbatim>\<open>lookupName\<close>: the position found, 0 for none, and the length of the match.\<close>

definition lookupName :: "DNSPacketWriter \<Rightarrow> DNSName \<Rightarrow> nat \<times> nat" where
  "lookupName w name =
     (case positionsInName (d_storage name) 0 [] of
        None \<Rightarrow> (0, 0)
      | Some pname \<Rightarrow> lookup_positions (d_storage name) (w_content w) pname (w_namepositions w) 0 0)"

definition pw_xfrName :: "DNSName \<Rightarrow> bool \<Rightarrow> unit writing" where
  "pw_xfrName name compress0 = (\<lambda>w.
     let compress = (if w_canonic w \<or> w_lowerCase w then False else compress0) in
     if DNSName_empty name \<or> DNSName_isRoot name then pw_append [0] w
     else
       let (li, matchlen) = (if w_compress w \<and> compress then lookupName w name else (0, 0)) in
       if w_compress w \<and> compress \<and> li \<noteq> 0 \<and> li < maxCompressionOffset then
         let dns = d_storage name; pos = length (w_content w);
             w1 = (if pos < maxCompressionOffset \<and> matchlen \<noteq> length dns
                   then w\<lparr>w_namepositions := w_namepositions w @ [pos]\<rparr> else w);
             offset = li + 49152
         in pw_append (take (length dns - matchlen) dns @ [of_nat (offset div 256), of_nat (offset mod 256)]) w1
       else
         let pos = length (w_content w);
             w1 = (if pos < maxCompressionOffset then w\<lparr>w_namepositions := w_namepositions w @ [pos]\<rparr> else w);
             raw = d_storage (if w_lowerCase w then makeLowerCase name else name)
         in pw_append raw w1)"

section \<open>Records\<close>

text \<open>The header at the start of the content, updated in place.\<close>

definition set_header :: "(dnsheader \<Rightarrow> dnsheader) \<Rightarrow> bytes \<Rightarrow> bytes" where
  "set_header f content = dnsheader_bytes (f (dnsheader_of content)) @ drop 12 content"

definition count_record :: "Place \<Rightarrow> dnsheader \<Rightarrow> dnsheader" where
  "count_record place dh =
     (case place of
        QUESTION \<Rightarrow> dh\<lparr>h_qdcount := (h_qdcount dh + 1) mod 65536\<rparr>
      | ANSWER \<Rightarrow> dh\<lparr>h_ancount := (h_ancount dh + 1) mod 65536\<rparr>
      | AUTHORITY \<Rightarrow> dh\<lparr>h_nscount := (h_nscount dh + 1) mod 65536\<rparr>
      | ADDITIONAL \<Rightarrow> dh\<lparr>h_arcount := (h_arcount dh + 1) mod 65536\<rparr>)"

definition pw_commit :: "unit writing" where
  "pw_commit = (\<lambda>w.
     let content = w_content w; sor = w_sor w in
     if sor = 0 then (Inr (), w)
     else if sor < 2 \<or> sor > length content
     then (Inl (range_error ''Invalid start of record when trying to build a packet''), w)
     else if length content > 65535 then (Inl (range_error ''Trying to build a packet larger than 65535 bytes''), w)
     else
       let rlen = length content - sor;
           content1 = content[sor - 2 := of_nat (rlen div 256), sor - 1 := of_nat (rlen mod 256)]
       in (Inr (), w\<lparr>w_content := set_header (count_record (w_recordplace w)) content1, w_sor := 0\<rparr>))"

definition pw_startRecord :: "DNSName \<Rightarrow> nat \<Rightarrow> nat \<Rightarrow> nat \<Rightarrow> Place \<Rightarrow> bool \<Rightarrow> unit writing" where
  "pw_startRecord name qtype ttl qclass place compress =
     bindC (putC (\<lambda>w. w\<lparr>w_compress := compress\<rparr>)) (\<lambda>_.
     bindC pw_commit (\<lambda>_ w.
       if length (w_content w) > 65535
       then (Inl (range_error ''Trying to build a packet larger than 65535 bytes''), w)
       else
         let w1 = w\<lparr>w_rollbackmarker := length (w_content w)\<rparr> in
         bindC (if compress \<and> \<not> DNSName_isRoot name \<and> DNSName_eq (w_qname w1) name
                then pw_append [0xc0, 0x0c] else pw_xfrName name compress) (\<lambda>_.
         bindC (pw_xfr16BitInt qtype) (\<lambda>_. bindC (pw_xfr16BitInt qclass) (\<lambda>_. bindC (pw_xfr32BitInt ttl) (\<lambda>_.
         bindC (pw_xfr16BitInt 0) (\<lambda>_.
           putC (\<lambda>w. w\<lparr>w_recordplace := place, w_sor := length (w_content w)\<rparr>)))))) w1))"

definition pw_init :: "DNSName \<Rightarrow> nat \<Rightarrow> nat \<Rightarrow> nat \<Rightarrow> DNSPacketWriter result" where
  "pw_init qname qtype qclass opcode =
     (let dh = \<lparr>h_id = 0, h_qr = False, h_opcode = opcode mod 16, h_aa = False, h_tc = False, h_rd = False, h_ra = False,
               h_unused = False, h_ad = False, h_cd = False, h_rcode = 0, h_qdcount = 1, h_ancount = 0, h_nscount = 0,
               h_arcount = 0\<rparr>;
          w0 = \<lparr>w_namepositions = [], w_qname = qname, w_content = dnsheader_bytes dh, w_sor = 0, w_rollbackmarker = 0,
                w_truncatemarker = 0, w_recordplace = QUESTION, w_canonic = False, w_lowerCase = False, w_compress = False\<rparr>
      in case bindC (pw_xfrName qname False) (\<lambda>_. bindC (pw_xfr16BitInt qtype) (\<lambda>_. pw_xfr16BitInt qclass)) w0 of
           (Inl e, _) \<Rightarrow> Inl e
         | (Inr _, w) \<Rightarrow>
             if length (w_content w) > 65535
             then Inl (range_error ''Trying to build a packet larger than 65535 bytes'')
             else Inr (w\<lparr>w_truncatemarker := length (w_content w)\<rparr>))"



fun pw_options :: "(nat \<times> bytes) list \<Rightarrow> unit writing" where
  "pw_options [] = returnC ()"
| "pw_options ((code, val) # options) =
     bindC (pw_xfr16BitInt code) (\<lambda>_. bindC (pw_xfr16BitInt (length val)) (\<lambda>_.
       bindC (pw_xfrBlob val) (\<lambda>_. pw_options options)))"

definition pw_addOpt :: "nat \<Rightarrow> nat \<Rightarrow> nat \<Rightarrow> (nat \<times> bytes) list \<Rightarrow> nat \<Rightarrow> unit writing" where
  "pw_addOpt udpsize extRCode ednsFlags options version =
     bindC (if extRCode \<noteq> 0
            then putC (\<lambda>w. w\<lparr>w_content := set_header (\<lambda>dh. dh\<lparr>h_rcode := extRCode mod 16\<rparr>) (w_content w)\<rparr>)
            else returnC ()) (\<lambda>_.
     let ttl = be32 (of_nat (extRCode div 16)) (of_nat version) (of_nat (ednsFlags div 256)) (of_nat (ednsFlags mod 256)) in
     bindC (pw_startRecord g_rootdnsname 41 ttl udpsize ADDITIONAL False) (\<lambda>_. pw_options options))"

section \<open>Undoing\<close>

text \<open>\<^verbatim>\<open>resize\<close> on a vector of bytes.\<close>

definition resize :: "nat \<Rightarrow> bytes \<Rightarrow> bytes" where
  "resize n bs = take n bs @ replicate (n - length bs) 0"

definition pw_rollback :: "unit writing" where
  "pw_rollback = putC (\<lambda>w. w\<lparr>w_content := resize (w_rollbackmarker w) (w_content w), w_sor := 0\<rparr>)"

definition pw_truncate :: "unit writing" where
  "pw_truncate = putC (\<lambda>w.
     w\<lparr>w_content := set_header (\<lambda>dh. dh\<lparr>h_ancount := 0, h_nscount := 0, h_arcount := 0\<rparr>) (resize (w_truncatemarker w) (w_content w))\<rparr>)"

definition getRecordPayload :: "DNSPacketWriter \<Rightarrow> bytes" where
  "getRecordPayload w = drop (w_sor w) (w_content w)"

definition getWireFormatContent :: "DNSPacketWriter \<Rightarrow> bytes" where
  "getWireFormatContent w = drop (w_rollbackmarker w) (w_content w)"

definition getSizeWithOpts :: "(nat \<times> bytes) list \<Rightarrow> DNSPacketWriter \<Rightarrow> nat" where
  "getSizeWithOpts options w =
     length (w_content w) + 1 + 2 + 2 + 4 + 2 + sum_list (map (\<lambda>opt. 4 + length (snd opt)) options)"

end
