(* ===== verification/Compression.thy ===== *)
theory Compression
  imports Writer
begin

text \<open>
  Name compression: what the bytes written so far spell, and that a compressed name denotes the
  name that was asked for, up to case.
\<close>

unbundle bit_operations_syntax

section \<open>Names in a packet under construction\<close>

text \<open>
  \<open>spell F c s i ps ls k\<close>: from position \<open>i\<close>, in a part that starts at \<open>s\<close>, the content spells the labels \<open>ls\<close> at
  the positions \<open>ps\<close>, through \<open>k\<close> pointers, each of which goes to a label before the part it stands in. No byte
  read on the way is one of \<open>F\<close>, the bytes that the writer may still change.
\<close>

inductive spell :: "(nat \<Rightarrow> bool) \<Rightarrow> bytes \<Rightarrow> nat \<Rightarrow> nat \<Rightarrow> nat list \<Rightarrow> bytes list \<Rightarrow> nat \<Rightarrow> bool"
  for F :: "nat \<Rightarrow> bool" and c :: bytes where
  sp_end: "i < length c \<Longrightarrow> \<not> F i \<Longrightarrow> c ! i = 0 \<Longrightarrow> spell F c s i [] [] 0"
| sp_label: "valid_label l \<Longrightarrow> i + 1 + length l < length c \<Longrightarrow> c ! i = of_nat (length l) \<Longrightarrow>
     take (length l) (drop (i + 1) c) = l \<Longrightarrow> (\<forall>j. i \<le> j \<and> j \<le> i + length l \<longrightarrow> \<not> F j) \<Longrightarrow>
     spell F c s (i + 1 + length l) ps ls k \<Longrightarrow> spell F c s i (i # ps) (l # ls) k"
| sp_ptr: "0xc0 \<le> c ! i \<Longrightarrow> i + 1 < length c \<Longrightarrow> \<not> F i \<Longrightarrow> \<not> F (i + 1) \<Longrightarrow> t = pointer_target c i \<Longrightarrow> 12 \<le> t \<Longrightarrow> t < s \<Longrightarrow>
     spell F c t t (t # ps) ls k \<Longrightarrow> spell F c s i (t # ps) ls (Suc k)"

inductive_cases spell_labelE: "spell F c s i (i # ps) (l # ls) k"

lemma spell_length: "spell F c s i ps ls k \<Longrightarrow> length ls = length ps \<and> list_all valid_label ls \<and> (\<forall>p \<in> set ps. p < length c)"
  by (induction rule: spell.induct) auto

lemma spell_change:
  "spell F c s i ps ls k \<Longrightarrow> length c \<le> length c' \<Longrightarrow> (\<forall>j < length c. \<not> F j \<longrightarrow> c' ! j = c ! j \<and> \<not> F' j) \<Longrightarrow>
   spell F' c' s i ps ls k"
proof (induction rule: spell.induct)
  case (sp_end i s)
  then show ?case by (auto intro!: spell.sp_end)
next
  case (sp_label l i s ps ls k)
  have same: "c' ! j = c ! j \<and> \<not> F' j" if "i \<le> j" "j \<le> i + length l" for j
    using sp_label.hyps(2,5) sp_label.prems that by auto
  have "take (length l) (drop (i + 1) c') = take (length l) (drop (i + 1) c)"
  proof (intro nth_equalityI)
    show "length (take (length l) (drop (i + 1) c')) = length (take (length l) (drop (i + 1) c))"
      using sp_label.hyps(2) sp_label.prems(1) by simp
  next
    fix j assume "j < length (take (length l) (drop (i + 1) c'))"
    then show "take (length l) (drop (i + 1) c') ! j = take (length l) (drop (i + 1) c) ! j"
      using sp_label.hyps(2) sp_label.prems(1) same [of "i + 1 + j"] by simp
  qed
  then show ?case
    using sp_label same [of i] by (intro spell.sp_label) auto
next
  case (sp_ptr i t s ps ls k)
  then have "c' ! i = c ! i" "c' ! (i + 1) = c ! (i + 1)" "\<not> F' i" "\<not> F' (i + 1)" by auto
  then show ?case using sp_ptr by (intro spell.sp_ptr) (auto simp: pointer_target_def)
qed

lemma spell_append: "spell F c s i ps ls k \<Longrightarrow> spell F (c @ x) s i ps ls k"
  by (erule spell_change) (simp_all add: nth_append)

lemma spell_start: "spell F c s i ps ls k \<Longrightarrow> s \<le> s' \<Longrightarrow> spell F c s' i ps ls k"
proof (induction rule: spell.induct)
  case (sp_ptr i t s ps ls k)
  then show ?case by (intro spell.sp_ptr) auto
qed (auto intro: spell.intros)

lemma spell_positions: "spell F c s i ps ls k \<Longrightarrow> 12 \<le> i \<Longrightarrow> \<forall>p \<in> set ps. 12 \<le> p"
  by (induction rule: spell.induct) auto

lemma spell_suffix:
  "spell F c s i ps ls k \<Longrightarrow> s \<le> i \<Longrightarrow> j < length ps \<Longrightarrow>
   \<exists>k' \<le> k. spell F c (ps ! j) (ps ! j) (drop j ps) (drop j ls) k'"
proof (induction arbitrary: j rule: spell.induct)
  case (sp_label l i s ps ls k)
  show ?case
  proof (cases j)
    case 0
    then show ?thesis using spell.sp_label [OF sp_label.hyps(1-5) spell_start [OF sp_label.hyps(6)], of i] sp_label.prems
      by (auto intro: spell_start)
  next
    case (Suc j')
    then show ?thesis using sp_label.IH [of j'] sp_label.prems by auto
  qed
next
  case (sp_ptr i t s ps ls k)
  then show ?case using sp_ptr.IH [of j] by (meson le_SucI order_refl)
qed simp

lemma spell_pointers: "spell F c s i ps ls k \<Longrightarrow> s \<le> i \<Longrightarrow> k \<le> length ps \<and> ((\<exists>r. ps = i # r) \<longrightarrow> k < length ps)"
  by (induction rule: spell.induct) auto

section \<open>The positions the writer collects\<close>

lemma label_byte:
  assumes "valid_label l"
  shows "unat (of_nat (length l) :: u8) = length l" "of_nat (length l) AND (0xc0 :: u8) = 0" "(of_nat (length l) :: u8) \<noteq> 0"
proof -
  have l: "1 \<le> length l" "length l \<le> 63" using assms by (simp_all add: valid_label_def)
  then show u: "unat (of_nat (length l) :: u8) = length l" by (intro unat_of_nat_u8) simp
  have "(of_nat (length l) :: u8) < 0xc0" unfolding word_less_nat_alt u using l by simp
  then show "of_nat (length l) AND (0xc0 :: u8) = 0" using u8_top_bits [of "of_nat (length l)"] u l by simp
  show "(of_nat (length l) :: u8) \<noteq> 0" using l by (auto simp: of_nat_u8_eq_0_iff)
qed

lemma pointer_byte: "(0xc0 :: u8) \<le> x \<Longrightarrow> x AND 0xc0 \<noteq> 0"
proof -
  have "\<forall>n \<in> set [0..<256]. (0xc0 :: u8) \<le> of_nat n \<longrightarrow> (of_nat n :: u8) AND 0xc0 \<noteq> 0" by code_simp
  from u8_exhaust [OF this] show "0xc0 \<le> x \<Longrightarrow> x AND 0xc0 \<noteq> 0" by blast
qed

text \<open>
  There is at most one pointer before each label, so a quota of 50 pointers is not used up before
  34 positions are.
\<close>

lemma positionsInPacket_spell:
  "spell F c s i ps ls k \<Longrightarrow> s \<le> i \<Longrightarrow> length c \<le> maxCompressionOffset \<Longrightarrow> length acc \<le> static_vector_capacity \<Longrightarrow>
   static_vector_capacity + 1 < q + length acc \<or> (\<exists>r. ps = i # r) \<and> static_vector_capacity < q + length acc \<Longrightarrow>
   positionsInPacket c i q acc = (if length acc + length ps \<le> static_vector_capacity then Some (acc @ ps) else None)"
proof (induction arbitrary: q acc rule: spell.induct)
  case (sp_end i s)
  then show ?case by (subst positionsInPacket.simps) (auto simp: Let_def)
next
  case (sp_label l i s ps ls k)
  note b = label_byte [OF sp_label.hyps(1)]
  have q: "0 < q" "i < maxCompressionOffset" using sp_label.prems(2-4) sp_label.hyps(2) by auto
  show ?case
  proof (cases "length acc \<ge> static_vector_capacity")
    case True
    then show ?thesis using sp_label.hyps(2,3) q b by (subst positionsInPacket.simps) (simp add: Let_def)
  next
    case False
    have "positionsInPacket c i q acc = positionsInPacket c (i + 1 + length l) q (acc @ [i])"
      using sp_label.hyps(2,3) q b False by (subst positionsInPacket.simps) (simp add: Let_def)
    then show ?thesis using sp_label.IH [of "acc @ [i]" q] sp_label.prems False by auto
  qed
next
  case (sp_ptr i t s ps ls k)
  have t: "256 * unat (c ! i AND NOT 0xc0) + unat (c ! (i + 1)) = t"
    using u8_pointer_bits [OF sp_ptr.hyps(1)] sp_ptr.hyps(5) by (simp add: pointer_target_def)
  have "t \<noteq> i" using sp_ptr.hyps(7) sp_ptr.prems(1) by simp
  then have q: "static_vector_capacity + 1 < q + length acc" using sp_ptr.prems(4) by simp
  then have "positionsInPacket c i q acc = positionsInPacket c t (q - 1) acc"
    using sp_ptr.hyps sp_ptr.prems(1,3) pointer_byte [OF sp_ptr.hyps(1)] t [simplified]
    by (subst positionsInPacket.simps) (simp add: Let_def sizeof_dnsheader_def)
  moreover obtain q' where "q = Suc q'" using q sp_ptr.prems(3) by (cases q) auto
  ultimately show ?case using sp_ptr.IH [of acc q'] sp_ptr.prems(2,3) q by simp
qed

fun name_offsets :: "nat \<Rightarrow> bytes list \<Rightarrow> nat list" where
  "name_offsets off [] = []"
| "name_offsets off (l # ls) = off # name_offsets (off + 1 + length l) ls"

lemma length_name_offsets [simp]: "length (name_offsets off ls) = length ls"
  by (induction off ls rule: name_offsets.induct) auto

lemma name_offsets_append:
  "name_offsets off (ls @ ks) = name_offsets off ls @ name_offsets (off + length (concat (map enc_label ls))) ks"
  by (induction off ls rule: name_offsets.induct) (auto simp: enc_label_def add.assoc)

lemma positionsInName_encode:
  "list_all valid_label ls \<Longrightarrow>
   positionsInName (pre @ encode ls) (length pre) acc =
     (if length acc + length ls \<le> static_vector_capacity \<or> ls = [] then Some (acc @ name_offsets (length pre) ls) else None)"
proof (induction ls arbitrary: pre acc)
  case Nil
  then show ?case by (subst positionsInName.simps) (simp add: encode_def)
next
  case (Cons l ls)
  have b: "unat (of_nat (length l) :: u8) = length l" "(of_nat (length l) :: u8) \<noteq> 0"
    using label_byte [of l] Cons.prems by simp_all
  have e: "pre @ encode (l # ls) = (pre @ enc_label l) @ encode ls" "(pre @ encode (l # ls)) ! length pre = of_nat (length l)"
    by (simp_all add: encode_def enc_label_def)
  have "positionsInName (pre @ encode (l # ls)) (length pre) acc =
      (if length acc \<ge> static_vector_capacity then None
       else positionsInName ((pre @ enc_label l) @ encode ls) (length (pre @ enc_label l)) (acc @ [length pre]))"
    using e b by (subst positionsInName.simps) (simp add: enc_label_def encode_def add.commute)
  then show ?case using Cons.IH [of "pre @ enc_label l" "acc @ [length pre]"] Cons.prems by (auto simp: enc_label_def)
qed

section \<open>Matching\<close>

definition label_at :: "bytes \<Rightarrow> nat \<Rightarrow> bytes" where
  "label_at c p = take (unat (c ! p)) (drop (p + 1) c)"

lemma match_labels_spec:
  "match_labels raw c rn rp cm lastpos = (cm', last', wh) \<Longrightarrow>
   \<exists>m. m \<le> length rn \<and> m \<le> length rp \<and> cm' = cm + sum_list (map (\<lambda>p. unat (raw ! p) + 1) (take m rn)) \<and>
     last' = (if m = 0 then lastpos else Some (rp ! (m - 1))) \<and>
     (\<forall>i < m. raw ! (rn ! i) = c ! (rp ! i) \<and> foldc (label_at raw (rn ! i)) = foldc (label_at c (rp ! i)))"
proof (induction raw c rn rp cm lastpos rule: match_labels.induct)
  case (1 raw c pn pns pp pps cm lastpos)
  show ?case
  proof (cases "raw ! pn = c ! pp \<and> foldc (label_at raw pn) = foldc (label_at c pp)")
    case False
    then have "(cm', last', wh) = (cm, lastpos, False)"
      using "1.prems" by (auto simp: Let_def ilex_eq_0_iff label_at_def split: if_splits)
    then show ?thesis by (intro exI [of _ 0]) simp
  next
    case True
    then have ilex: "pdns_ilexicographical_compare_three_way
        (take (unat (raw ! pn)) (drop (pn + 1) raw)) (take (unat (raw ! pn)) (drop (pp + 1) c)) = 0"
      by (auto simp: ilex_eq_0_iff label_at_def)
    show ?thesis
    proof (cases "cm + unat (raw ! pn) + 1 = length raw")
      case whole: True
      then have "cm' = length raw" "last' = Some pp" using "1.prems" True ilex by (simp_all add: Let_def)
      then show ?thesis using whole True by (intro exI [of _ 1]) simp
    next
      case more: False
      then have "match_labels raw c pns pps (cm + unat (raw ! pn) + 1) (Some pp) = (cm', last', wh)"
        using "1.prems" True ilex by (simp add: Let_def)
      from "1.IH" [OF refl refl _ _ refl _ this] True ilex more obtain m where
        m: "m \<le> length pns" "m \<le> length pps" "cm' = cm + unat (raw ! pn) + 1 + sum_list (map (\<lambda>p. unat (raw ! p) + 1) (take m pns))"
          "last' = (if m = 0 then Some pp else Some (pps ! (m - 1)))"
          "\<forall>i < m. raw ! (pns ! i) = c ! (pps ! i) \<and> foldc (label_at raw (pns ! i)) = foldc (label_at c (pps ! i))"
        by auto
      then show ?thesis using True by (intro exI [of _ "Suc m"]) (auto simp: less_Suc_eq_0_disj nth_Cons split: nat.split)
    qed
  qed
qed auto

lemma label_at_name:
  "list_all valid_label ls \<Longrightarrow> i < length ls \<Longrightarrow>
   (pre @ encode ls) ! (name_offsets (length pre) ls ! i) = of_nat (length (ls ! i)) \<and>
   label_at (pre @ encode ls) (name_offsets (length pre) ls ! i) = ls ! i"
proof (induction ls arbitrary: pre i)
  case (Cons l ls)
  have b: "unat (of_nat (length l) :: u8) = length l" using label_byte [of l] Cons.prems by simp
  have e: "pre @ encode (l # ls) = (pre @ enc_label l) @ encode ls" by (simp add: encode_def)
  show ?case
  proof (cases i)
    case 0
    then show ?thesis using b by (simp add: label_at_def encode_def enc_label_def)
  next
    case (Suc i')
    then show ?thesis using Cons.IH [of i' "pre @ enc_label l"] Cons.prems unfolding e by (simp add: enc_label_def)
  qed
qed simp

lemma label_at_spell:
  "spell F c s i ps ls k \<Longrightarrow> j < length ps \<Longrightarrow> c ! (ps ! j) = of_nat (length (ls ! j)) \<and> label_at c (ps ! j) = ls ! j"
proof (induction arbitrary: j rule: spell.induct)
  case (sp_label l i s ps ls k)
  show ?case
  proof (cases j)
    case 0
    then show ?thesis using label_byte [OF sp_label.hyps(1)] sp_label.hyps(3,4) by (simp add: label_at_def)
  next
    case (Suc j')
    then show ?thesis using sp_label.IH [of j'] sp_label.prems by simp
  qed
qed auto

lemma match_suffix:
  assumes nl: "list_all valid_label nl" and sp: "spell F c s i ps ls k"
    and match: "match_labels (encode nl) c (rev (name_offsets 0 nl)) (rev ps) 1 None = (cm, Some pos, wh)"
  obtains n j where "n < length nl" "cm = length (encode (drop n nl))" "j < length ps" "pos = ps ! j"
    "map foldc (drop j ls) = map foldc (drop n nl)"
proof -
  note len = conjunct1 [OF spell_length [OF sp]]
  obtain m where m: "m \<le> length nl" "m \<le> length ps"
      "cm = 1 + sum_list (map (\<lambda>p. unat (encode nl ! p) + 1) (take m (rev (name_offsets 0 nl))))"
      "Some pos = (if m = 0 then None else Some (rev ps ! (m - 1)))"
      "\<forall>x < m. foldc (label_at (encode nl) (rev (name_offsets 0 nl) ! x)) = foldc (label_at c (rev ps ! x))"
    using match_labels_spec [OF match] by auto
  then have m0: "0 < m" "pos = rev ps ! (m - 1)" by (auto split: if_splits)
  let ?n = "length nl - m" and ?j = "length ps - m"
  have at: "encode nl ! (name_offsets 0 nl ! x) = of_nat (length (nl ! x))" "label_at (encode nl) (name_offsets 0 nl ! x) = nl ! x"
    if "x < length nl" for x using label_at_name [OF nl that, of "[]"] by simp_all
  have "map (\<lambda>p. unat (encode nl ! p) + 1) (name_offsets 0 nl) = map (\<lambda>l. length l + 1) nl"
    using at(1) label_byte nl by (intro nth_equalityI) (auto simp: list_all_length)
  then have "map (\<lambda>p. unat (encode nl ! p) + 1) (take m (rev (name_offsets 0 nl))) = rev (map (\<lambda>l. length l + 1) (drop ?n nl))"
    by (simp add: take_rev rev_map [symmetric] drop_map [symmetric] del: rev_map)
  then have "cm = length (encode (drop ?n nl))"
    using m(3) by (simp add: encode_def length_concat comp_def enc_label_def sum_list_rev)
  moreover have "map foldc (drop ?j ls) = map foldc (drop ?n nl)"
  proof (rule nth_equalityI)
    fix x assume x: "x < length (map foldc (drop ?j ls))"
    then have xm: "x < m" using len m(2) by simp
    have "rev ps ! (m - 1 - x) = ps ! (?j + x)" "rev (name_offsets 0 nl) ! (m - 1 - x) = name_offsets 0 nl ! (?n + x)"
      using xm m(1,2) by (simp_all add: rev_nth Suc_diff_Suc)
    then show "map foldc (drop ?j ls) ! x = map foldc (drop ?n nl) ! x"
      using m(5)[rule_format, of "m - 1 - x"] at(2) [of "?n + x"] label_at_spell [OF sp, of "?j + x"] xm m(1,2) len by simp
  qed (use len m in simp)
  moreover have "pos = ps ! ?j" using m0 m(2) by (simp add: rev_nth)
  ultimately show thesis using that [of ?n ?j] m0 m(1,2) by simp
qed

section \<open>Looking a name up\<close>

text \<open>At \<open>pos\<close> the content spells, up to case, the labels of \<open>nl\<close> from some point on; they take \<open>ml\<close> bytes.\<close>

definition suffix_at :: "(nat \<Rightarrow> bool) \<Rightarrow> bytes \<Rightarrow> bytes list \<Rightarrow> nat \<Rightarrow> nat \<Rightarrow> bool" where
  "suffix_at F c nl pos ml \<longleftrightarrow>
     (\<exists>n ps ls k. n < length nl \<and> ml = length (encode (drop n nl)) \<and> 12 \<le> pos \<and> pos < length c \<and>
        spell F c pos pos (pos # ps) ls k \<and> map foldc ls = map foldc (drop n nl))"

lemma match_suffix_at:
  assumes "list_all valid_label nl" "spell F c p p ps ls k" "12 \<le> p"
    "match_labels (encode nl) c (rev (name_offsets 0 nl)) (rev ps) 1 None = (cm, Some pos, wh)"
  shows "suffix_at F c nl pos cm"
proof -
  obtain n j where nj: "n < length nl" "cm = length (encode (drop n nl))" "j < length ps" "pos = ps ! j"
      "map foldc (drop j ls) = map foldc (drop n nl)"
    using match_suffix [OF assms(1,2,4)] by metis
  obtain k' where "spell F c pos pos (pos # drop (Suc j) ps) (drop j ls) k'"
    using spell_suffix [OF assms(2) order_refl nj(3)] nj(3,4) by (metis Cons_nth_drop_Suc)
  moreover have "12 \<le> pos" "pos < length c"
    using spell_positions [OF assms(2,3)] spell_length [OF assms(2)] nj(3,4) by auto
  ultimately show ?thesis using nj by (auto simp: suffix_at_def)
qed

lemma lookup_positions_suffix:
  "list_all valid_label nl \<Longrightarrow> length c \<le> maxCompressionOffset \<Longrightarrow>
   (\<forall>p \<in> set nps. 12 \<le> p \<and> (\<exists>ps ls k. spell F c p p ps ls k)) \<Longrightarrow> b = 0 \<or> suffix_at F c nl b m \<Longrightarrow>
   lookup_positions (encode nl) c (name_offsets 0 nl) nps b m = (b', m') \<Longrightarrow> b' = 0 \<or> suffix_at F c nl b' m'"
proof (induction nps arbitrary: b m)
  case (Cons p nps)
  obtain ps ls k where sp: "12 \<le> p" "spell F c p p ps ls k" using Cons.prems(3) by auto
  note step = Cons.IH [OF Cons.prems(1,2)]
  have rest: "b' = 0 \<or> suffix_at F c nl b' m'"
    if "lookup_positions (encode nl) c (name_offsets 0 nl) nps x y = (b', m')" "x = 0 \<or> suffix_at F c nl x y" for x y
    using step [OF _ that(2,1)] Cons.prems(3) by simp
  show ?case
  proof (cases "positionsInPacket c p 50 []")
    case None
    then show ?thesis using Cons.prems rest by simp
  next
    case (Some pp)
    have pp: "pp = ps"
      using positionsInPacket_spell [OF sp(2) order_refl Cons.prems(2), of "[]" 50] Some
      by (simp add: static_vector_capacity_def split: if_splits)
    obtain cm last' wh where match: "match_labels (encode nl) c (rev (name_offsets 0 nl)) (rev ps) 1 None = (cm, last', wh)"
      by (cases "match_labels (encode nl) c (rev (name_offsets 0 nl)) (rev ps) 1 None") auto
    show ?thesis
    proof (cases last')
      case None
      then show ?thesis using Cons.prems(4,5) Some pp match rest by (cases wh) auto
    next
      case (Some pos)
      then have "suffix_at F c nl pos cm" using match_suffix_at [OF Cons.prems(1) sp(2,1)] match by simp
      then show ?thesis
        using Cons.prems(4,5) \<open>positionsInPacket c p 50 [] = Some pp\<close> pp match Some rest
        by (cases wh) (auto split: if_splits)
    qed
  qed
qed simp

lemma lookupName_suffix:
  assumes "list_all valid_label nl" "length (w_content w) \<le> maxCompressionOffset"
    "\<forall>p \<in> set (w_namepositions w). 12 \<le> p \<and> (\<exists>ps ls k. spell F (w_content w) p p ps ls k)"
    "lookupName w (name_of nl) = (li, ml)" "li \<noteq> 0"
  shows "suffix_at F (w_content w) nl li ml"
  using assms(4,5) positionsInName_encode [OF assms(1), of "[]" "[]"] lookup_positions_suffix [OF assms(1-3), of 0 0 li ml]
  by (auto simp: lookupName_def split: if_splits option.splits)

section \<open>Denotation\<close>

lemma seg_snoc:
  "seg c s pre i \<Longrightarrow> valid_label l \<Longrightarrow> i + 1 + length l < length c \<Longrightarrow> c ! i = of_nat (length l) \<Longrightarrow>
   take (length l) (drop (i + 1) c) = l \<Longrightarrow> seg c s (pre @ [l]) (i + 1 + length l)"
  by (induction c s pre i rule: seg.induct) auto

lemma spell_wire:
  "spell F c s i ps ls k \<Longrightarrow> 12 \<le> s \<Longrightarrow> seg c s pre i \<Longrightarrow>
   pre \<noteq> [] \<or> cc \<le> s_maxPointersToPointers \<or> (\<exists>r. ps = i # r) \<Longrightarrow> \<exists>p. wire c 12 cc s (pre @ ls) k p"
proof (induction arbitrary: pre cc rule: spell.induct)
  case (sp_end i s)
  then show ?case using wire_end [of 12 s c pre i cc] by auto
next
  case (sp_label l i s ps ls k)
  then show ?case using sp_label.IH [of "pre @ [l]" cc] seg_snoc [OF sp_label.prems(2) sp_label.hyps(1-4)] by auto
next
  case (sp_ptr i t s ps ls k)
  have i: "s \<le> i" "i < length c" using seg_bounds [OF sp_ptr.prems(2)] by auto
  have "seg c t [] t" using sp_ptr.hyps(7) i by simp
  then obtain q where q: "wire c 12 (if pre = [] then cc + 1 else 0) t ls k q"
    using sp_ptr.IH [of "[]"] sp_ptr.hyps(6) by fastforce
  have "pre = [] \<longrightarrow> cc \<le> s_maxPointersToPointers"
    using sp_ptr.prems(3) sp_ptr.hyps(7) i by auto
  then have "wire c 12 cc s (pre @ ls) (Suc k) (i + 2)"
    using wire_pointer [OF sp_ptr.prems(1,2) sp_ptr.hyps(1,2)] sp_ptr.hyps(5,7) q by simp
  then show ?case by blast
qed

section \<open>The invariant of the writer\<close>

text \<open>The bytes the writer may still change: the header, and the length field of the record it is in.\<close>

definition w_free :: "DNSPacketWriter \<Rightarrow> nat \<Rightarrow> bool" where
  "w_free w x \<longleftrightarrow> x < 12 \<or> w_sor w \<noteq> 0 \<and> (x = w_sor w - 2 \<or> x = w_sor w - 1)"

definition w_inv :: "DNSPacketWriter \<Rightarrow> bool" where
  "w_inv w \<longleftrightarrow> 12 \<le> length (w_content w) \<and> (w_sor w \<noteq> 0 \<longrightarrow> 14 \<le> w_sor w \<and> w_sor w \<le> length (w_content w)) \<and>
     (\<forall>p \<in> set (w_namepositions w). 12 \<le> p \<and> (\<exists>ps ls k. spell (w_free w) (w_content w) p p ps ls k))"

lemma w_free_beyond: "w_inv w \<Longrightarrow> length (w_content w) \<le> x \<Longrightarrow> \<not> w_free w x"
  by (auto simp: w_inv_def w_free_def)

text \<open>Appending keeps the invariant.\<close>

lemma w_inv_append:
  assumes "w_inv w"
  shows "w_inv (w\<lparr>w_content := w_content w @ bs\<rparr>)"
proof -
  have "w_free (w\<lparr>w_content := w_content w @ bs\<rparr>) = w_free w" by (rule ext) (simp add: w_free_def)
  then show ?thesis using assms spell_append unfolding w_inv_def by (fastforce simp: w_inv_def)
qed

text \<open>Labels written at the end of the content, followed by a name part that is spelled already.\<close>

lemma spell_labels:
  "list_all valid_label pre \<Longrightarrow> (\<forall>x \<ge> length c. \<not> F x) \<Longrightarrow>
   spell F (c @ concat (map enc_label pre) @ tail) s (length c + length (concat (map enc_label pre))) ps ls k \<Longrightarrow> tail \<noteq> [] \<Longrightarrow>
   spell F (c @ concat (map enc_label pre) @ tail) s (length c) (name_offsets (length c) pre @ ps) (pre @ ls) k"
proof (induction pre arbitrary: c)
  case (Cons l pre)
  let ?d = "c @ enc_label l"
  have e: "c @ concat (map enc_label (l # pre)) @ tail = ?d @ concat (map enc_label pre) @ tail" by simp
  have "spell F (?d @ concat (map enc_label pre) @ tail) s (length ?d) (name_offsets (length ?d) pre @ ps) (pre @ ls) k"
    using Cons.prems by (intro Cons.IH) (simp_all add: add.assoc)
  then have "spell F (?d @ concat (map enc_label pre) @ tail) s (length c) (length c # name_offsets (length ?d) pre @ ps) (l # pre @ ls) k"
    using Cons.prems by (intro spell.sp_label) (auto simp: enc_label_def nth_append)
  then show ?case unfolding e by (simp add: enc_label_def)
qed simp

section \<open>Writing a name\<close>

text \<open>
  \<open>name_written w w' nl ls k\<close>: from \<open>w\<close> to \<open>w'\<close> the bytes of a name were appended that denote the labels \<open>ls\<close>, equal to
  \<open>nl\<close> up to case, through \<open>k\<close> pointers.
\<close>

definition name_written :: "DNSPacketWriter \<Rightarrow> DNSPacketWriter \<Rightarrow> bytes list \<Rightarrow> bytes list \<Rightarrow> nat \<Rightarrow> bool" where
  "name_written w w' nl ls k \<longleftrightarrow>
     w_inv w' \<and> (\<exists>bs nps. bs \<noteq> [] \<and> w' = w\<lparr>w_content := w_content w @ bs, w_namepositions := w_namepositions w @ nps\<rparr>) \<and>
     (\<exists>ps. spell (w_free w) (w_content w') (length (w_content w)) (length (w_content w)) ps ls k) \<and>
     map foldc ls = map foldc nl \<and>
     wire (w_content w') 12 0 (length (w_content w)) ls k (length (w_content w'))"

lemma name_writtenI:
  assumes "w_inv w" "bs \<noteq> []" "spell (w_free w) (w_content w @ bs) (length (w_content w)) (length (w_content w)) ps ls k"
    "map foldc ls = map foldc nl"
    "wire (w_content w @ bs) 12 0 (length (w_content w)) ls k (length (w_content w @ bs))"
    "w' = w\<lparr>w_content := w_content w @ bs, w_namepositions := w_namepositions w @ (if b then [length (w_content w)] else [])\<rparr>"
  shows "name_written w w' nl ls k"
proof -
  have free: "w_free w' = w_free w" using assms(6) by (intro ext) (simp add: w_free_def)
  have "\<exists>ps ls k. spell (w_free w) (w_content w @ bs) p p ps ls k" "12 \<le> p" if "p \<in> set (w_namepositions w)" for p
    using assms(1) that spell_append [of "w_free w" "w_content w" p p] unfolding w_inv_def by blast+
  then have "w_inv w'"
    unfolding w_inv_def free using assms(1,3,6) by (auto simp: w_inv_def)
  moreover have "\<exists>bs nps. bs \<noteq> [] \<and> w' = w\<lparr>w_content := w_content w @ bs, w_namepositions := w_namepositions w @ nps\<rparr>"
    using assms(2,6) by blast
  moreover have "w_content w' = w_content w @ bs" using assms(6) by simp
  ultimately show ?thesis using assms(3-5) unfolding name_written_def by auto
qed

lemma write_whole:
  assumes inv: "w_inv w" and ls: "list_all valid_label ls" "map foldc ls = map foldc nl"
    and w': "w' = w\<lparr>w_content := w_content w @ encode ls, w_namepositions := w_namepositions w @ (if b then [length (w_content w)] else [])\<rparr>"
  shows "name_written w w' nl ls 0"
proof -
  let ?c = "w_content w"
  have e: "?c @ encode ls = ?c @ concat (map enc_label ls) @ [0]" by (simp add: encode_def)
  have free: "\<forall>x \<ge> length ?c. \<not> w_free w x" using w_free_beyond [OF inv] by blast
  have "spell (w_free w) (?c @ encode ls) (length ?c) (length ?c) (name_offsets (length ?c) ls @ []) (ls @ []) 0"
    unfolding e using ls(1) free by (intro spell_labels spell.sp_end) (auto simp: nth_append)
  moreover have "wire (?c @ encode ls) 12 0 (length ?c) ls 0 (length ?c + length (concat (map enc_label ls)) + 1)"
    using inv seg_encode [OF ls(1), of ?c 0 "[]"] by (intro wire_end) (simp_all add: encode_def w_inv_def nth_append)
  ultimately show ?thesis using inv ls w' by (intro name_writtenI) (auto simp: encode_def)
qed

lemma pointer_bytes:
  assumes "li < maxCompressionOffset"
  shows "0xc0 \<le> (of_nat ((li + 49152) div 256) :: u8)"
    "(unat (of_nat ((li + 49152) div 256) :: u8) - 192) * 256 + unat (of_nat ((li + 49152) mod 256) :: u8) = li"
proof -
  have d: "(li + 49152) div 256 = 192 + li div 256" "(li + 49152) mod 256 = li mod 256"
    using div_mult_self1 [of 256 li 192] mod_mult_self1 [of li 192 256] by simp_all
  have "li div 256 < 64" using assms by (simp add: maxCompressionOffset_def less_mult_imp_div_less)
  then have u: "unat (of_nat ((li + 49152) div 256) :: u8) = 192 + li div 256"
    "unat (of_nat ((li + 49152) mod 256) :: u8) = li mod 256"
    unfolding d by (simp_all only: unat_of_nat_mod_u8) simp_all
  show "0xc0 \<le> (of_nat ((li + 49152) div 256) :: u8)" by (simp only: word_le_nat_alt u) simp
  show "(unat (of_nat ((li + 49152) div 256) :: u8) - 192) * 256 + unat (of_nat ((li + 49152) mod 256) :: u8) = li"
    unfolding u by simp
qed

lemma write_pointer:
  assumes inv: "w_inv w" and nl: "list_all valid_label nl" and suf: "suffix_at (w_free w) (w_content w) nl li ml"
    and li: "li < maxCompressionOffset"
    and w': "w' = w\<lparr>w_content := w_content w @ take (length (encode nl) - ml) (encode nl) @
      [of_nat ((li + 49152) div 256), of_nat ((li + 49152) mod 256)],
      w_namepositions := w_namepositions w @ (if b then [length (w_content w)] else [])\<rparr>"
  shows "\<exists>ls k. name_written w w' nl ls k"
proof -
  let ?c = "w_content w" and ?F = "w_free w"
  obtain n ps ls k where n: "n < length nl" "ml = length (encode (drop n nl))" "12 \<le> li" "li < length ?c"
      and sp: "spell ?F ?c li li (li # ps) ls k" and fold: "map foldc ls = map foldc (drop n nl)"
    using suf by (auto simp: suffix_at_def)
  let ?pre = "take n nl" and ?ptr = "[of_nat ((li + 49152) div 256), of_nat ((li + 49152) mod 256)] :: bytes"
  let ?c' = "?c @ concat (map enc_label ?pre) @ ?ptr" and ?e = "length ?c + length (concat (map enc_label ?pre))"
  have pre: "list_all valid_label ?pre" using nl by (simp add: list_all_iff) (meson in_set_takeD)
  have "encode nl = concat (map enc_label ?pre) @ encode (drop n nl)"
    by (simp add: encode_def) (metis append_take_drop_id concat_append map_append)
  then have take: "take (length (encode nl) - ml) (encode nl) = concat (map enc_label ?pre)" using n(2) by simp
  have bytes: "?c' ! ?e = of_nat ((li + 49152) div 256)" "?c' ! (?e + 1) = of_nat ((li + 49152) mod 256)"
    by (simp_all add: nth_append)
  have target: "pointer_target ?c' ?e = li" "0xc0 \<le> ?c' ! ?e"
    using pointer_bytes [OF li] unfolding pointer_target_def bytes by simp_all
  have free: "\<forall>x \<ge> length ?c. \<not> ?F x" using w_free_beyond [OF inv] by blast
  have sp': "spell ?F ?c' li li (li # ps) ls k" using spell_append [OF sp] by blast
  have "spell ?F ?c' (length ?c) ?e (li # ps) ls (Suc k)"
    using target free n(3,4) sp' by (intro spell.sp_ptr) simp_all
  then have name: "spell ?F ?c' (length ?c) (length ?c) (name_offsets (length ?c) ?pre @ li # ps) (?pre @ ls) (Suc k)"
    using pre free by (intro spell_labels) simp_all
  obtain q where q: "wire ?c' 12 (if ?pre = [] then 1 else 0) li ls k q"
    using spell_wire [OF sp' n(3), of "[]"] n(4) by force
  have seg: "seg ?c' (length ?c) ?pre ?e" using seg_encode [OF pre, of ?c _ "[of_nat ((li + 49152) mod 256)]"] by simp
  have "wire ?c' 12 0 (length ?c) (?pre @ ls) (Suc k) (?e + 2)"
    using inv n(4) target q seg by (intro wire_pointer [OF _ seg]) (auto simp: w_inv_def split: if_splits)
  moreover have "map foldc (?pre @ ls) = map foldc nl" using fold by (metis append_take_drop_id map_append)
  ultimately have "name_written w w' nl (?pre @ ls) (Suc k)"
    using inv name w' unfolding take by (intro name_writtenI) auto
  then show ?thesis by blast
qed

lemma xfrName_written:
  assumes inv: "w_inv w" and nl: "valid_labels nl" and size: "length (w_content w) \<le> maxCompressionOffset"
  shows "\<exists>w' ls k. pw_xfrName (name_of nl) compress w = (Inr (), w') \<and> name_written w w' nl ls k"
proof -
  have v: "list_all valid_label nl" using nl by (simp add: valid_labels_def)
  note [simp] = pw_append_def
  show ?thesis
  proof (cases "DNSName_empty (name_of nl) \<or> DNSName_isRoot (name_of nl)")
    case True
    then have "nl = []" using v by (auto simp: DNSName_empty_def DNSName_isRoot_def encode_def neq_Nil_conv enc_label_def)
    then have "name_written w (w\<lparr>w_content := w_content w @ [0]\<rparr>) nl [] 0"
      by (intro write_whole [OF inv, where b = False]) (simp_all add: encode_def)
    then show ?thesis using True by (auto simp: pw_xfrName_def)
  next
    case False
    let ?on = "w_compress w \<and> compress \<and> \<not> w_canonic w \<and> \<not> w_lowerCase w"
    obtain li ml where look: "(if ?on then lookupName w (name_of nl) else (0, 0)) = (li, ml)" by fastforce
    show ?thesis
    proof (cases "?on \<and> li \<noteq> 0 \<and> li < maxCompressionOffset")
      case True
      then have "suffix_at (w_free w) (w_content w) nl li ml"
        using lookupName_suffix [OF v size, of "w_free w" li ml] look inv by (simp add: w_inv_def)
      then obtain ls k where "name_written w (w\<lparr>w_content := w_content w @ take (length (encode nl) - ml) (encode nl) @
          [of_nat ((li + 49152) div 256), of_nat ((li + 49152) mod 256)],
          w_namepositions := w_namepositions w @ (if length (w_content w) < maxCompressionOffset \<and> ml \<noteq> length (encode nl)
            then [length (w_content w)] else [])\<rparr>) nl ls k"
        using write_pointer [OF inv v] True by blast
      moreover have "pw_xfrName (name_of nl) compress w = (Inr (), w\<lparr>w_content := w_content w @ take (length (encode nl) - ml) (encode nl) @
          [of_nat ((li + 49152) div 256), of_nat ((li + 49152) mod 256)],
          w_namepositions := w_namepositions w @ (if length (w_content w) < maxCompressionOffset \<and> ml \<noteq> length (encode nl)
            then [length (w_content w)] else [])\<rparr>)"
        using False True look by (simp add: pw_xfrName_def Let_def)
      ultimately show ?thesis by blast
    next
      case off: False
      let ?ls = "if w_lowerCase w then map foldc nl else nl"
      have "list_all valid_label ?ls" "map foldc ?ls = map foldc nl" using v by (auto simp: list_all_iff valid_label_def)
      then have "name_written w (w\<lparr>w_content := w_content w @ encode ?ls, w_namepositions := w_namepositions w @
          (if length (w_content w) < maxCompressionOffset then [length (w_content w)] else [])\<rparr>) nl ?ls 0"
        by (intro write_whole [OF inv]) auto
      moreover have "pw_xfrName (name_of nl) compress w = (Inr (), w\<lparr>w_content := w_content w @ encode ?ls, w_namepositions := w_namepositions w @
          (if length (w_content w) < maxCompressionOffset then [length (w_content w)] else [])\<rparr>)"
        using False off look makeLowerCase_name_of [OF nl] by (auto simp: pw_xfrName_def Let_def split: if_splits)
      ultimately show ?thesis by blast
    qed
  qed
qed

end
