(* ===== verification/CompressionLaws.thy ===== *)
theory CompressionLaws
  imports Compression
begin

text \<open>
  What name compression guarantees, and where it goes wrong: near the largest offset a pointer can
  hold, and when names nest more deeply than the parser follows pointers.
\<close>

unbundle bit_operations_syntax

lemma valid_labels_fold_eq:
  assumes "map foldc ls = map foldc nl" "valid_labels nl"
  shows "valid_labels ls"
proof -
  have "map length ls = map length nl"
    using arg_cong [OF assms(1), of "map length"] by (simp add: comp_def)
  then have "list_all valid_label ls" using assms(2)
    by (auto simp: valid_labels_def list_all_length valid_label_def dest: map_eq_imp_length_eq) (metis length_map nth_map)+
  moreover have "length (encode ls) = length (encode nl)" using length_encode_foldc [of ls] length_encode_foldc [of nl] assms(1) by simp
  ultimately show ?thesis using assms(2) by (simp add: valid_labels_def)
qed

lemma name_eq_fold: "valid_labels ls \<Longrightarrow> valid_labels nl \<Longrightarrow> map foldc ls = map foldc nl \<Longrightarrow> DNSName_eq (name_of ls) (name_of nl)"
  by (simp add: DNSName_eq_iff foldc_encode valid_labels_def)

text \<open>A name stays where it is when bytes are appended to the packet.\<close>

lemma seg_append: "seg view pos ls e \<Longrightarrow> seg (view @ x) pos ls e"
  by (induction ls arbitrary: pos) (auto simp: nth_append)

lemma wire_append: "wire view m c off ls k p \<Longrightarrow> wire (view @ x) m c off ls k p"
proof (induction rule: wire.induct)
  case (wire_end off ls e c)
  then have "(view @ x) ! e = 0" using seg_bounds [of view off ls e] by (simp add: nth_append)
  then show ?case using wire_end seg_append by (intro wire.wire_end)
next
  case (wire_pointer off ls e c ks k q)
  have "(view @ x) ! e = view ! e" "pointer_target (view @ x) e = pointer_target view e"
    using wire_pointer.hyps(4) by (simp_all add: nth_append pointer_target_def)
  then show ?case using wire_pointer seg_append by (intro wire.wire_pointer) auto
qed

lemma from_packet_wire:
  assumes "wire view 12 0 off ls k p" "valid_labels ls" "k \<le> s_maxPointersPerName"
  shows "DNSName_from_packet view off True False False 12 None = Inr (name_of ls, p - off, None, None, None)"
proof -
  obtain bud' where r: "DNSName_from_packet view off True False False 12 None = Inr (name_of ls, p - off, bud', None, None)"
    using from_packet_complete [OF assms, of None True] by auto
  then have "bud' = None" using packetParser_bounds by (fastforce simp: DNSName_from_packet_def bindR_Inr_iff split: if_splits)
  then show ?thesis using r by simp
qed

lemma name_written_pointers: "name_written w w' nl ls k \<Longrightarrow> k \<le> length nl"
  using spell_pointers spell_length by (fastforce simp: name_written_def dest: map_eq_imp_length_eq)

text \<open>
  Claim C7 (compression is correct): while the packet is at most 16384 bytes long, writing any valid name,
  with or without compression, only appends bytes, and they denote that name up to case, whatever was
  written before. It takes at most as many pointers as the name has labels; the parser of names reads it
  back, equal under \<^verbatim>\<open>operator==\<close>, from exactly the bytes written whenever the pointers are at most ten, which is
  the limit of the parser. Every name that was in the packet before, and that the parser can read, reads
  as the very same name at the same place afterwards, and the positions that later names may
  point to stay valid.
\<close>

theorem xfrName_compression_correct:
  assumes "w_inv w" "valid_labels nl" "length (w_content w) \<le> maxCompressionOffset"
  shows "\<exists>w' bs ls k. pw_xfrName (name_of nl) compress w = (Inr (), w') \<and> w_inv w' \<and> w_content w' = w_content w @ bs \<and>
    wire (w_content w') 12 0 (length (w_content w)) ls k (length (w_content w')) \<and> map foldc ls = map foldc nl \<and> k \<le> length nl \<and>
    (k \<le> s_maxPointersPerName \<longrightarrow>
       DNSName_from_packet (w_content w') (length (w_content w)) True False False 12 None =
         Inr (name_of ls, length (w_content w') - length (w_content w), None, None, None) \<and>
       DNSName_eq (name_of ls) (name_of nl)) \<and>
    (\<forall>off ms j q. wire (w_content w) 12 0 off ms j q \<longrightarrow> valid_labels ms \<longrightarrow> j \<le> s_maxPointersPerName \<longrightarrow>
       DNSName_from_packet (w_content w') off True False False 12 None = Inr (name_of ms, q - off, None, None, None))"
proof -
  obtain w' ls k where w': "pw_xfrName (name_of nl) compress w = (Inr (), w')" "name_written w w' nl ls k"
    using xfrName_written [OF assms] by blast
  then obtain bs where facts: "w_inv w'" "w_content w' = w_content w @ bs" "map foldc ls = map foldc nl"
    "wire (w_content w') 12 0 (length (w_content w)) ls k (length (w_content w'))" by (auto simp: name_written_def)
  have v: "valid_labels ls" using valid_labels_fold_eq [OF facts(3) assms(2)] .
  have new: "k \<le> s_maxPointersPerName \<longrightarrow>
       DNSName_from_packet (w_content w') (length (w_content w)) True False False 12 None =
         Inr (name_of ls, length (w_content w') - length (w_content w), None, None, None) \<and>
       DNSName_eq (name_of ls) (name_of nl)"
    using from_packet_wire [OF facts(4) v] name_eq_fold [OF v assms(2) facts(3)] by blast
  have old: "\<forall>off ms j q. wire (w_content w) 12 0 off ms j q \<longrightarrow> valid_labels ms \<longrightarrow> j \<le> s_maxPointersPerName \<longrightarrow>
       DNSName_from_packet (w_content w') off True False False 12 None = Inr (name_of ms, q - off, None, None, None)"
    using from_packet_wire [OF wire_append] by (simp add: facts(2))
  from w'(1) facts name_written_pointers [OF w'(2)] new old show ?thesis by blast
qed

text \<open>A writer that has written a header and one name, for the example.\<close>

definition example_writer :: "bytes \<Rightarrow> bytes list \<Rightarrow> DNSPacketWriter" where
  "example_writer pre ls =
     \<lparr>w_namepositions = [length pre], w_qname = g_rootdnsname, w_content = pre @ encode ls, w_sor = 0, w_rollbackmarker = 0,
      w_truncatemarker = 0, w_recordplace = ANSWER, w_canonic = False, w_lowerCase = False, w_compress = True\<rparr>"

lemma example_writer_inv:
  assumes "12 \<le> length pre" "list_all valid_label ls"
  shows "w_inv (example_writer pre ls)"
proof -
  let ?w = "(example_writer pre ls)\<lparr>w_content := pre, w_namepositions := []\<rparr>"
  have "w_inv ?w" using assms(1) by (simp add: w_inv_def example_writer_def)
  moreover have "example_writer pre ls = ?w\<lparr>w_content := w_content ?w @ encode ls,
      w_namepositions := w_namepositions ?w @ (if True then [length (w_content ?w)] else [])\<rparr>"
    by (simp add: example_writer_def)
  ultimately show ?thesis using write_whole [of ?w ls ls "example_writer pre ls" True] assms(2) by (simp add: name_written_def)
qed

theorem xfrName_compression_correct_witness:
  "\<exists>w' ls. pw_xfrName (name_of [[119], [99, 111]]) True (example_writer (replicate 12 0) [[67, 79]]) = (Inr (), w') \<and>
     DNSName_from_packet (w_content w') 16 True False False 12 None = Inr (name_of ls, length (w_content w') - 16, None, None, None) \<and>
     DNSName_eq (name_of ls) (name_of [[119], [99, 111]]) \<and>
     DNSName_from_packet (w_content w') 12 True False False 12 None = Inr (name_of [[67, 79]], 4, None, None, None)"
proof -
  let ?w = "example_writer (replicate 12 0) [[67, 79]]"
  have inv: "w_inv ?w" by (intro example_writer_inv) (simp_all add: valid_label_def)
  have c: "w_content ?w = replicate 12 0 @ [2, 67, 79, 0]" by (simp add: example_writer_def encode_def enc_label_def)
  have old: "wire (w_content ?w) 12 0 12 [[67, 79]] 0 (15 + 1)"
    by (rule wire_end) (simp_all add: c valid_label_def nth_append)
  have v: "valid_labels [[67, 79]]" "valid_labels [[119], [99, 111]]" by code_simp+
  show ?thesis
    using xfrName_compression_correct [OF inv v(2), of True] old v(1)
    by (fastforce simp: c maxCompressionOffset_def s_maxPointersPerName_def)
qed

section \<open>Across the largest offset\<close>

text \<open>The names \<^verbatim>\<open>com.example.org\<close> and \<^verbatim>\<open>powerdns.com\<close>.\<close>

definition com_example_org :: "bytes list" where
  "com_example_org = [[99, 111, 109], [101, 120, 97, 109, 112, 108, 101], [111, 114, 103]]"

definition powerdns_com :: "bytes list" where
  "powerdns_com = [[112, 111, 119, 101, 114, 100, 110, 115], [99, 111, 109]]"

lemma straddle_positions:
  assumes "length c = 16380"
  shows "positionsInPacket (c @ encode com_example_org) 16380 50 [] = Some [16380]"
proof -
  let ?c = "c @ encode com_example_org"
  have enc: "encode com_example_org = [3, 99, 111, 109, 7, 101, 120, 97, 109, 112, 108, 101, 3, 111, 114, 103, 0]"
    by (simp add: com_example_org_def encode_def enc_label_def)
  have "?c ! 16380 = 3" "?c ! 16384 = 7" "length ?c = 16397" using assms by (simp_all add: enc nth_append)
  then show ?thesis
    by (subst positionsInPacket.simps, simp add: static_vector_capacity_def maxCompressionOffset_def Let_def)
      (subst positionsInPacket.simps, simp add: maxCompressionOffset_def Let_def)
qed

lemma straddle_lookup:
  assumes "length c = 16380"
  shows "lookupName (example_writer c com_example_org) (name_of powerdns_com) = (16380, 5)"
proof -
  let ?c = "c @ encode com_example_org"
  have enc: "encode com_example_org = [3, 99, 111, 109, 7, 101, 120, 97, 109, 112, 108, 101, 3, 111, 114, 103, 0]"
    "encode powerdns_com = [8, 112, 111, 119, 101, 114, 100, 110, 115, 3, 99, 111, 109, 0]"
    by (simp_all add: com_example_org_def powerdns_com_def encode_def enc_label_def)
  have "list_all valid_label powerdns_com" by code_simp
  then have name: "positionsInName (encode powerdns_com) 0 [] = Some [0, 9]"
    using positionsInName_encode [of powerdns_com "[]" "[]"] by (simp add: powerdns_com_def static_vector_capacity_def)
  have "?c ! 16380 = 3" "take 3 (drop 16381 ?c) = [99, 111, 109]" using assms by (simp_all add: enc nth_append)
  then have "match_labels (encode powerdns_com) ?c [9, 0] [16380] 1 None = (5, Some 16380, False)"
    by (simp add: enc(2) Let_def ilex_eq_0_iff)
  then show ?thesis
    using assms name straddle_positions [OF assms] by (simp add: lookupName_def example_writer_def)
qed

text \<open>
  Claim C37 (a name across offset 16384): when \<^verbatim>\<open>com.example.org\<close> was written at offset 16380 of any packet, so that only its
  first label lies below the largest offset a pointer can hold, the writer takes that label for
  the last one of the name. It then writes \<^verbatim>\<open>powerdns.com\<close> as \<^verbatim>\<open>powerdns\<close> with a pointer to offset 16380, and the name
  read back is \<^verbatim>\<open>powerdns.com.example.org\<close>.
\<close>

theorem xfrName_across_max_offset:
  assumes "length c = 16380"
  shows "\<exists>w'. pw_xfrName (name_of powerdns_com) True (example_writer c com_example_org) = (Inr (), w') \<and>
    (\<exists>bud. DNSName_from_packet (w_content w') 16397 True False False 12 None =
       Inr (name_of (butlast powerdns_com @ com_example_org), 11, bud, None, None))"
proof -
  let ?w = "example_writer c com_example_org"
  let ?c' = "c @ encode com_example_org @ [8, 112, 111, 119, 101, 114, 100, 110, 115, 255, 252]"
  let ?w' = "?w\<lparr>w_content := ?c'\<rparr>"
  have enc: "encode com_example_org = [3, 99, 111, 109, 7, 101, 120, 97, 109, 112, 108, 101, 3, 111, 114, 103, 0]"
    "encode powerdns_com = [8, 112, 111, 119, 101, 114, 100, 110, 115, 3, 99, 111, 109, 0]"
    by (simp_all add: com_example_org_def powerdns_com_def encode_def enc_label_def)
  have "length (w_content ?w) = 16397" using assms by (simp add: example_writer_def enc)
  then have written: "pw_xfrName (name_of powerdns_com) True ?w = (Inr (), ?w')"
    using straddle_lookup [OF assms]
    by (simp add: pw_xfrName_def pw_append_def maxCompressionOffset_def DNSName_empty_def DNSName_isRoot_def enc
        example_writer_def Let_def)
  have v: "list_all valid_label com_example_org" "list_all valid_label (butlast powerdns_com)" by code_simp+
  have c': "?c' = c @ concat (map enc_label com_example_org) @ 0 # [8, 112, 111, 119, 101, 114, 100, 110, 115, 255, 252]"
    "?c' = (c @ encode com_example_org) @ concat (map enc_label (butlast powerdns_com)) @ 255 # [252]"
    by (simp_all add: encode_def powerdns_com_def enc_label_def)
  have "seg ?c' 16380 com_example_org 16396" unfolding c'(1)
    using seg_encode [OF v(1), of c 0] assms by (simp add: com_example_org_def enc_label_def)
  moreover have "?c' ! 16396 = 0" using assms by (simp add: enc nth_append)
  ultimately have 1: "wire ?c' 12 0 16380 com_example_org 0 16397"
    using wire_end [of 12 16380 ?c' com_example_org 16396 0] by simp
  have seg: "seg ?c' 16397 (butlast powerdns_com) 16406" unfolding c'(2)
    using seg_encode [OF v(2), of "c @ encode com_example_org" 255 "[252]"] assms
    by (simp add: enc powerdns_com_def enc_label_def)
  have ptr: "?c' ! 16406 = 255" "?c' ! 16407 = 252" "length ?c' = 16408" using assms by (simp_all add: enc nth_append)
  then have "pointer_target ?c' 16406 = 16380" by (simp add: pointer_target_def)
  then have 2: "wire ?c' 12 0 16397 (butlast powerdns_com @ com_example_org) (Suc 0) (16406 + 2)"
    using 1 ptr by (intro wire_pointer [OF _ seg]) (simp_all add: powerdns_com_def)
  have "valid_labels (butlast powerdns_com @ com_example_org)" by code_simp
  then have "\<exists>bud'. DNSName_from_packet ?c' 16397 True False False 12 None =
      Inr (name_of (butlast powerdns_com @ com_example_org), 11, bud', None, None)"
    using from_packet_complete [OF 2, of None True] by (simp add: s_maxPointersPerName_def)
  then show ?thesis using written by auto
qed

theorem xfrName_across_max_offset_witness:
  "\<exists>w'. pw_xfrName (name_of powerdns_com) True (example_writer (replicate 16380 0) com_example_org) = (Inr (), w') \<and>
    (\<exists>bud. DNSName_from_packet (w_content w') 16397 True False False 12 None =
       Inr (name_of (butlast powerdns_com @ com_example_org), 11, bud, None, None))"
  by (rule xfrName_across_max_offset) (rule length_replicate)

end
