(* ===== verification/WriterRecords.thy ===== *)
theory WriterRecords
  imports CompressionLaws
begin

text \<open>
  Records: every operation of the writer that appends, and \<^verbatim>\<open>commit\<close>, keep the names written before
  readable; what \<^verbatim>\<open>startRecord\<close> and \<^verbatim>\<open>commit\<close> leave in the content.
\<close>

unbundle bit_operations_syntax

section \<open>Operations as equations\<close>

lemma xfr16_Inr: "pw_xfr16BitInt v w = (Inr u, w') \<longleftrightarrow> v \<le> 65535 \<and> w' = w\<lparr>w_content := w_content w @ to_be16 v\<rparr>"
  by (auto simp: pw_xfr16BitInt_def pw_append_def)

lemma xfr32_Inr: "pw_xfr32BitInt v w = (Inr u, w') \<longleftrightarrow> v \<le> 4294967295 \<and> w' = w\<lparr>w_content := w_content w @ to_be32 v\<rparr>"
  by (auto simp: pw_xfr32BitInt_def pw_append_def)

lemma append_Inr: "pw_append bs w = (Inr u, w') \<longleftrightarrow> w' = w\<lparr>w_content := w_content w @ bs\<rparr>"
  by (auto simp: pw_append_def)

lemma set_header_length: "12 \<le> length c \<Longrightarrow> length (set_header f c) = length c"
  by (simp add: set_header_def)

lemma set_header_nth: "12 \<le> j \<Longrightarrow> j < length c \<Longrightarrow> set_header f c ! j = c ! j"
  by (simp add: set_header_def nth_append)

definition with_length :: "nat \<Rightarrow> nat \<Rightarrow> bytes \<Rightarrow> bytes" where
  "with_length sor rlen c = c[sor - 2 := of_nat (rlen div 256), sor - 1 := of_nat (rlen mod 256)]"

lemma commit_cases:
  assumes "pw_commit w = (Inr u, w')"
  obtains "w_sor w = 0" "w' = w"
    | "w_sor w \<noteq> 0" "2 \<le> w_sor w" "w_sor w \<le> length (w_content w)" "length (w_content w) \<le> 65535"
      "w' = w\<lparr>w_content := set_header (count_record (w_recordplace w))
         (with_length (w_sor w) (length (w_content w) - w_sor w) (w_content w)), w_sor := 0\<rparr>"
  using assms by (auto simp: pw_commit_def Let_def with_length_def split: if_splits)

section \<open>Spelled names stay spelled\<close>

definition keeps_spelling :: "DNSPacketWriter \<Rightarrow> DNSPacketWriter \<Rightarrow> bool" where
  "keeps_spelling w w' \<longleftrightarrow> length (w_content w) \<le> length (w_content w') \<and>
     (\<forall>j < length (w_content w). \<not> w_free w j \<longrightarrow> w_content w' ! j = w_content w ! j \<and> \<not> w_free w' j)"

definition good_step :: "DNSPacketWriter \<Rightarrow> DNSPacketWriter \<Rightarrow> bool" where
  "good_step w w' \<longleftrightarrow> w_inv w' \<and> keeps_spelling w w' \<and> w_qname w' = w_qname w"

lemma keeps_spellingD: "keeps_spelling w w' \<Longrightarrow> spell (w_free w) (w_content w) s i ps ls k \<Longrightarrow> spell (w_free w') (w_content w') s i ps ls k"
  by (erule spell_change) (auto simp: keeps_spelling_def)

lemma keeps_spelling_trans: "keeps_spelling w w1 \<Longrightarrow> keeps_spelling w1 w2 \<Longrightarrow> keeps_spelling w w2"
  by (auto simp: keeps_spelling_def)

lemma good_step_trans: "good_step w w1 \<Longrightarrow> good_step w1 w2 \<Longrightarrow> good_step w w2"
  by (auto simp: good_step_def intro: keeps_spelling_trans)

lemma good_stepI:
  assumes "w_inv w" "keeps_spelling w w'" "w_namepositions w' = w_namepositions w" "w_qname w' = w_qname w"
    "w_sor w' \<noteq> 0 \<longrightarrow> 14 \<le> w_sor w' \<and> w_sor w' \<le> length (w_content w')"
  shows "good_step w w'"
proof -
  have "\<exists>ps ls k. spell (w_free w') (w_content w') p p ps ls k" if "p \<in> set (w_namepositions w)" for p
    using assms(1) that keeps_spellingD [OF assms(2)] unfolding w_inv_def by blast
  then show ?thesis using assms by (auto simp: good_step_def w_inv_def keeps_spelling_def)
qed

lemma append_good: "w_inv w \<Longrightarrow> good_step w (w\<lparr>w_content := w_content w @ bs\<rparr>)"
  by (rule good_stepI) (auto simp: keeps_spelling_def nth_append w_free_def w_inv_def)

lemma commit_good:
  assumes "pw_commit w = (Inr u, w')" "w_inv w"
  shows "good_step w w' \<and> w_sor w' = 0 \<and> length (w_content w') = length (w_content w)"
  using assms(1)
proof (cases rule: commit_cases)
  case 1
  then show ?thesis using assms(2) by (auto simp: good_step_def keeps_spelling_def)
next
  case 2
  have len: "length (w_content w') = length (w_content w)"
    using 2 assms(2) by (simp add: set_header_length with_length_def w_inv_def)
  have "keeps_spelling w w'"
    using 2 len by (auto simp: keeps_spelling_def w_free_def set_header_nth with_length_def)
  then have "good_step w w'" using assms(2) 2 by (intro good_stepI) auto
  then show ?thesis using len 2 by simp
qed

lemma name_good: "name_written w w' nl ls k \<Longrightarrow> w_inv w \<Longrightarrow> good_step w w'"
  by (auto simp: name_written_def good_step_def keeps_spelling_def nth_append w_free_def)

lemma startRecord_cases:
  assumes "pw_startRecord name qtype ttl qclass place compress w = (Inr u, w')"
  obtains wc wn where "pw_commit (w\<lparr>w_compress := compress\<rparr>) = (Inr (), wc)" "length (w_content wc) \<le> 65535"
    "(if compress \<and> \<not> DNSName_isRoot name \<and> DNSName_eq (w_qname wc) name then pw_append [0xc0, 0x0c] else pw_xfrName name compress)
       (wc\<lparr>w_rollbackmarker := length (w_content wc)\<rparr>) = (Inr (), wn)"
    "qtype \<le> 65535" "qclass \<le> 65535" "ttl \<le> 4294967295"
    "w' = wn\<lparr>w_content := w_content wn @ to_be16 qtype @ to_be16 qclass @ to_be32 ttl @ [0, 0], w_recordplace := place,
       w_sor := length (w_content wn) + 10\<rparr>"
proof -
  have z: "to_be16 0 = [0, 0]" by (simp add: to_be16_def)
  show thesis
    using assms that z
    by (auto simp: pw_startRecord_def bindC_Inr xfr16_Inr xfr32_Inr Let_def split: if_splits)
qed

section \<open>Names at a place\<close>

text \<open>Where the bytes of a name end: after the root label or after the first pointer.\<close>

inductive span :: "bytes \<Rightarrow> nat \<Rightarrow> nat \<Rightarrow> bool" for c :: bytes where
  span_end: "c ! i = 0 \<Longrightarrow> span c i (i + 1)"
| span_ptr: "0xc0 \<le> c ! i \<Longrightarrow> span c i (i + 2)"
| span_label: "c ! i \<noteq> 0 \<Longrightarrow> c ! i < 0xc0 \<Longrightarrow> span c (i + 1 + unat (c ! i)) e \<Longrightarrow> span c i e"

lemma span_unique: "span c i e \<Longrightarrow> span c i e' \<Longrightarrow> e = e'"
proof (induction arbitrary: e' rule: span.induct)
  case (span_end i)
  from span_end.prems span_end.hyps show ?case by cases auto
next
  case (span_ptr i)
  from span_ptr.prems span_ptr.hyps show ?case by cases auto
next
  case (span_label i e)
  from span_label.prems show ?case
  proof cases
    case span_label': span_label
    then show ?thesis using span_label.IH by blast
  qed (use span_label.hyps in auto)
qed

lemma label_byte_less: "valid_label l \<Longrightarrow> (of_nat (length l) :: u8) < 0xc0"
  by (simp add: word_less_nat_alt label_byte(1)) (simp add: valid_label_def)

lemma seg_span: "seg c off ls e \<Longrightarrow> span c e p \<Longrightarrow> span c off p"
proof (induction c off ls e rule: seg.induct)
  case (2 view off l ls e)
  then have "span view (off + 1 + length l) p" "valid_label l" "view ! off = of_nat (length l)" by simp_all
  then show ?case using label_byte [of l] label_byte_less [of l] by - (rule span_label, simp_all)
qed simp

lemma wire_span:
  assumes "wire c m cc off ls k p"
  shows "span c off p"
  using assms
proof (cases rule: wire.cases)
  case (wire_end e)
  then show ?thesis using seg_span [OF _ span_end] by simp
next
  case (wire_pointer ls' e ks k' q)
  then show ?thesis using seg_span [OF _ span_ptr] by simp
qed

text \<open>The end of a spelled name does not move when bytes change that no name may use.\<close>

lemma spell_span:
  "spell F c s i ps ls k \<Longrightarrow> \<exists>e. \<forall>c'. length c \<le> length c' \<longrightarrow> (\<forall>j < length c. \<not> F j \<longrightarrow> c' ! j = c ! j) \<longrightarrow> span c' i e"
proof (induction rule: spell.induct)
  case (sp_end i s)
  have "span c' i (i + 1)" if "\<forall>j < length c. \<not> F j \<longrightarrow> c' ! j = c ! j" for c'
    using sp_end that by - (rule span_end, simp)
  then show ?case by blast
next
  case (sp_ptr i t s ps ls k)
  have "span c' i (i + 2)" if "\<forall>j < length c. \<not> F j \<longrightarrow> c' ! j = c ! j" for c'
    using sp_ptr that by - (rule span_ptr, simp)
  then show ?case by blast
next
  case (sp_label l i s ps ls k)
  then obtain e where e: "\<forall>c'. length c \<le> length c' \<longrightarrow> (\<forall>j < length c. \<not> F j \<longrightarrow> c' ! j = c ! j) \<longrightarrow> span c' (i + 1 + length l) e"
    by blast
  have "span c' i e" if "length c \<le> length c'" "\<forall>j < length c. \<not> F j \<longrightarrow> c' ! j = c ! j" for c'
  proof -
    have "c' ! i = of_nat (length l)" using sp_label.hyps(2,3,5) that(2) by simp
    then show ?thesis using e that label_byte [OF sp_label.hyps(1)] label_byte_less [OF sp_label.hyps(1)] by - (rule span_label, simp_all)
  qed
  then show ?case by blast
qed

text \<open>\<open>name_at w p e nl\<close>: the content holds a name from \<open>p\<close> to \<open>e\<close> that reads as \<open>nl\<close> up to case, for good.\<close>

definition name_at :: "DNSPacketWriter \<Rightarrow> nat \<Rightarrow> nat \<Rightarrow> bytes list \<Rightarrow> bool" where
  "name_at w p e nl \<longleftrightarrow> 12 \<le> p \<and> e \<le> length (w_content w) \<and> span (w_content w) p e \<and>
     (\<exists>ps ls k. spell (w_free w) (w_content w) p p ps ls k \<and> map foldc ls = map foldc nl)"

lemma name_at_keeps:
  assumes "name_at w p e nl" "keeps_spelling w w'"
  shows "name_at w' p e nl"
proof -
  obtain ps ls k where sp: "spell (w_free w) (w_content w) p p ps ls k" "map foldc ls = map foldc nl"
    using assms(1) by (auto simp: name_at_def)
  obtain e' where e': "span (w_content w) p e'" "span (w_content w') p e'"
    using spell_span [OF sp(1)] assms(2) by (auto simp: keeps_spelling_def)
  then have "e' = e" using span_unique assms(1) by (auto simp: name_at_def)
  then show ?thesis
    using assms e' sp(2) keeps_spellingD [OF assms(2) sp(1)] by (auto simp: name_at_def keeps_spelling_def)
qed

lemma written_name_at:
  assumes "name_written w w' nl ls k" "w_inv w"
  shows "name_at w' (length (w_content w)) (length (w_content w')) nl"
proof -
  have "w_free w' = w_free w" using assms(1) by (auto simp: name_written_def w_free_def fun_eq_iff)
  then show ?thesis using assms wire_span by (auto simp: name_at_def name_written_def w_inv_def)
qed

lemma name_at_wire:
  assumes "name_at w p e nl" "length nl \<le> s_maxPointersPerName"
  shows "\<exists>ls k. wire (w_content w) 12 0 p ls k e \<and> k \<le> s_maxPointersPerName \<and> map foldc ls = map foldc nl"
proof -
  obtain ps ls k where sp: "spell (w_free w) (w_content w) p p ps ls k" "map foldc ls = map foldc nl"
    and p: "12 \<le> p" "span (w_content w) p e"
    using assms(1) by (auto simp: name_at_def)
  have "p < length (w_content w)" using sp(1) by cases auto
  then obtain e' where w: "wire (w_content w) 12 0 p ([] @ ls) k e'" using spell_wire [OF sp(1) p(1), of "[]" 0] by auto
  have "e' = e" using span_unique [OF wire_span [OF w] p(2)] .
  moreover have "k \<le> length ls" using spell_pointers [OF sp(1)] spell_length [OF sp(1)] by simp
  moreover have "length ls = length nl" using sp(2) map_eq_imp_length_eq by blast
  ultimately have "wire (w_content w) 12 0 p ls k e \<and> k \<le> s_maxPointersPerName \<and> map foldc ls = map foldc nl"
    using w sp(2) assms(2) by simp
  then show ?thesis by blast
qed

section \<open>Bytes at a place\<close>

text \<open>\<open>bytes_at w p bs\<close>: the bytes \<open>bs\<close> are in the content at \<open>p\<close>, for good.\<close>

definition bytes_at :: "DNSPacketWriter \<Rightarrow> nat \<Rightarrow> bytes \<Rightarrow> bool" where
  "bytes_at w p bs \<longleftrightarrow> p + length bs \<le> length (w_content w) \<and> (\<forall>i < length bs. w_content w ! (p + i) = bs ! i \<and> \<not> w_free w (p + i))"

lemma bytes_at_keeps: "bytes_at w p bs \<Longrightarrow> keeps_spelling w w' \<Longrightarrow> bytes_at w' p bs"
  by (auto simp: bytes_at_def keeps_spelling_def)

lemma bytes_at_take: "bytes_at w p bs \<Longrightarrow> take (length bs) (drop p (w_content w)) = bs"
  by (rule nth_equalityI) (auto simp: bytes_at_def)

lemma nat_add_less_split: "(\<forall>i < m + (n :: nat). P i) \<longleftrightarrow> (\<forall>i < m. P i) \<and> (\<forall>i < n. P (m + i))"
proof safe
  fix i assume "\<forall>i < m. P i" "\<forall>i < n. P (m + i)" "i < m + n"
  then show "P i" by (cases "i < m") (auto dest: spec [of _ "i - m"])
qed auto

lemma bytes_at_append: "bytes_at w p (bs @ cs) \<longleftrightarrow> bytes_at w p bs \<and> bytes_at w (p + length bs) cs"
  by (auto simp: bytes_at_def nat_add_less_split nth_append add.assoc)

lemma appended_at: "w_inv w \<Longrightarrow> bytes_at (w\<lparr>w_content := w_content w @ bs\<rparr>) (length (w_content w)) bs"
  by (auto simp: bytes_at_def w_free_def w_inv_def nth_append)

section \<open>The start of a record\<close>

text \<open>The question section holds the name of the question right after the header.\<close>

definition qname_at :: "DNSPacketWriter \<Rightarrow> bool" where
  "qname_at w \<longleftrightarrow> (\<exists>ql ps k. w_qname w = name_of ql \<and> valid_labels ql \<and> spell (w_free w) (w_content w) 12 12 ps ql k)"

lemma qname_at_keeps: "qname_at w \<Longrightarrow> keeps_spelling w w' \<Longrightarrow> w_qname w' = w_qname w \<Longrightarrow> qname_at w'"
  unfolding qname_at_def using keeps_spellingD by metis

text \<open>The marker \<^verbatim>\<open>0xc0 0x0c\<close> points to the name of the question.\<close>

lemma marker_at:
  assumes "w_inv w" "qname_at w" "valid_labels nl" "\<not> DNSName_isRoot (name_of nl)" "DNSName_eq (w_qname w) (name_of nl)"
  shows "name_at (w\<lparr>w_content := w_content w @ [0xc0, 0x0c]\<rparr>) (length (w_content w)) (length (w_content w) + 2) nl"
proof -
  let ?c = "w_content w" let ?d = "?c @ [0xc0, 0x0c]" let ?w = "w\<lparr>w_content := ?d\<rparr>"
  obtain ql ps k where q: "w_qname w = name_of ql" "valid_labels ql" "spell (w_free w) ?c 12 12 ps ql k"
    using assms(2) by (auto simp: qname_at_def)
  have eq: "map foldc ql = map foldc nl"
    using assms(3,5) q(1,2) by (simp add: DNSName_eq_iff foldc_encode valid_labels_def encode_inject)
  have "nl \<noteq> []" using assms(4) by (auto simp: DNSName_isRoot_def encode_def)
  then have "ql \<noteq> []" using eq by auto
  from q(3) this obtain ps' where ps: "ps = 12 # ps'" by cases auto
  have F: "w_free ?w = w_free w" by (rule ext) (simp add: w_free_def)
  have len: "12 < length ?c" using q(3) by cases auto
  have target: "pointer_target ?d (length ?c) = 12" by (simp add: pointer_target_def nth_append)
  have "spell (w_free w) ?d 12 12 (12 # ps') ql k" using spell_append [OF q(3)] ps by simp
  then have "spell (w_free w) ?d (length ?c) (length ?c) (12 # ps') ql (Suc k)"
    using len target w_free_beyond [OF assms(1)] by (intro spell.sp_ptr [where t = 12]) simp_all
  moreover have "span ?d (length ?c) (length ?c + 2)" by (rule span_ptr) simp
  ultimately show ?thesis using eq len unfolding name_at_def F by auto
qed

lemma record_header_step:
  assumes "w_inv wn" "w_sor wn = 0" "length (w_content wn) \<noteq> 12"
    "w' = wn\<lparr>w_content := w_content wn @ bs @ [0, 0], w_recordplace := place, w_sor := length (w_content wn) + length bs + 2\<rparr>"
  shows "good_step wn w' \<and> bytes_at w' (length (w_content wn)) bs"
proof -
  have len: "12 < length (w_content wn)" using assms(1,3) by (simp add: w_inv_def)
  have "keeps_spelling wn w'" using assms(2,4) len by (auto simp: keeps_spelling_def w_free_def nth_append)
  then have "good_step wn w'" using assms(1,4) len by (intro good_stepI) (auto simp: w_inv_def)
  moreover have "bytes_at w' (length (w_content wn)) bs" using assms(4) len by (auto simp: bytes_at_def w_free_def nth_append)
  ultimately show ?thesis ..
qed

lemma startRecord_written:
  assumes start: "pw_startRecord (name_of nl) qtype ttl qclass place compress w = (Inr u, w')"
    and inv: "w_inv w" "qname_at w" "valid_labels nl" "length (w_content w) \<le> maxCompressionOffset"
  shows "good_step w w' \<and> w_sor w' = length (w_content w') \<and> length (w_content w) + 10 < w_sor w' \<and> w_recordplace w' = place \<and>
    name_at w' (length (w_content w)) (w_sor w' - 10) nl \<and>
    bytes_at w' (w_sor w' - 10) (to_be16 qtype @ to_be16 qclass @ to_be32 ttl)"
  using start
proof (cases rule: startRecord_cases)
  case (1 wc wn)
  let ?w0 = "w\<lparr>w_compress := compress\<rparr>" let ?w1 = "wc\<lparr>w_rollbackmarker := length (w_content wc)\<rparr>"
  have free0: "w_free ?w0 = w_free w" by (rule ext) (simp add: w_free_def)
  have inv0: "w_inv ?w0" using inv(1) by (simp add: w_inv_def free0)
  have wc: "good_step ?w0 wc" "w_sor wc = 0" "length (w_content wc) = length (w_content w)"
    using commit_good [OF 1(1) inv0] by simp_all
  have step0: "good_step w ?w1"
  proof -
    have "w_free ?w1 = w_free wc" by (rule ext) (simp add: w_free_def)
    then show ?thesis using wc(1) by (simp add: good_step_def keeps_spelling_def w_inv_def free0)
  qed
  have inv1: "w_inv ?w1" "qname_at ?w1" using step0 qname_at_keeps inv(2) by (auto simp: good_step_def)
  have step1: "good_step ?w1 wn \<and> w_sor wn = 0 \<and> name_at wn (length (w_content w)) (length (w_content wn)) nl \<and>
      length (w_content w) < length (w_content wn)"
  proof (cases "compress \<and> \<not> DNSName_isRoot (name_of nl) \<and> DNSName_eq (w_qname wc) (name_of nl)")
    case True
    then have wn: "wn = ?w1\<lparr>w_content := w_content ?w1 @ [0xc0, 0x0c]\<rparr>" using 1(3) by (simp add: append_Inr)
    show ?thesis using marker_at [OF inv1 inv(3)] append_good [OF inv1(1), of "[0xc0, 0x0c]"] True wc(2,3) unfolding wn by simp
  next
    case False
    obtain ls k where nw: "name_written ?w1 wn nl ls k"
      using xfrName_written [OF inv1(1) inv(3), of compress] 1(3) False wc(3) inv(4) by auto
    have "w_sor wn = 0" "length (w_content wc) < length (w_content wn)" using nw wc(2) by (auto simp: name_written_def)
    then show ?thesis using name_good [OF nw inv1(1)] written_name_at [OF nw inv1(1)] wc(3) by simp
  qed
  let ?bs = "to_be16 qtype @ to_be16 qclass @ to_be32 ttl"
  have "length (w_content wn) \<noteq> 12" using step1 inv(1) by (auto simp: w_inv_def)
  then have step2: "good_step wn w' \<and> bytes_at w' (length (w_content wn)) ?bs"
    using step1 1(7) by (intro record_header_step [where place = place]) (auto simp: good_step_def)
  have "good_step w w'" using good_step_trans [OF good_step_trans [OF step0]] step1 step2 by blast
  moreover have "name_at w' (length (w_content w)) (length (w_content wn)) nl"
    using step1 step2 name_at_keeps by (auto simp: good_step_def)
  ultimately show ?thesis using step1 step2 1(7) by simp
qed

end
