(* ===== verification/ReadAhead.thy ===== *)
theory ReadAhead
  imports TextSegments
begin

text \<open>
  Reading bytes that are known: \<open>ahead r bs\<close> says that the reader stands before the bytes \<open>bs\<close>,
  inside its record. Each reading operation is then an equation.
\<close>

definition ahead :: "PacketReader \<Rightarrow> bytes \<Rightarrow> bool" where
  "ahead r bs \<longleftrightarrow> d_startrecordpos r \<le> d_pos r \<and> d_pos r + length bs \<le> d_startrecordpos r + d_recordlen r \<and>
     d_pos r + length bs \<le> length (d_content r) \<and> take (length bs) (drop (d_pos r) (d_content r)) = bs"

definition skip_to :: "PacketReader \<Rightarrow> nat \<Rightarrow> PacketReader" where
  "skip_to r n = r\<lparr>d_pos := d_pos r + n\<rparr>"

lemma skip_to_simps [simp]:
  "d_pos (skip_to r n) = d_pos r + n" "d_content (skip_to r n) = d_content r" "d_startrecordpos (skip_to r n) = d_startrecordpos r"
  "d_recordlen (skip_to r n) = d_recordlen r" "d_internal (skip_to r n) = d_internal r" "d_standalone (skip_to r n) = d_standalone r"
  "d_pointerBudget (skip_to r n) = d_pointerBudget r" "skip_to r 0 = r" "skip_to (skip_to r m) n = skip_to r (m + n)"
  by (simp_all add: skip_to_def add.assoc)

lemma ahead_nth: "ahead r bs \<Longrightarrow> i < length bs \<Longrightarrow> d_content r ! (d_pos r + i) = bs ! i"
  unfolding ahead_def by (metis nth_take nth_drop add_leD1)

lemma ahead_append: "ahead r (xs @ ys) \<longleftrightarrow> ahead r xs \<and> ahead (skip_to r (length xs)) ys"
proof -
  have "take (length xs + length ys) d = xs @ ys \<longleftrightarrow> take (length xs) d = xs \<and> take (length ys) (drop (length xs) d) = ys"
    if "length xs + length ys \<le> length d" for d :: bytes
    using that by (auto simp: take_add)
  from this [of "drop (d_pos r) (d_content r)"] show ?thesis
    by (auto simp: ahead_def add.assoc add.commute)
qed

lemma ahead_Nil: "ahead r [] \<longleftrightarrow> d_startrecordpos r \<le> d_pos r \<and> d_pos r \<le> d_startrecordpos r + d_recordlen r \<and> d_pos r \<le> length (d_content r)"
  by (simp add: ahead_def)

lemma ahead_within: "ahead r bs \<Longrightarrow> within (length bs) r"
  by (simp add: ahead_def within_def)

lemma ahead_get8: "ahead r [b] \<Longrightarrow> pr_get8BitInt r = (Inr b, skip_to r 1)"
  using ahead_nth [of r "[b]" 0] ahead_within [of r "[b]"] by (simp add: get8_Inr skip_to_def)

lemma ahead_get16:
  assumes "ahead r (to_be16 v)" "v < 65536"
  shows "pr_get16BitInt r = (Inr v, skip_to r 2)"
proof -
  have "within 2 r" using ahead_within [OF assms(1)] by simp
  then show ?thesis using ahead_nth [OF assms(1), of 0] ahead_nth [OF assms(1), of 1] assms(2)
    by (simp add: get16_Inr skip_to_def to_be16_def be16_digits)
qed

lemma be32_digits: "n < 4294967296 \<Longrightarrow> be32 (of_nat (n div 16777216)) (of_nat (n div 65536)) (of_nat (n div 256)) (of_nat n) = n"
  by (rule be32_to_be32) (simp_all add: to_be32_def)

lemma ahead_get32:
  assumes "ahead r (to_be32 v)" "v < 4294967296"
  shows "pr_get32BitInt r = (Inr v, skip_to r 4)"
proof -
  have "within 4 r" using ahead_within [OF assms(1)] by simp
  then show ?thesis
    using ahead_nth [OF assms(1), of 0] ahead_nth [OF assms(1), of 1] ahead_nth [OF assms(1), of 2] ahead_nth [OF assms(1), of 3] assms(2)
    by (simp add: get32_Inr skip_to_def to_be32_def be32_digits)
qed

lemma ahead_range: "ahead r bs \<Longrightarrow> bs \<noteq> [] \<Longrightarrow> content_range r (d_pos r) (d_pos r + length bs - 1) = Inr bs"
  unfolding content_range_Inr by (cases bs) (auto simp: ahead_def)

lemma ahead_blob_len:
  assumes "ahead r bs"
  shows "pr_xfrBlob_len (int (length bs)) r = (Inr bs, skip_to r (length bs))"
proof (cases "bs = []")
  case False
  then show ?thesis using assms ahead_range [OF assms] by (simp add: pr_xfrBlob_len_def Let_def ahead_def skip_to_def)
qed (simp add: pr_xfrBlob_len_def)

lemma ahead_raw: "ahead r bs \<Longrightarrow> bs \<noteq> [] \<Longrightarrow> copyRecord_raw (length bs) r = (Inr bs, skip_to r (length bs))"
  by (cases bs) (auto simp: copyRecord_raw_def isWithinRecordBoundaries_def ahead_def skip_to_def Let_def)

lemma ahead_blob:
  assumes "ahead r bs" "d_pos r + length bs = d_startrecordpos r + d_recordlen r"
  shows "pr_xfrBlob r = (Inr bs, skip_to r (length bs))"
proof (cases "bs = []")
  case False
  then have "d_pos r < d_startrecordpos r + d_recordlen r" using assms(2) by (cases bs) auto
  then show ?thesis using assms ahead_range [OF assms(1) False]
    by (auto simp: pr_xfrBlob_def Let_def ahead_def skip_to_def)
qed (use assms in \<open>simp add: pr_xfrBlob_def Let_def skip_to_def\<close>)

end
