(* ===== verification/SvcParams.thy ===== *)
theory SvcParams
  imports Writer ReadAhead
begin

text \<open>
  The parameters of SVCB and HTTPS records: the class \<^verbatim>\<open>SvcParam\<close> of \<^verbatim>\<open>pdns/svc-records.hh\<close> and
  \<^verbatim>\<open>pdns/svc-records.cc\<close>, its transfer by \<^verbatim>\<open>PacketReader\<close> and by \<^verbatim>\<open>GenericDNSPacketWriter\<close>, and the round
  trip between the two. An address is the list of its 4 or 16 bytes; a \<^verbatim>\<open>std::set\<close> is the list of
  its elements in order.
\<close>

section \<open>Parameters\<close>

definition key_mandatory :: nat where "key_mandatory = 0"
definition key_alpn :: nat where "key_alpn = 1"
definition key_no_default_alpn :: nat where "key_no_default_alpn = 2"
definition key_port :: nat where "key_port = 3"
definition key_ipv4hint :: nat where "key_ipv4hint = 4"
definition key_ech :: nat where "key_ech = 5"
definition key_ipv6hint :: nat where "key_ipv6hint = 6"
definition key_dohpath :: nat where "key_dohpath = 7"
definition key_ohttp :: nat where "key_ohttp = 8"
definition key_tls_supported_groups :: nat where "key_tls_supported_groups = 9"
definition key_docpath :: nat where "key_docpath = 10"
definition key_pvd :: nat where "key_pvd = 11"

lemmas svc_keys = key_mandatory_def key_alpn_def key_no_default_alpn_def key_port_def key_ipv4hint_def key_ech_def
  key_ipv6hint_def key_dohpath_def key_ohttp_def key_tls_supported_groups_def key_docpath_def key_pvd_def

record SvcParam =
  sp_key :: nat
  sp_value :: bytes
  sp_alpn :: "bytes list"
  sp_mandatory :: "nat list"
  sp_ipHints :: "bytes list"
  sp_ech :: bytes
  sp_tls_supported_groups :: "nat list"
  sp_port :: nat
  sp_autohint :: bool

text \<open>The object at the start of every constructor, once the key is set.\<close>

definition sp_init :: "nat \<Rightarrow> SvcParam" where
  "sp_init key = \<lparr>sp_key = key, sp_value = [], sp_alpn = [], sp_mandatory = [], sp_ipHints = [], sp_ech = [],
     sp_tls_supported_groups = [], sp_port = 0, sp_autohint = False\<rparr>"

definition SvcParam_flag :: "nat \<Rightarrow> SvcParam result" where
  "SvcParam_flag key =
     (if key \<noteq> key_no_default_alpn \<and> key \<noteq> key_ohttp \<and> key \<noteq> key_pvd
      then Inl (invalid_argument ''can not create non-empty SvcParam'') else Inr (sp_init key))"

definition SvcParam_string :: "nat \<Rightarrow> bytes \<Rightarrow> SvcParam result" where
  "SvcParam_string key val =
     (if key \<noteq> key_ech \<and> key \<noteq> key_dohpath \<and> key < 11
      then Inl (invalid_argument ''can not create SvcParam with a string value'')
      else if key = key_ech then Inr ((sp_init key)\<lparr>sp_ech := val\<rparr>)
      else Inr ((sp_init key)\<lparr>sp_value := val\<rparr>))"

definition SvcParam_strings :: "nat \<Rightarrow> bytes list \<Rightarrow> SvcParam result" where
  "SvcParam_strings key val =
     (if key \<noteq> key_alpn \<and> key \<noteq> key_docpath
      then Inl (invalid_argument ''can not create SvcParam with a string-set value'')
      else Inr ((sp_init key)\<lparr>sp_alpn := val\<rparr>))"

definition SvcParam_keys :: "nat \<Rightarrow> nat list \<Rightarrow> SvcParam result" where
  "SvcParam_keys key val =
     (if key \<noteq> key_mandatory
      then Inl (invalid_argument ''can not create SvcParam with a SvcParamKey-set value'')
      else Inr ((sp_init key)\<lparr>sp_mandatory := val\<rparr>))"

definition SvcParam_addresses :: "nat \<Rightarrow> bytes list \<Rightarrow> SvcParam result" where
  "SvcParam_addresses key val =
     (if key \<noteq> key_ipv6hint \<and> key \<noteq> key_ipv4hint
      then Inl (invalid_argument ''can not create SvcParam with an IP address value'')
      else if key = key_ipv6hint \<and> (\<exists>addr \<in> set val. length addr \<noteq> 16)
      then Inl (invalid_argument ''non-IPv6 address passed'')
      else if key = key_ipv4hint \<and> (\<exists>addr \<in> set val. length addr \<noteq> 4)
      then Inl (invalid_argument ''non-IPv4 address passed'')
      else Inr ((sp_init key)\<lparr>sp_ipHints := val\<rparr>))"

definition SvcParam_groups :: "nat \<Rightarrow> nat list \<Rightarrow> SvcParam result" where
  "SvcParam_groups key val =
     (if key \<noteq> key_tls_supported_groups
      then Inl (invalid_argument ''can not create SvcParam with a uint16 value-vector'')
      else Inr ((sp_init key)\<lparr>sp_tls_supported_groups := val\<rparr>))"

definition SvcParam_port :: "nat \<Rightarrow> nat \<Rightarrow> SvcParam result" where
  "SvcParam_port key val =
     (if key \<noteq> key_port then Inl (invalid_argument ''can not create SvcParam with a port value'')
      else Inr ((sp_init key)\<lparr>sp_port := val\<rparr>))"

definition setAutoHint :: "bool \<Rightarrow> SvcParam \<Rightarrow> SvcParam" where
  "setAutoHint val p = p\<lparr>sp_autohint := val\<rparr>"

section \<open>Reading the value of a parameter\<close>

definition getIPHints :: "SvcParam \<Rightarrow> bytes list result" where
  "getIPHints p = (if sp_key p \<noteq> key_ipv6hint \<and> sp_key p \<noteq> key_ipv4hint
     then Inl (invalid_argument ''getIPHints called for non-IP address key'') else Inr (sp_ipHints p))"

definition getPort :: "SvcParam \<Rightarrow> nat result" where
  "getPort p = (if sp_key p \<noteq> key_port then Inl (invalid_argument ''getPort called for non-port key'') else Inr (sp_port p))"

definition getALPN :: "SvcParam \<Rightarrow> bytes list result" where
  "getALPN p = (if sp_key p \<noteq> key_alpn \<and> sp_key p \<noteq> key_docpath
     then Inl (invalid_argument ''getALPN called for non-alpn-like key'') else Inr (sp_alpn p))"

definition getMandatory :: "SvcParam \<Rightarrow> nat list result" where
  "getMandatory p = (if sp_key p \<noteq> key_mandatory
     then Inl (invalid_argument ''getMandatory called for non-mandatory key'') else Inr (sp_mandatory p))"

definition getECH :: "SvcParam \<Rightarrow> bytes result" where
  "getECH p = (if sp_key p \<noteq> key_ech then Inl (invalid_argument ''getECH called for non-ech key'') else Inr (sp_ech p))"

definition getValue :: "SvcParam \<Rightarrow> bytes result" where
  "getValue p = (if sp_key p \<noteq> key_dohpath \<and> sp_key p < 11
     then Inl (invalid_argument ''getValue called for non-single value key'') else Inr (sp_value p))"

definition getTLSSupportedGroups :: "SvcParam \<Rightarrow> nat list result" where
  "getTLSSupportedGroups p = (if sp_key p \<noteq> key_tls_supported_groups
     then Inl (invalid_argument ''getTLSSupportedGroups called for non-tls-supported-groups key'')
     else Inr (sp_tls_supported_groups p))"

definition SvcParam_less :: "SvcParam \<Rightarrow> SvcParam \<Rightarrow> bool" where
  "SvcParam_less p q \<longleftrightarrow> sp_key p < sp_key q"

definition SvcParam_eq :: "SvcParam \<Rightarrow> SvcParam \<Rightarrow> bool" where
  "SvcParam_eq p q =
     (if sp_key p \<noteq> sp_key q then False
      else if sp_key p = key_mandatory then sp_mandatory p = sp_mandatory q
      else if sp_key p = key_alpn \<or> sp_key p = key_docpath then sp_alpn p = sp_alpn q
      else if sp_key p = key_no_default_alpn \<or> sp_key p = key_ohttp \<or> sp_key p = key_pvd then True
      else if sp_key p = key_port then sp_port p = sp_port q
      else if sp_key p = key_ipv4hint \<or> sp_key p = key_ipv6hint
      then sp_ipHints p = sp_ipHints q \<and> sp_autohint p = sp_autohint q
      else if sp_key p = key_ech then sp_ech p = sp_ech q
      else if sp_key p = key_tls_supported_groups then sp_tls_supported_groups p = sp_tls_supported_groups q
      else sp_value p = sp_value q)"

text \<open>\<^verbatim>\<open>insert\<close> on \<^verbatim>\<open>std::set\<close>: an equivalent element that is there already stays.\<close>

fun keys_insert :: "nat \<Rightarrow> nat list \<Rightarrow> nat list" where
  "keys_insert k [] = [k]"
| "keys_insert k (x # xs) = (if k < x then k # x # xs else if k = x then x # xs else x # keys_insert k xs)"

fun params_insert :: "SvcParam \<Rightarrow> SvcParam list \<Rightarrow> SvcParam list" where
  "params_insert p [] = [p]"
| "params_insert p (x # xs) =
     (if SvcParam_less p x then p # x # xs else if SvcParam_less x p then x # params_insert p xs else x # xs)"

section \<open>Writing parameters\<close>

fun pw_xfr16s :: "nat list \<Rightarrow> unit writing" where
  "pw_xfr16s [] = returnC ()"
| "pw_xfr16s (m # ms) = bindC (pw_xfr16BitInt m) (\<lambda>_. pw_xfr16s ms)"

fun pw_xfrUnquotedTexts :: "bytes list \<Rightarrow> unit writing" where
  "pw_xfrUnquotedTexts [] = returnC ()"
| "pw_xfrUnquotedTexts (a # as) = bindC (pw_xfrUnquotedText a True) (\<lambda>_. pw_xfrUnquotedTexts as)"

fun pw_xfrAddresses :: "nat \<Rightarrow> bytes list \<Rightarrow> unit writing" where
  "pw_xfrAddresses version [] = returnC ()"
| "pw_xfrAddresses version (a # as) = bindC (pw_xfrCAWithoutPort version a) (\<lambda>_. pw_xfrAddresses version as)"

definition pw_svcValue :: "SvcParam \<Rightarrow> unit writing" where
  "pw_svcValue param =
     (let key = sp_key param in
      if key = key_mandatory then
        bindC (liftC (getMandatory param)) (\<lambda>ms. bindC (pw_xfr16BitInt (2 * length ms)) (\<lambda>_. pw_xfr16s ms))
      else if key = key_alpn \<or> key = key_docpath then
        bindC (liftC (getALPN param)) (\<lambda>as.
          let totalSize = length as + sum_list (map length as) in
          if totalSize > 65535 then throwC (runtime_error ''invalid total length of alpn parameters'')
          else bindC (pw_xfr16BitInt totalSize) (\<lambda>_. pw_xfrUnquotedTexts as))
      else if key = key_no_default_alpn \<or> key = key_pvd then pw_xfr16BitInt 0
      else if key = key_port then
        bindC (pw_xfr16BitInt 2) (\<lambda>_. bindC (liftC (getPort param)) pw_xfr16BitInt)
      else if key = key_ipv4hint then
        bindC (liftC (getIPHints param)) (\<lambda>as. bindC (pw_xfr16BitInt (length as * 4)) (\<lambda>_. pw_xfrAddresses key as))
      else if key = key_ipv6hint then
        bindC (liftC (getIPHints param)) (\<lambda>as. bindC (pw_xfr16BitInt (length as * 16)) (\<lambda>_. pw_xfrAddresses key as))
      else if key = key_ech then
        bindC (liftC (getECH param)) (\<lambda>ech. bindC (pw_xfr16BitInt (length ech)) (\<lambda>_. pw_xfrBlob ech))
      else if key = key_ohttp then pw_xfr16BitInt 0
      else if key = key_tls_supported_groups then
        bindC (liftC (getTLSSupportedGroups param)) (\<lambda>gs. bindC (pw_xfr16BitInt (2 * length gs)) (\<lambda>_. pw_xfr16s gs))
      else
        bindC (liftC (getValue param)) (\<lambda>val. bindC (pw_xfr16BitInt (length val)) (\<lambda>_. pw_xfrBlob val)))"

fun pw_xfrSvcParamKeyVals :: "SvcParam list \<Rightarrow> unit writing" where
  "pw_xfrSvcParamKeyVals [] = returnC ()"
| "pw_xfrSvcParamKeyVals (param # kvs) =
     bindC (pw_xfr16BitInt (sp_key param)) (\<lambda>_. bindC (pw_svcValue param) (\<lambda>_. pw_xfrSvcParamKeyVals kvs))"

section \<open>Reading parameters\<close>

text \<open>The blob read has the length that \<^verbatim>\<open>makeComboAddressFromRaw\<close> asks for.\<close>

definition pr_xfrCAWithoutPort :: "nat \<Rightarrow> (PacketReader, bytes) call" where
  "pr_xfrCAWithoutPort version =
     (if version = 4 then pr_xfrBlob_len 4
      else if version = 6 then pr_xfrBlob_len 16
      else throwC (runtime_error ''invalid IP protocol''))"

lemma blob_len_Inr:
  "0 < n \<Longrightarrow> pr_xfrBlob_len (int n) r = (Inr bs, r') \<longleftrightarrow>
     d_pos r + n \<le> d_startrecordpos r + d_recordlen r \<and> d_pos r + n \<le> length (d_content r) \<and>
     bs = take n (drop (d_pos r) (d_content r)) \<and> r' = r\<lparr>d_pos := d_pos r + n\<rparr>"
  by (auto simp: pr_xfrBlob_len_def Let_def bindC_Inr content_range_Inr)

lemma blob_len_moves: "pr_xfrBlob_len n r = (Inr bs, r') \<Longrightarrow> r' = r\<lparr>d_pos := d_pos r + nat n\<rparr>"
  by (auto simp: pr_xfrBlob_len_def Let_def bindC_Inr split: if_splits)

lemma xfrCAWithoutPort_moves:
  "pr_xfrCAWithoutPort version r = (Inr bs, r') \<Longrightarrow>
   r' = r\<lparr>d_pos := d_pos r + (if version = 4 then 4 else 16)\<rparr> \<and> (version = 4 \<or> version = 6)"
  by (auto simp: pr_xfrCAWithoutPort_def dest: blob_len_moves split: if_splits)

function svc_read16s :: "nat \<Rightarrow> nat list \<Rightarrow> (PacketReader, nat list) call" where
  "svc_read16s stop vals r =
     (if d_pos r < stop then bindC pr_get16BitInt (\<lambda>v. svc_read16s stop (vals @ [v])) r else (Inr vals, r))"
  by pat_completeness auto
termination
  by (relation "measure (\<lambda>(stop, vals, r). stop - d_pos r)") (auto simp: get16_Inr)

function svc_readAlpns :: "nat \<Rightarrow> bytes list \<Rightarrow> (PacketReader, bytes list) call" where
  "svc_readAlpns stop alpns r =
     (if d_pos r < stop then
        bindC pr_get8BitInt (\<lambda>alpnLen r1.
          if alpnLen = 0 then (Inl (out_of_range ''alpn length of 0''), r1)
          else if d_pos r1 + unat alpnLen > stop
          then (Inl (out_of_range ''alpn length is larger than rest of alpn SVC Param''), r1)
          else bindC (pr_xfrBlob_len (int (unat alpnLen))) (\<lambda>alpn. svc_readAlpns stop (alpns @ [alpn])) r1) r
      else (Inr alpns, r))"
  by pat_completeness auto
termination
  by (relation "measure (\<lambda>(stop, vals, r). stop - d_pos r)") (auto simp: get8_Inr unat_u8_pos dest!: blob_len_moves)

function svc_readAddresses :: "nat \<Rightarrow> nat \<Rightarrow> bytes list \<Rightarrow> (PacketReader, bytes list) call" where
  "svc_readAddresses key stop addresses r =
     (if d_pos r < stop then bindC (pr_xfrCAWithoutPort key) (\<lambda>addr. svc_readAddresses key stop (addresses @ [addr])) r
      else (Inr addresses, r))"
  by pat_completeness auto
termination
  by (relation "measure (\<lambda>(key, stop, vals, r). stop - d_pos r)") (auto dest!: xfrCAWithoutPort_moves)

declare svc_read16s.simps [simp del] svc_readAlpns.simps [simp del] svc_readAddresses.simps [simp del]

definition pr_svcValue :: "nat \<Rightarrow> nat \<Rightarrow> (PacketReader, SvcParam) call" where
  "pr_svcValue key len = (\<lambda>r.
     let stop = d_pos r + len in
     if stop > d_startrecordpos r + d_recordlen r
     then (Inl (out_of_range ''record is shorter than SVCB lengthfield implies''), r)
     else if key = key_mandatory then
       (if len mod 2 \<noteq> 0 then (Inl (out_of_range ''mandatory SvcParam has invalid length''), r)
        else if len = 0 then (Inl (out_of_range ''empty 'mandatory' values''), r)
        else bindC (svc_read16s stop []) (\<lambda>keys. liftC (SvcParam_keys key (fold keys_insert keys []))) r)
     else if key = key_alpn \<or> key = key_docpath then
       bindC (svc_readAlpns stop []) (\<lambda>alpns. liftC (SvcParam_strings key alpns)) r
     else if key = key_no_default_alpn \<or> key = key_ohttp \<or> key = key_pvd then
       (if len \<noteq> 0 then (Inl (out_of_range ''invalid length''), r) else (SvcParam_flag key, r))
     else if key = key_port then
       (if len \<noteq> 2 then (Inl (out_of_range ''invalid length for port''), r)
        else bindC pr_get16BitInt (\<lambda>port. liftC (SvcParam_port key port)) r)
     else if key = key_ipv4hint \<or> key = key_ipv6hint then
       (if len mod (if key = key_ipv4hint then 4 else 16) \<noteq> 0 then (Inl (out_of_range ''invalid length''), r)
        else bindC (svc_readAddresses key stop []) (\<lambda>addresses.
          bindC (liftC (SvcParam_addresses key addresses)) (\<lambda>param.
            getC (\<lambda>r. setAutoHint (d_internal r \<and> len = 0) param))) r)
     else if key = key_ech then bindC (pr_xfrBlob_len (int len)) (\<lambda>blob. liftC (SvcParam_string key blob)) r
     else if key = key_tls_supported_groups then
       (if len mod 2 \<noteq> 0 then (Inl (out_of_range ''invalid length''), r)
        else bindC (svc_read16s stop []) (\<lambda>groups. liftC (SvcParam_groups key groups)) r)
     else bindC (pr_xfrBlob_len (int len)) (\<lambda>blob. liftC (SvcParam_string key blob)) r)"

text \<open>Reading only moves the position, forwards.\<close>

definition moved :: "PacketReader \<Rightarrow> PacketReader \<Rightarrow> bool" where
  "moved r r' \<longleftrightarrow> d_pos r \<le> d_pos r' \<and> r' = r\<lparr>d_pos := d_pos r'\<rparr>"

lemma moved_refl [simp]: "moved r r"
  by (simp add: moved_def)

lemma moved_by [simp]: "moved r (r\<lparr>d_pos := d_pos r + n\<rparr>)"
  by (simp add: moved_def)

lemma moved_trans: "moved r s \<Longrightarrow> moved s t \<Longrightarrow> moved r t"
  unfolding moved_def by (metis PacketReader.update_convs(2) order_trans PacketReader.surjective)

lemma moved_bounds:
  "moved r r' \<Longrightarrow> d_pos r \<le> d_pos r' \<and> d_startrecordpos r' = d_startrecordpos r \<and> d_recordlen r' = d_recordlen r \<and>
   d_content r' = d_content r \<and> d_internal r' = d_internal r"
  by (cases r; cases r') (auto simp: moved_def)

lemma get16_moved: "pr_get16BitInt r = (Inr v, r') \<Longrightarrow> moved r r'"
  by (auto simp: get16_Inr moved_def)

lemma svc_read16s_moved: "svc_read16s stop vals r = (Inr vs, r') \<Longrightarrow> moved r r'"
proof (induction stop vals r rule: svc_read16s.induct)
  case (1 stop vals r)
  show ?case
  proof (cases "d_pos r < stop")
    case True
    then obtain v r1 where r1: "pr_get16BitInt r = (Inr v, r1)" "svc_read16s stop (vals @ [v]) r1 = (Inr vs, r')"
      using "1.prems" by (subst (asm) svc_read16s.simps) (auto simp: bindC_Inr)
    then show ?thesis using "1.IH" [OF True r1] by (auto intro: moved_trans get16_moved)
  qed (use "1.prems" in \<open>subst (asm) svc_read16s.simps, auto\<close>)
qed

lemma svc_readAlpns_moved: "svc_readAlpns stop vals r = (Inr vs, r') \<Longrightarrow> moved r r'"
proof (induction stop vals r rule: svc_readAlpns.induct)
  case (1 stop vals r)
  show ?case
  proof (cases "d_pos r < stop")
    case True
    then obtain n r1 a r2 where n: "pr_get8BitInt r = (Inr n, r1)" "n \<noteq> 0" "\<not> d_pos r1 + unat n > stop"
      "pr_xfrBlob_len (int (unat n)) r1 = (Inr a, r2)" "svc_readAlpns stop (vals @ [a]) r2 = (Inr vs, r')"
      using "1.prems" by (subst (asm) svc_readAlpns.simps) (auto simp: bindC_Inr split: if_splits)
    have "moved r r1" "moved r1 r2" using n(1) blob_len_moves [OF n(4)] by (auto simp: get8_Inr moved_def)
    then show ?thesis using "1.IH" [OF True n] by (blast intro: moved_trans)
  qed (use "1.prems" in \<open>subst (asm) svc_readAlpns.simps, auto\<close>)
qed

lemma svc_readAddresses_moved: "svc_readAddresses key stop vals r = (Inr vs, r') \<Longrightarrow> moved r r'"
proof (induction key stop vals r rule: svc_readAddresses.induct)
  case (1 key stop vals r)
  show ?case
  proof (cases "d_pos r < stop")
    case True
    then obtain v r1 where r1: "pr_xfrCAWithoutPort key r = (Inr v, r1)" "svc_readAddresses key stop (vals @ [v]) r1 = (Inr vs, r')"
      using "1.prems" by (subst (asm) svc_readAddresses.simps) (auto simp: bindC_Inr)
    have "moved r r1" using xfrCAWithoutPort_moves [OF r1(1)] by (auto simp: moved_def)
    then show ?thesis using "1.IH" [OF True r1] by (rule moved_trans)
  qed (use "1.prems" in \<open>subst (asm) svc_readAddresses.simps, auto\<close>)
qed

lemma pr_svcValue_moved: "pr_svcValue key len r = (Inr p, r') \<Longrightarrow> moved r r'"
  by (auto simp: pr_svcValue_def Let_def bindC_Inr
      dest: svc_read16s_moved svc_readAlpns_moved svc_readAddresses_moved blob_len_moves get16_moved split: if_splits)

function svcParams_loop :: "int \<Rightarrow> SvcParam list \<Rightarrow> (PacketReader, SvcParam list) call" where
  "svcParams_loop lastKey kvs r =
     (let recordEnd = d_startrecordpos r + d_recordlen r in
      if d_pos r < recordEnd then
        (if d_pos r + 2 > recordEnd then (Inl (out_of_range ''incomplete key''), r)
         else bindC pr_get16BitInt (\<lambda>keyInt r1.
           if int keyInt \<le> lastKey then (Inl (out_of_range ''Found SVCParamKey after SVCParamKey''), r1)
           else bindC pr_get16BitInt (\<lambda>len. bindC (pr_svcValue keyInt len) (\<lambda>param.
             svcParams_loop (int keyInt) (params_insert param kvs))) r1) r)
      else (Inr kvs, r))"
  by pat_completeness auto
termination
  by (relation "measure (\<lambda>(lastKey, kvs, r). d_startrecordpos r + d_recordlen r - d_pos r)")
    (simp, fastforce simp: get16_Inr dest: pr_svcValue_moved moved_bounds)

declare svcParams_loop.simps [simp del]

text \<open>\<open>kvs\<close> is the set of parameters before the call.\<close>

definition pr_xfrSvcParamKeyVals :: "SvcParam list \<Rightarrow> (PacketReader, SvcParam list) call" where
  "pr_xfrSvcParamKeyVals kvs = svcParams_loop (-1) kvs"

section \<open>The wire form\<close>

definition svc_bytes :: "SvcParam \<Rightarrow> bytes" where
  "svc_bytes p =
     (let key = sp_key p in
      if key = key_mandatory then concat (map to_be16 (sp_mandatory p))
      else if key = key_alpn \<or> key = key_docpath then txt_wire (sp_alpn p)
      else if key = key_no_default_alpn \<or> key = key_ohttp \<or> key = key_pvd then []
      else if key = key_port then to_be16 (sp_port p)
      else if key = key_ipv4hint \<or> key = key_ipv6hint then concat (sp_ipHints p)
      else if key = key_ech then sp_ech p
      else if key = key_tls_supported_groups then concat (map to_be16 (sp_tls_supported_groups p))
      else sp_value p)"

definition svc_wire :: "SvcParam list \<Rightarrow> bytes" where
  "svc_wire kvs = concat (map (\<lambda>p. to_be16 (sp_key p) @ to_be16 (length (svc_bytes p)) @ svc_bytes p) kvs)"

text \<open>
  The parameters that have a wire form: only the fields of the key are set, their values fit, and
  \<^verbatim>\<open>auto\<close> hints have no address and come from the internal representation.
\<close>

definition svc_ok :: "bool \<Rightarrow> SvcParam \<Rightarrow> bool" where
  "svc_ok internal p \<longleftrightarrow>
     (let key = sp_key p in
      key < 65536 \<and> length (svc_bytes p) < 65536 \<and>
      (if key = key_mandatory then
         p = (sp_init key)\<lparr>sp_mandatory := sp_mandatory p\<rparr> \<and> sp_mandatory p \<noteq> [] \<and> sorted_wrt (<) (sp_mandatory p) \<and>
         (\<forall>k \<in> set (sp_mandatory p). k < 65536)
       else if key = key_alpn \<or> key = key_docpath then
         p = (sp_init key)\<lparr>sp_alpn := sp_alpn p\<rparr> \<and> (\<forall>a \<in> set (sp_alpn p). a \<noteq> [] \<and> length a \<le> 255)
       else if key = key_no_default_alpn \<or> key = key_ohttp \<or> key = key_pvd then p = sp_init key
       else if key = key_port then p = (sp_init key)\<lparr>sp_port := sp_port p\<rparr> \<and> sp_port p < 65536
       else if key = key_ipv4hint \<or> key = key_ipv6hint then
         p = (sp_init key)\<lparr>sp_ipHints := sp_ipHints p, sp_autohint := internal \<and> sp_ipHints p = []\<rparr> \<and>
         (\<forall>a \<in> set (sp_ipHints p). length a = (if key = key_ipv4hint then 4 else 16))
       else if key = key_ech then p = (sp_init key)\<lparr>sp_ech := sp_ech p\<rparr>
       else if key = key_tls_supported_groups then
         p = (sp_init key)\<lparr>sp_tls_supported_groups := sp_tls_supported_groups p\<rparr> \<and> (\<forall>g \<in> set (sp_tls_supported_groups p). g < 65536)
       else p = (sp_init key)\<lparr>sp_value := sp_value p\<rparr>))"

lemma length_concat_be16 [simp]: "length (concat (map to_be16 ms)) = 2 * length ms"
  by (induction ms) simp_all

lemma length_txt_wire: "length (txt_wire as) = length as + sum_list (map length as)"
  by (induction as) (simp_all add: txt_wire_def)

lemma length_concat_const: "\<forall>a \<in> set as. length a = n \<Longrightarrow> length (concat as) = length as * n"
  by (induction as) simp_all

lemma pw_xfr16s_ok: "\<forall>m \<in> set ms. m < 65536 \<Longrightarrow> pw_xfr16s ms w = (Inr (), w\<lparr>w_content := w_content w @ concat (map to_be16 ms)\<rparr>)"
  by (induction ms arbitrary: w) (simp_all add: pw_xfr16BitInt_def pw_append_def)

lemma pw_xfrUnquotedTexts_ok:
  "\<forall>a \<in> set as. length a \<le> 255 \<Longrightarrow> pw_xfrUnquotedTexts as w = (Inr (), w\<lparr>w_content := w_content w @ txt_wire as\<rparr>)"
  by (induction as arbitrary: w) (simp_all add: pw_xfrUnquotedText_def pw_append_def txt_wire_def)

lemma pw_xfrAddresses_ok:
  "version = 4 \<or> version = 6 \<Longrightarrow> \<forall>a \<in> set as. length a = (if version = 4 then 4 else 16) \<Longrightarrow>
   pw_xfrAddresses version as w = (Inr (), w\<lparr>w_content := w_content w @ concat as\<rparr>)"
  by (induction as arbitrary: w) (auto simp: pw_xfrCAWithoutPort_def pw_append_def)

lemma svc_key_cases:
  obtains "key = 0" | "key = 1" | "key = 2" | "key = 3" | "key = 4" | "key = 5" | "key = 6" | "key = 7" | "key = 8" | "key = 9"
    | "key = 10" | "key = 11" | "11 < (key :: nat)"
  by (cases "key < 12") (simp_all add: less_Suc_eq numeral_eq_Suc, blast+)

lemma pw_svcValue_ok:
  assumes "svc_ok internal p"
  shows "pw_svcValue p w = (Inr (), w\<lparr>w_content := w_content w @ to_be16 (length (svc_bytes p)) @ svc_bytes p\<rparr>)"
  by (rule svc_key_cases [of "sp_key p"])
    (use assms length_concat_const [of "sp_ipHints p" 4] length_concat_const [of "sp_ipHints p" 16] in
      \<open>simp_all add: svc_ok_def pw_svcValue_def Let_def svc_keys svc_bytes_def pw_xfr16BitInt_def pw_append_def
        getMandatory_def getALPN_def getPort_def getIPHints_def getECH_def getTLSSupportedGroups_def getValue_def
        pw_xfr16s_ok pw_xfrUnquotedTexts_ok pw_xfrAddresses_ok length_txt_wire pw_xfrBlob_def\<close>)

lemma pw_xfrSvcParamKeyVals_ok:
  "\<forall>p \<in> set kvs. svc_ok internal p \<Longrightarrow>
   pw_xfrSvcParamKeyVals kvs w = (Inr (), w\<lparr>w_content := w_content w @ svc_wire kvs\<rparr>)"
proof (induction kvs arbitrary: w)
  case (Cons p kvs)
  then have "sp_key p < 65536" by (simp add: svc_ok_def Let_def)
  then show ?case using Cons pw_svcValue_ok [of internal p] by (simp add: pw_xfr16BitInt_def pw_append_def svc_wire_def)
qed (simp add: svc_wire_def)

section \<open>Reading the wire form\<close>

lemma svc_read16s_ok:
  "ahead r (concat (map to_be16 vs)) \<Longrightarrow> \<forall>v \<in> set vs. v < 65536 \<Longrightarrow> stop = d_pos r + 2 * length vs \<Longrightarrow>
   svc_read16s stop vals r = (Inr (vals @ vs), skip_to r (2 * length vs))"
proof (induction vs arbitrary: r vals)
  case Nil
  then show ?case by (subst svc_read16s.simps) simp
next
  case (Cons v vs)
  have a: "ahead r (to_be16 v)" "ahead (skip_to r 2) (concat (map to_be16 vs))" using Cons.prems(1) by (simp_all add: ahead_append)
  have "svc_read16s stop (vals @ [v]) (skip_to r 2) = (Inr ((vals @ [v]) @ vs), skip_to (skip_to r 2) (2 * length vs))"
    using Cons.prems a by (intro Cons.IH) simp_all
  then show ?case using Cons.prems ahead_get16 [OF a(1)] by (subst svc_read16s.simps) simp
qed

lemma svc_readAlpns_ok:
  "ahead r (txt_wire as) \<Longrightarrow> \<forall>a \<in> set as. a \<noteq> [] \<and> length a \<le> 255 \<Longrightarrow> stop = d_pos r + length (txt_wire as) \<Longrightarrow>
   svc_readAlpns stop vals r = (Inr (vals @ as), skip_to r (length (txt_wire as)))"
proof (induction as arbitrary: r vals)
  case Nil
  then show ?case by (subst svc_readAlpns.simps) (simp add: txt_wire_def)
next
  case (Cons a as)
  have wire: "txt_wire (a # as) = [of_nat (length a)] @ a @ txt_wire as" by (simp add: txt_wire_def)
  have h: "ahead r [of_nat (length a)]" "ahead (skip_to r 1) a" "ahead (skip_to r (1 + length a)) (txt_wire as)"
    using Cons.prems(1) unfolding wire ahead_append by simp_all
  have len: "unat (of_nat (length a) :: u8) = length a" "(of_nat (length a) :: u8) \<noteq> 0"
    using Cons.prems(2) by (auto simp: unat_of_nat_u8 of_nat_u8_eq_0_iff)
  have "svc_readAlpns stop (vals @ [a]) (skip_to r (1 + length a)) =
      (Inr ((vals @ [a]) @ as), skip_to (skip_to r (1 + length a)) (length (txt_wire as)))"
    using Cons.prems h(3) by (intro Cons.IH) (simp_all add: wire)
  moreover have "\<not> d_pos (skip_to r 1) + unat (of_nat (length a) :: u8) > stop" using Cons.prems(3) len by (simp add: wire)
  moreover have "pr_xfrBlob_len (int (unat (of_nat (length a) :: u8))) (skip_to r 1) = (Inr a, skip_to r (1 + length a))"
    using ahead_blob_len [OF h(2)] unfolding len(1) by simp
  ultimately show ?case using Cons.prems(3) ahead_get8 [OF h(1)] len
    by (subst svc_readAlpns.simps) (simp add: wire add.assoc del: of_nat_unat)
qed

lemma svc_readAddresses_ok:
  "ahead r (concat as) \<Longrightarrow> key = 4 \<or> key = 6 \<Longrightarrow> \<forall>a \<in> set as. length a = (if key = 4 then 4 else 16) \<Longrightarrow>
   stop = d_pos r + length (concat as) \<Longrightarrow>
   svc_readAddresses key stop vals r = (Inr (vals @ as), skip_to r (length (concat as)))"
proof (induction as arbitrary: r vals)
  case Nil
  then show ?case by (subst svc_readAddresses.simps) simp
next
  case (Cons a as)
  have h: "ahead r a" "ahead (skip_to r (length a)) (concat as)" using Cons.prems(1) by (simp_all add: ahead_append)
  have "svc_readAddresses key stop (vals @ [a]) (skip_to r (length a)) =
      (Inr ((vals @ [a]) @ as), skip_to (skip_to r (length a)) (length (concat as)))"
    using Cons.prems h(2) by (intro Cons.IH) simp_all
  moreover have "pr_xfrCAWithoutPort key r = (Inr a, skip_to r (length a))"
    using ahead_blob_len [OF h(1)] Cons.prems(2,3) by (auto simp: pr_xfrCAWithoutPort_def)
  moreover have "d_pos r < stop" using Cons.prems(3,4) by (cases "key = 4") simp_all
  ultimately show ?case by (subst svc_readAddresses.simps) simp
qed

lemma keys_insert_last: "\<forall>x \<in> set xs. x < k \<Longrightarrow> keys_insert k xs = xs @ [k]"
  by (induction xs) auto

lemma keys_insert_sorted: "sorted_wrt (<) (acc @ ks) \<Longrightarrow> fold keys_insert ks acc = acc @ ks"
proof (induction ks arbitrary: acc)
  case (Cons k ks)
  then have "keys_insert k acc = acc @ [k]" by (intro keys_insert_last) (auto simp: sorted_wrt_append)
  then show ?case using Cons.IH [of "acc @ [k]"] Cons.prems by simp
qed simp

lemma params_insert_last: "\<forall>x \<in> set xs. sp_key x < sp_key p \<Longrightarrow> params_insert p xs = xs @ [p]"
  by (induction xs) (auto simp: SvcParam_less_def)

lemma pr_svcValue_ok:
  assumes "svc_ok (d_internal r) p" "ahead r (svc_bytes p)"
  shows "pr_svcValue (sp_key p) (length (svc_bytes p)) r = (Inr p, skip_to r (length (svc_bytes p)))"
proof -
  have fits: "\<not> d_startrecordpos r + d_recordlen r < d_pos r + length (svc_bytes p)" using assms(2) by (simp add: ahead_def)
  note facts = assms fits length_concat_const [of "sp_ipHints p" 4] length_concat_const [of "sp_ipHints p" 16]
    ahead_blob_len [OF assms(2)]
  show ?thesis
    by (rule svc_key_cases [of "sp_key p"])
      (use facts in \<open>simp_all add: svc_ok_def pr_svcValue_def Let_def svc_keys svc_bytes_def svc_read16s_ok svc_readAlpns_ok
        svc_readAddresses_ok keys_insert_sorted [of "[]", simplified] SvcParam_keys_def SvcParam_strings_def SvcParam_flag_def
        SvcParam_port_def SvcParam_addresses_def setAutoHint_def SvcParam_string_def SvcParam_groups_def ahead_get16\<close>)
qed

lemma svc_ok_bounds: "svc_ok internal p \<Longrightarrow> sp_key p < 65536 \<and> length (svc_bytes p) < 65536"
  by (simp add: svc_ok_def Let_def)

lemma svcParams_loop_ok:
  "ahead r (svc_wire kvs) \<Longrightarrow> d_pos r + length (svc_wire kvs) = d_startrecordpos r + d_recordlen r \<Longrightarrow>
   \<forall>p \<in> set kvs. svc_ok (d_internal r) p \<Longrightarrow> sorted_wrt SvcParam_less (acc @ kvs) \<Longrightarrow> \<forall>p \<in> set kvs. lastKey < int (sp_key p) \<Longrightarrow>
   svcParams_loop lastKey acc r = (Inr (acc @ kvs), skip_to r (length (svc_wire kvs)))"
proof (induction kvs arbitrary: r acc lastKey)
  case Nil
  then show ?case by (subst svcParams_loop.simps) (simp add: svc_wire_def)
next
  case (Cons p kvs)
  let ?n = "length (svc_bytes p)"
  have wire: "svc_wire (p # kvs) = to_be16 (sp_key p) @ to_be16 ?n @ svc_bytes p @ svc_wire kvs" by (simp add: svc_wire_def)
  have h: "ahead r (to_be16 (sp_key p))" "ahead (skip_to r 2) (to_be16 ?n)" "ahead (skip_to r 4) (svc_bytes p)"
    "ahead (skip_to r (4 + ?n)) (svc_wire kvs)"
    using Cons.prems(1) unfolding wire ahead_append by simp_all
  have ok: "svc_ok (d_internal r) p" "sp_key p < 65536" "?n < 65536" using Cons.prems(3) svc_ok_bounds by auto
  have ins: "params_insert p acc = acc @ [p]"
    using Cons.prems(4) by (intro params_insert_last) (auto simp: sorted_wrt_append SvcParam_less_def)
  have reads: "pr_get16BitInt r = (Inr (sp_key p), skip_to r 2)" "pr_get16BitInt (skip_to r 2) = (Inr ?n, skip_to r 4)"
    "pr_svcValue (sp_key p) ?n (skip_to r 4) = (Inr p, skip_to r (4 + ?n))"
    using ahead_get16 [OF h(1)] ahead_get16 [OF h(2)] pr_svcValue_ok [OF _ h(3)] ok by simp_all
  have "svcParams_loop (int (sp_key p)) (acc @ [p]) (skip_to r (4 + ?n)) =
      (Inr ((acc @ [p]) @ kvs), skip_to (skip_to r (4 + ?n)) (length (svc_wire kvs)))"
    using Cons.prems h(4) by (intro Cons.IH) (simp_all add: wire add.assoc sorted_wrt_append SvcParam_less_def)
  then show ?case using Cons.prems(2,5) reads ins by (subst svcParams_loop.simps) (simp add: wire Let_def add.assoc)
qed

text \<open>
  Claim C16 (SVCB parameters survive the wire): any set of well-formed parameters, of every kind and
  in any number, is written, and reading the bytes written as the end of a record gives exactly
  that set back. The only \<^verbatim>\<open>auto\<close> hint that survives is that of the internal representation.
\<close>

theorem xfrSvcParamKeyVals_roundtrip:
  assumes "\<forall>p \<in> set kvs. svc_ok internal p" "sorted_wrt SvcParam_less kvs"
    "d_content r = w_content (snd (pw_xfrSvcParamKeyVals kvs w)) @ rest" "d_internal r = internal"
    "d_pos r = length (w_content w)" "d_startrecordpos r \<le> d_pos r"
    "d_startrecordpos r + d_recordlen r = length (w_content (snd (pw_xfrSvcParamKeyVals kvs w)))"
  shows "fst (pw_xfrSvcParamKeyVals kvs w) = Inr () \<and>
    pr_xfrSvcParamKeyVals [] r = (Inr kvs, r\<lparr>d_pos := d_startrecordpos r + d_recordlen r\<rparr>)"
proof -
  have w: "pw_xfrSvcParamKeyVals kvs w = (Inr (), w\<lparr>w_content := w_content w @ svc_wire kvs\<rparr>)"
    using assms(1) by (rule pw_xfrSvcParamKeyVals_ok)
  then have "ahead r (svc_wire kvs)" using assms(3,5,6,7) by (simp add: ahead_def)
  then have "svcParams_loop (-1) [] r = (Inr ([] @ kvs), skip_to r (length (svc_wire kvs)))"
    using assms w by (intro svcParams_loop_ok) simp_all
  then show ?thesis using assms(5,7) w by (simp add: pr_xfrSvcParamKeyVals_def skip_to_def)
qed

definition svc_example :: "SvcParam list" where
  "svc_example = [(sp_init 0)\<lparr>sp_mandatory := [1, 4]\<rparr>, (sp_init 1)\<lparr>sp_alpn := [[104, 50], [104, 51]]\<rparr>,
     (sp_init 4)\<lparr>sp_ipHints := [[192, 0, 2, 1]]\<rparr>, (sp_init 65280)\<lparr>sp_value := [7]\<rparr>]"

theorem xfrSvcParamKeyVals_roundtrip_witness:
  "\<exists>w r. fst (pw_xfrSvcParamKeyVals svc_example w) = Inr () \<and> fst (pr_xfrSvcParamKeyVals [] r) = Inr svc_example"
proof -
  let ?w = "\<lparr>w_namepositions = [], w_qname = g_rootdnsname, w_content = [0], w_sor = 0, w_rollbackmarker = 0,
      w_truncatemarker = 0, w_recordplace = ANSWER, w_canonic = False, w_lowerCase = False, w_compress = True\<rparr>"
  let ?c = "w_content (snd (pw_xfrSvcParamKeyVals svc_example ?w))"
  let ?r = "\<lparr>d_pointerBudget = 0, d_pos = 1, d_startrecordpos = 1, d_recordlen = length ?c - 1, d_internal = False, d_standalone = False,
      d_content = ?c\<rparr>"
  have ok: "\<forall>p \<in> set svc_example. svc_ok False p"
    by (auto simp: svc_example_def svc_ok_def svc_keys sp_init_def svc_bytes_def txt_wire_def to_be16_def)
  have "?c = [0] @ svc_wire svc_example" by (simp add: pw_xfrSvcParamKeyVals_ok [OF ok])
  then have "1 + (length ?c - 1) = length ?c" by simp
  moreover have "sorted_wrt SvcParam_less svc_example" by (simp add: svc_example_def SvcParam_less_def sp_init_def)
  ultimately have "fst (pw_xfrSvcParamKeyVals svc_example ?w) = Inr () \<and> fst (pr_xfrSvcParamKeyVals [] ?r) = Inr svc_example"
    using xfrSvcParamKeyVals_roundtrip [of svc_example False ?r ?w "[]"] ok by simp
  then show ?thesis by blast
qed

end
