(* ===== verification/NsecBitmap.thy ===== *)
theory NsecBitmap
  imports Writer ReadAhead
begin

text \<open>
  The type bitmaps of NSEC, NSEC3 and CSYNC records: the class \<^verbatim>\<open>NSECBitmap\<close> of \<^verbatim>\<open>pdns/dnsrecords.hh\<close>, which
  keeps a \<^verbatim>\<open>std::set\<close> and moves to a \<^verbatim>\<open>std::bitset\<close> when it grows, and its wire form in
  \<^verbatim>\<open>pdns/nsecrecords.cc\<close>. The \<^verbatim>\<open>std::set\<close> is the sorted list of its elements.
\<close>

unbundle bit_operations_syntax

section \<open>The set of types\<close>

record NSECBitmap =
  d_bitset :: "nat set option"
  d_set :: "nat list"

definition nbTypes :: nat where
  "nbTypes = 65536"

definition NSECBitmap_init :: NSECBitmap where
  "NSECBitmap_init = \<lparr>d_bitset = None, d_set = []\<rparr>"

definition nb_isSet :: "nat \<Rightarrow> NSECBitmap \<Rightarrow> bool" where
  "nb_isSet type m = (case d_bitset m of Some bitset \<Rightarrow> type \<in> bitset | None \<Rightarrow> type \<in> set (d_set m))"

definition migrateToBitSet :: "NSECBitmap \<Rightarrow> NSECBitmap" where
  "migrateToBitSet m = \<lparr>d_bitset = Some (fold insert (d_set m) {}), d_set = []\<rparr>"

definition nb_set :: "nat \<Rightarrow> NSECBitmap \<Rightarrow> NSECBitmap" where
  "nb_set type m =
     (let m1 = (if d_bitset m = None \<and> length (d_set m) \<ge> 200 then migrateToBitSet m else m) in
      case d_bitset m1 of
        Some bitset \<Rightarrow> m1\<lparr>d_bitset := Some (insert type bitset)\<rparr>
      | None \<Rightarrow> m1\<lparr>d_set := insort_insert type (d_set m1)\<rparr>)"

definition nb_count :: "NSECBitmap \<Rightarrow> nat" where
  "nb_count m = (case d_bitset m of Some bitset \<Rightarrow> card bitset | None \<Rightarrow> length (d_set m))"

text \<open>The copy constructor and the copy assignment, which leaves a bitset in place when the source has none.\<close>

definition NSECBitmap_copy :: "NSECBitmap \<Rightarrow> NSECBitmap" where
  "NSECBitmap_copy rhs = \<lparr>d_bitset = (case d_bitset rhs of Some b \<Rightarrow> Some b | None \<Rightarrow> None), d_set = d_set rhs\<rparr>"

definition nb_assign :: "NSECBitmap \<Rightarrow> NSECBitmap \<Rightarrow> NSECBitmap" where
  "nb_assign m rhs =
     (let m1 = m\<lparr>d_set := d_set rhs\<rparr> in case d_bitset rhs of Some b \<Rightarrow> m1\<lparr>d_bitset := Some b\<rparr> | None \<Rightarrow> m1)"

text \<open>What the class promises: a set of types.\<close>

definition nb_abs :: "NSECBitmap \<Rightarrow> nat set" where
  "nb_abs m = (case d_bitset m of Some bitset \<Rightarrow> bitset | None \<Rightarrow> set (d_set m))"

definition nb_inv :: "NSECBitmap \<Rightarrow> bool" where
  "nb_inv m \<longleftrightarrow> sorted (d_set m) \<and> distinct (d_set m) \<and> (\<forall>b. d_bitset m = Some b \<longrightarrow> finite b) \<and> nb_abs m \<subseteq> {..<nbTypes} \<and>
     (d_bitset m = None \<longrightarrow> length (d_set m) \<le> 200)"

lemma fold_insert_set: "fold insert xs A = set xs \<union> A"
  by (induction xs arbitrary: A) auto

lemma nb_set_refines: "nb_inv m \<Longrightarrow> type < nbTypes \<Longrightarrow> nb_inv (nb_set type m) \<and> nb_abs (nb_set type m) = insert type (nb_abs m)"
  by (cases "d_bitset m")
    (auto simp: nb_set_def nb_inv_def nb_abs_def migrateToBitSet_def fold_insert_set set_insort_key sorted_insort
      distinct_insort length_insort insort_insert_key_def Let_def)

lemma nb_sets_refine:
  "nb_inv m \<Longrightarrow> \<forall>t \<in> set ts. t < nbTypes \<Longrightarrow> nb_inv (fold nb_set ts m) \<and> nb_abs (fold nb_set ts m) = set ts \<union> nb_abs m"
proof (induction ts arbitrary: m)
  case (Cons t ts)
  then show ?case using Cons.IH [of "nb_set t m"] nb_set_refines [of m t] by auto
qed simp

lemma init_inv: "nb_inv NSECBitmap_init" "nb_abs NSECBitmap_init = {}"
  by (simp_all add: nb_inv_def nb_abs_def NSECBitmap_init_def)

section \<open>Writing\<close>

record NSECBitmapGenerator =
  g_res :: bytes
  g_oldWindow :: int
  g_len :: nat

definition NSECBitmapGenerator_init :: NSECBitmapGenerator where
  "NSECBitmapGenerator_init = \<lparr>g_res = replicate 34 0, g_oldWindow = -1, g_len = 0\<rparr>"

definition nbg_block :: "NSECBitmapGenerator \<Rightarrow> bytes" where
  "nbg_block g = take (g_len g + 2) ((g_res g)[0 := of_int (g_oldWindow g), 1 := of_nat (g_len g)])"

definition nbg_set :: "nat \<Rightarrow> NSECBitmapGenerator \<Rightarrow> NSECBitmapGenerator writing" where
  "nbg_set type g =
     (let bit = type mod 256; window = int (type div 256) in
      bindC (if window \<noteq> g_oldWindow g then
               bindC (if g_oldWindow g > -1 then pw_xfrBlob (nbg_block g) else returnC ()) (\<lambda>_.
                 returnC (g\<lparr>g_res := replicate 34 0, g_oldWindow := window\<rparr>))
             else returnC g) (\<lambda>g.
        returnC (g\<lparr>g_res := (g_res g)[2 + bit div 8 := (g_res g ! (2 + bit div 8)) OR push_bit (7 - bit mod 8) 1],
                   g_len := 1 + bit div 8\<rparr>)))"

definition nbg_finish :: "NSECBitmapGenerator \<Rightarrow> unit writing" where
  "nbg_finish g = (if g_len g \<noteq> 0 then pw_xfrBlob (nbg_block g) else returnC ())"

fun nbg_sets :: "nat list \<Rightarrow> NSECBitmapGenerator \<Rightarrow> NSECBitmapGenerator writing" where
  "nbg_sets [] g = returnC g"
| "nbg_sets (type # types) g = bindC (nbg_set type g) (nbg_sets types)"

text \<open>The loop over the bitset, which stops when it has seen every bit that is set.\<close>

function bitset_types :: "nat set \<Rightarrow> nat \<Rightarrow> nat \<Rightarrow> nat \<Rightarrow> nat list" where
  "bitset_types bitset count found idx =
     (if idx < nbTypes \<and> found < count then
        (if idx \<notin> bitset then bitset_types bitset count found (idx + 1)
         else idx # bitset_types bitset count (found + 1) (idx + 1))
      else [])"
  by pat_completeness auto
termination
  by (relation "measure (\<lambda>(b, c, f, i). nbTypes - i)") auto

declare bitset_types.simps [simp del]

definition nb_toPacket :: "NSECBitmap \<Rightarrow> unit writing" where
  "nb_toPacket m =
     bindC (nbg_sets (case d_bitset m of Some bitset \<Rightarrow> bitset_types bitset (card bitset) 0 0 | None \<Rightarrow> d_set m)
              NSECBitmapGenerator_init) nbg_finish"

section \<open>Reading\<close>

text \<open>The types of one byte, in the order in which the source sets them: from the lowest bit up.\<close>

definition byte_types :: "nat \<Rightarrow> nat \<Rightarrow> u8 \<Rightarrow> nat list" where
  "byte_types window k val = map (\<lambda>b. (7 - b) + 8 * k + 256 * window) (filter (\<lambda>b. bit val b) [0..<8])"

function nb_blocks :: "bytes \<Rightarrow> nat \<Rightarrow> NSECBitmap \<Rightarrow> NSECBitmap result" where
  "nb_blocks bitmap n m =
     (if n + 1 < length bitmap then
        let window = bitmap ! n; blen = bitmap ! (n + 1) in
        if window = 0 \<and> blen = 0 then Inr m
        else if unat blen > 32 then Inl (MOADNSException ''NSEC record with invalid bitmap length'')
        else if n + 2 + unat blen > length bitmap then Inl (MOADNSException ''NSEC record with bitmap length > packet length'')
        else nb_blocks bitmap (n + 2 + unat blen)
               (fold nb_set (concat (map (\<lambda>k. byte_types (unat window) k (bitmap ! (n + 2 + k))) [0..<unat blen])) m)
      else Inr m)"
  by pat_completeness auto
termination
  by (relation "measure (\<lambda>(bitmap, n, m). length bitmap - n)") auto

declare nb_blocks.simps [simp del]

definition nb_fromPacket :: "NSECBitmap \<Rightarrow> (PacketReader, NSECBitmap) call" where
  "nb_fromPacket m =
     bindC pr_xfrBlob (\<lambda>bitmap.
       if bitmap = [] then returnC m
       else if length bitmap < 2 then throwC (MOADNSException ''NSEC record with impossibly small bitmap'')
       else liftC (nb_blocks bitmap 0 m))"

section \<open>The blocks of a bitmap\<close>

text \<open>The types that the first \<open>n\<close> bytes \<open>f\<close> of a window stand for.\<close>

definition bits_in :: "(nat \<Rightarrow> u8) \<Rightarrow> nat \<Rightarrow> (nat \<times> nat) set" where
  "bits_in f n = {(k, b). k < n \<and> b < 8 \<and> bit (f k) b}"

definition decode :: "nat \<Rightarrow> (nat \<Rightarrow> u8) \<Rightarrow> nat \<Rightarrow> nat set" where
  "decode w f n = (\<lambda>(k, b). 256 * w + 8 * k + (7 - b)) ` bits_in f n"

fun enc_block :: "nat \<times> bytes \<Rightarrow> bytes" where
  "enc_block (w, bs) = of_nat w # of_nat (length bs) # bs"

fun good_block :: "nat \<times> bytes \<Rightarrow> bool" where
  "good_block (w, bs) \<longleftrightarrow> w < 256 \<and> 1 \<le> length bs \<and> length bs \<le> 32"

definition blocks_types :: "(nat \<times> bytes) list \<Rightarrow> nat set" where
  "blocks_types blocks = (\<Union>(w, bs) \<in> set blocks. decode w ((!) bs) (length bs))"

lemma decode_more: "n \<le> m \<Longrightarrow> \<forall>k. n \<le> k \<and> k < m \<longrightarrow> f k = 0 \<Longrightarrow> decode w f m = decode w f n"
proof -
  assume a: "n \<le> m" "\<forall>k. n \<le> k \<and> k < m \<longrightarrow> f k = 0"
  have "bits_in f m = bits_in f n"
  proof (rule set_eqI, clarify)
    fix k b show "(k, b) \<in> bits_in f m \<longleftrightarrow> (k, b) \<in> bits_in f n"
      using a by (cases "k < n") (auto simp: bits_in_def)
  qed
  then show ?thesis by (simp add: decode_def)
qed

lemma decode_cong: "\<forall>k < n. f k = g k \<Longrightarrow> decode w f n = decode w g n"
proof -
  assume "\<forall>k < n. f k = g k"
  then have "bits_in f n = bits_in g n" by (auto simp: bits_in_def)
  then show ?thesis by (simp add: decode_def)
qed

lemma bit_set_u8: "b < 8 \<Longrightarrow> bit ((x :: u8) OR push_bit p 1) b \<longleftrightarrow> bit x b \<or> b = p"
  by (auto simp: bit_simps)

lemma decode_insert:
  assumes "q < n" "r < 8"
  shows "decode w (f(q := f q OR push_bit (7 - r) 1)) n = insert (256 * w + 8 * q + r) (decode w f n)"
proof -
  have "bits_in (f(q := f q OR push_bit (7 - r) 1)) n = insert (q, 7 - r) (bits_in f n)"
  proof (rule set_eqI, clarify)
    fix k b show "(k, b) \<in> bits_in (f(q := f q OR push_bit (7 - r) 1)) n \<longleftrightarrow> (k, b) \<in> insert (q, 7 - r) (bits_in f n)"
      using assms bit_set_u8 [of b "f q" "7 - r"] by (cases "k = q") (auto simp: bits_in_def)
  qed
  then show ?thesis using assms(2) by (simp add: decode_def)
qed

section \<open>What the generator writes\<close>

text \<open>
  After the types \<open>ts\<close>: blocks for the windows that are done, and the window in progress, whose
  last byte in use holds the last type.
\<close>

definition gen_inv :: "bytes \<Rightarrow> nat list \<Rightarrow> NSECBitmapGenerator \<Rightarrow> DNSPacketWriter \<Rightarrow> bool" where
  "gen_inv c0 ts g w \<longleftrightarrow> (\<exists>blocks win.
     w_content w = c0 @ concat (map enc_block blocks) \<and> list_all good_block blocks \<and> g_oldWindow g = int win \<and> win < 256 \<and>
     length (g_res g) = 34 \<and> 1 \<le> g_len g \<and> g_len g \<le> 32 \<and> (\<forall>k. g_len g \<le> k \<and> k < 32 \<longrightarrow> g_res g ! (2 + k) = 0) \<and>
     blocks_types blocks \<union> decode win (\<lambda>k. g_res g ! (2 + k)) (g_len g) = set ts \<and>
     (\<exists>t \<in> set ts. t div 256 = win \<and> g_len g = 1 + t mod 256 div 8))"

lemma nbg_block_enc:
  "length (g_res g) = 34 \<Longrightarrow> g_len g \<le> 32 \<Longrightarrow> g_oldWindow g = int win \<Longrightarrow>
   nbg_block g = enc_block (win, take (g_len g) (drop 2 (g_res g)))"
proof -
  assume a: "length (g_res g) = 34" "g_len g \<le> 32" "g_oldWindow g = int win"
  obtain x y zs where "g_res g = x # y # zs" using a(1) by (cases "g_res g"; cases "tl (g_res g)") auto
  then show ?thesis using a by (simp add: nbg_block_def)
qed

text \<open>Setting a bit in the window in progress.\<close>

lemma set_in_window:
  assumes "length res = 34" "n \<le> 32" "\<forall>k. n \<le> k \<and> k < 32 \<longrightarrow> res ! (2 + k) = 0" "n \<le> 1 + q" "q < 32" "r < 8"
  shows "decode win (\<lambda>k. res[2 + q := (res ! (2 + q)) OR push_bit (7 - r) 1] ! (2 + k)) (1 + q) =
    insert (256 * win + 8 * q + r) (decode win (\<lambda>k. res ! (2 + k)) n)"
proof -
  let ?f = "\<lambda>k. res ! (2 + k)"
  have "decode win (\<lambda>k. res[2 + q := (res ! (2 + q)) OR push_bit (7 - r) 1] ! (2 + k)) (1 + q) =
      decode win (?f(q := ?f q OR push_bit (7 - r) 1)) (1 + q)"
    using assms(1,5) by (intro decode_cong) (auto simp: nth_list_update)
  also have "\<dots> = insert (256 * win + 8 * q + r) (decode win ?f (1 + q))" using assms(6) by (intro decode_insert) simp_all
  also have "decode win ?f (1 + q) = decode win ?f n" using assms(3,4,5) by (intro decode_more) auto
  finally show ?thesis .
qed

lemma type_digits: "256 * (t div 256) + 8 * (t mod 256 div 8) + t mod 256 mod 8 = (t :: nat)"
  by (metis mult_div_mod_eq add.assoc)

lemma new_window:
  assumes "t < nbTypes" "w_content w = c0 @ concat (map enc_block blocks)" "list_all good_block blocks" "blocks_types blocks = set ts"
    "g' = g\<lparr>g_res := (replicate 34 0)[2 + t mod 256 div 8 := (replicate 34 0 ! (2 + t mod 256 div 8)) OR push_bit (7 - t mod 256 mod 8) 1],
      g_oldWindow := int (t div 256), g_len := 1 + t mod 256 div 8\<rparr>"
  shows "gen_inv c0 (ts @ [t]) g' w"
proof -
  let ?q = "t mod 256 div 8"
  have q: "?q < 32" "t div 256 < 256" using assms(1) by (auto simp: nbTypes_def less_mult_imp_div_less)
  have "decode (t div 256) (\<lambda>k. (replicate 34 0)[2 + ?q := (replicate 34 0 ! (2 + ?q)) OR push_bit (7 - t mod 256 mod 8) 1] ! (2 + k)) (1 + ?q) =
      insert (256 * (t div 256) + 8 * ?q + t mod 256 mod 8) (decode (t div 256) (\<lambda>k. replicate 34 0 ! (2 + k)) 0)"
    using q(1) by (intro set_in_window) auto
  then have dec: "decode (t div 256) (\<lambda>k. g_res g' ! (2 + k)) (g_len g') = {t}"
    using assms(5) by (simp add: type_digits decode_def bits_in_def)
  have "\<forall>k. g_len g' \<le> k \<and> k < 32 \<longrightarrow> g_res g' ! (2 + k) = 0" using assms(5) by simp
  then show ?thesis
    unfolding gen_inv_def using assms q dec
    by (intro exI [of _ blocks] exI [of _ "t div 256"]) auto
qed

lemma nbg_set_first:
  "t < nbTypes \<Longrightarrow> \<exists>g'. nbg_set t NSECBitmapGenerator_init w = (Inr g', w) \<and> gen_inv (w_content w) [t] g' w"
  using new_window [OF _ _ _ _ refl, of t w "w_content w" "[]" "[]" NSECBitmapGenerator_init]
  by (auto simp: nbg_set_def NSECBitmapGenerator_init_def Let_def blocks_types_def)

lemma blocks_types_snoc: "blocks_types (blocks @ [(w, bs)]) = blocks_types blocks \<union> decode w ((!) bs) (length bs)"
  by (auto simp: blocks_types_def)

lemma block_decode:
  "length res = 34 \<Longrightarrow> n \<le> 32 \<Longrightarrow> decode w ((!) (take n (drop 2 res))) (length (take n (drop 2 res))) = decode w (\<lambda>k. res ! (2 + k)) n"
  by (simp add: min_def) (rule decode_cong, simp)

lemma later_type:
  assumes "t < (t' :: nat)" "t div 256 = t' div 256"
  shows "t mod 256 div 8 \<le> t' mod 256 div 8"
proof -
  have "t mod 256 < t' mod 256" using assms by (metis div_mult_mod_eq nat_add_left_cancel_less)
  then show ?thesis by (simp add: div_le_mono)
qed

lemma nbg_set_next:
  assumes "gen_inv c0 ts g w" "t < nbTypes" "\<forall>t' \<in> set ts. t' < t"
  shows "\<exists>g' w'. nbg_set t g w = (Inr g', w') \<and> w' = w\<lparr>w_content := w_content w'\<rparr> \<and> gen_inv c0 (ts @ [t]) g' w'"
proof -
  obtain blocks win l where inv: "w_content w = c0 @ concat (map enc_block blocks)" "list_all good_block blocks" "g_oldWindow g = int win"
    "win < 256" "length (g_res g) = 34" "1 \<le> g_len g" "g_len g \<le> 32" "\<forall>k. g_len g \<le> k \<and> k < 32 \<longrightarrow> g_res g ! (2 + k) = 0"
    "blocks_types blocks \<union> decode win (\<lambda>k. g_res g ! (2 + k)) (g_len g) = set ts"
    "l \<in> set ts" "l div 256 = win" "g_len g = 1 + l mod 256 div 8"
    using assms(1) unfolding gen_inv_def by blast
  let ?q = "t mod 256 div 8" let ?r = "t mod 256 mod 8"
  show ?thesis
  proof (cases "t div 256 = win")
    case True
    have le: "g_len g \<le> 1 + ?q" using inv(10,11,12) assms(3) later_type [of l t] True by auto
    let ?g = "g\<lparr>g_res := (g_res g)[2 + ?q := (g_res g ! (2 + ?q)) OR push_bit (7 - ?r) 1], g_len := 1 + ?q\<rparr>"
    have set: "nbg_set t g w = (Inr ?g, w)" using True inv(3) by (simp add: nbg_set_def Let_def)
    have q: "?q < 32" by (simp add: less_mult_imp_div_less)
    have "decode win (\<lambda>k. g_res ?g ! (2 + k)) (g_len ?g) = insert t (decode win (\<lambda>k. g_res g ! (2 + k)) (g_len g))"
      using set_in_window [OF inv(5,7,8) le q, of ?r win] True type_digits [of t] by simp
    then have "blocks_types blocks \<union> decode win (\<lambda>k. g_res ?g ! (2 + k)) (g_len ?g) = set (ts @ [t])"
      using inv(9) by auto
    moreover have "\<forall>k. g_len ?g \<le> k \<and> k < 32 \<longrightarrow> g_res ?g ! (2 + k) = 0" using inv(8) le by auto
    ultimately have "gen_inv c0 (ts @ [t]) ?g w"
      unfolding gen_inv_def using inv True q by (intro exI [of _ blocks] exI [of _ win]) auto
    then show ?thesis using set by auto
  next
    case False
    let ?b = "(win, take (g_len g) (drop 2 (g_res g)))"
    let ?w = "w\<lparr>w_content := w_content w @ enc_block ?b\<rparr>"
    let ?g = "g\<lparr>g_res := (replicate 34 0)[2 + ?q := (replicate 34 0 ! (2 + ?q)) OR push_bit (7 - ?r) 1],
        g_oldWindow := int (t div 256), g_len := 1 + ?q\<rparr>"
    have set: "nbg_set t g w = (Inr ?g, ?w)"
      using False inv(3) nbg_block_enc [OF inv(5,7,3)]
      by (simp add: nbg_set_def Let_def pw_xfrBlob_def pw_append_def del: enc_block.simps)
    have "blocks_types (blocks @ [?b]) = set ts" using inv(5,7,9) block_decode [of "g_res g" "g_len g" win] by (simp add: blocks_types_snoc)
    moreover have "good_block ?b" using inv(4,5,6,7) by simp
    ultimately have "gen_inv c0 (ts @ [t]) ?g ?w"
      using inv(1,2) by (intro new_window [OF assms(2), where blocks = "blocks @ [?b]", OF _ _ _ refl]) simp_all
    then show ?thesis using set by auto
  qed
qed

lemma nbg_sets_inv:
  "gen_inv c0 ts g w \<Longrightarrow> sorted_wrt (<) (ts @ ts') \<Longrightarrow> \<forall>t \<in> set ts'. t < nbTypes \<Longrightarrow>
   \<exists>g' w'. nbg_sets ts' g w = (Inr g', w') \<and> w' = w\<lparr>w_content := w_content w'\<rparr> \<and> gen_inv c0 (ts @ ts') g' w'"
proof (induction ts' arbitrary: ts g w)
  case Nil
  then show ?case by simp
next
  case (Cons t ts')
  obtain g1 w1 where one: "nbg_set t g w = (Inr g1, w1)" "w1 = w\<lparr>w_content := w_content w1\<rparr>" "gen_inv c0 (ts @ [t]) g1 w1"
    using nbg_set_next [OF Cons.prems(1), of t] Cons.prems(2,3) by (auto simp: sorted_wrt_append)
  obtain g2 w2 where "nbg_sets ts' g1 w1 = (Inr g2, w2)" "w2 = w1\<lparr>w_content := w_content w2\<rparr>" "gen_inv c0 ((ts @ [t]) @ ts') g2 w2"
    using Cons.IH [OF one(3)] Cons.prems(2,3) by auto
  then show ?case using one by (cases w; cases w1; cases w2) auto
qed

lemma generator_writes:
  assumes "sorted_wrt (<) ts" "\<forall>t \<in> set ts. t < nbTypes"
  shows "\<exists>blocks. bindC (nbg_sets ts NSECBitmapGenerator_init) nbg_finish w =
      (Inr (), w\<lparr>w_content := w_content w @ concat (map enc_block blocks)\<rparr>) \<and> list_all good_block blocks \<and> blocks_types blocks = set ts"
proof (cases ts)
  case Nil
  then have "bindC (nbg_sets ts NSECBitmapGenerator_init) nbg_finish w = (Inr (), w\<lparr>w_content := w_content w @ concat (map enc_block [])\<rparr>)"
    by (simp add: nbg_finish_def NSECBitmapGenerator_init_def)
  then show ?thesis using Nil by (intro exI [of _ "[]"]) (simp add: blocks_types_def)
next
  case (Cons t ts')
  obtain g1 where g1: "nbg_set t NSECBitmapGenerator_init w = (Inr g1, w)" "gen_inv (w_content w) [t] g1 w"
    using nbg_set_first [of t w] assms(2) Cons by auto
  obtain g w' where g: "nbg_sets ts' g1 w = (Inr g, w')" "w' = w\<lparr>w_content := w_content w'\<rparr>" "gen_inv (w_content w) ts g w'"
    using nbg_sets_inv [OF g1(2), of ts'] assms Cons by auto
  obtain blocks win where inv: "w_content w' = w_content w @ concat (map enc_block blocks)" "list_all good_block blocks" "g_oldWindow g = int win"
    "win < 256" "length (g_res g) = 34" "1 \<le> g_len g" "g_len g \<le> 32"
    "blocks_types blocks \<union> decode win (\<lambda>k. g_res g ! (2 + k)) (g_len g) = set ts"
    using g(3) unfolding gen_inv_def by blast
  let ?b = "(win, take (g_len g) (drop 2 (g_res g)))"
  have "bindC (nbg_sets ts NSECBitmapGenerator_init) nbg_finish w = (Inr (), w'\<lparr>w_content := w_content w' @ enc_block ?b\<rparr>)"
    using Cons g1(1) g(1) inv(6) nbg_block_enc [OF inv(5,7,3)]
    by (simp add: nbg_finish_def pw_xfrBlob_def pw_append_def del: enc_block.simps)
  moreover have "w'\<lparr>w_content := w_content w' @ enc_block ?b\<rparr> = w\<lparr>w_content := w_content w @ concat (map enc_block (blocks @ [?b]))\<rparr>"
    using g(2) inv(1) by (cases w; cases w') simp
  moreover have "blocks_types (blocks @ [?b]) = set ts" using inv(5,7,8) block_decode [of "g_res g" "g_len g" win] by (simp add: blocks_types_snoc)
  moreover have "list_all good_block (blocks @ [?b])" using inv(2,4,5,6,7) by simp
  ultimately show ?thesis by metis
qed

section \<open>The loops of the reader and of the writer\<close>

lemma byte_types_decode:
  "set (concat (map (\<lambda>k. byte_types w k (f k)) [0..<n])) = decode w f n"
proof -
  have "bits_in f n = (SIGMA k:{..<n}. {b. b < 8 \<and> bit (f k) b})" by (auto simp: bits_in_def)
  moreover have "set (byte_types w k v) = (\<lambda>b. 256 * w + 8 * k + (7 - b)) ` {b. b < 8 \<and> bit v b}" for k v
    unfolding byte_types_def by (simp only: set_map set_filter set_upt) (rule image_cong, auto)
  ultimately show ?thesis by (simp add: decode_def Sigma_def image_UN lessThan_atLeast0 image_image) blast
qed

lemma nb_blocks_step:
  assumes "n + 2 + l \<le> length bm" "1 \<le> l" "l \<le> 32" "unat (bm ! n) = w" "unat (bm ! (n + 1)) = l"
  shows "nb_blocks bm n m = nb_blocks bm (n + 2 + l) (fold nb_set (concat (map (\<lambda>k. byte_types w k (bm ! (n + 2 + k))) [0..<l])) m)"
proof -
  have "bm ! (n + 1) \<noteq> 0" using assms(2,5) by (metis unat_0 not_one_le_zero)
  then show ?thesis using assms by (subst nb_blocks.simps) (simp add: Let_def)
qed

lemma decode_bound: "w < 256 \<Longrightarrow> n \<le> 32 \<Longrightarrow> t \<in> decode w f n \<Longrightarrow> t < nbTypes"
  by (auto simp: decode_def bits_in_def nbTypes_def)

lemma nb_blocks_reads:
  "list_all good_block blocks \<Longrightarrow> nb_inv m \<Longrightarrow>
   \<exists>m'. nb_blocks (pre @ concat (map enc_block blocks)) (length pre) m = Inr m' \<and> nb_inv m' \<and> nb_abs m' = nb_abs m \<union> blocks_types blocks"
proof (induction blocks arbitrary: pre m)
  case Nil
  then show ?case by (simp add: nb_blocks.simps blocks_types_def)
next
  case (Cons b blocks)
  obtain w bs where b: "b = (w, bs)" "w < 256" "1 \<le> length bs" "length bs \<le> 32" using Cons.prems(1) by (cases b) auto
  let ?bm = "pre @ concat (map enc_block (b # blocks))"
  let ?ts = "concat (map (\<lambda>k. byte_types w k (bs ! k)) [0..<length bs])"
  have at: "?bm ! length pre = of_nat w" "?bm ! (length pre + 1) = of_nat (length bs)"
    "\<And>k. k < length bs \<Longrightarrow> ?bm ! (length pre + 2 + k) = bs ! k"
    using b(1) by (simp_all add: nth_append)
  have len: "unat (of_nat (length bs) :: u8) = length bs" "unat (of_nat w :: u8) = w"
    using b(2,4) by (simp_all add: unat_of_nat)
  have ts: "concat (map (\<lambda>k. byte_types w k (?bm ! (length pre + 2 + k))) [0..<length bs]) = ?ts"
    using at(3) by (intro arg_cong [where f = concat] map_cong) simp_all
  have step: "nb_inv (fold nb_set ?ts m) \<and> nb_abs (fold nb_set ?ts m) = decode w ((!) bs) (length bs) \<union> nb_abs m"
    using nb_sets_refine [OF Cons.prems(2), of ?ts] b(2,4) decode_bound unfolding byte_types_decode by blast
  obtain m' where m': "nb_blocks ((pre @ enc_block b) @ concat (map enc_block blocks)) (length (pre @ enc_block b)) (fold nb_set ?ts m) = Inr m'"
    "nb_inv m'" "nb_abs m' = nb_abs (fold nb_set ?ts m) \<union> blocks_types blocks"
    using Cons.IH [of "fold nb_set ?ts m" "pre @ enc_block b"] Cons.prems(1) step by auto
  have "nb_blocks ?bm (length pre) m = nb_blocks ?bm (length pre + 2 + length bs) (fold nb_set ?ts m)"
    unfolding ts [symmetric] using b at(1,2) len by (intro nb_blocks_step) simp_all
  also have "\<dots> = Inr m'" using m'(1) b(1) by (simp add: add.assoc)
  finally show ?case using m' step b(1) by (auto simp: blocks_types_def)
qed

lemma bitset_types_spec:
  assumes "finite b" "b \<subseteq> {..<nbTypes}"
  shows "sorted_wrt (<) (bitset_types b (card b) (card (b \<inter> {..<idx})) idx) \<and> set (bitset_types b (card b) (card (b \<inter> {..<idx})) idx) = b \<inter> {idx..}"
proof (induction "nbTypes - idx" arbitrary: idx rule: less_induct)
  case less
  let ?f = "card (b \<inter> {..<idx})"
  have more: "b \<inter> {..<idx + 1} = (if idx \<in> b then insert idx (b \<inter> {..<idx}) else b \<inter> {..<idx})"
    by (auto simp: less_Suc_eq)
  show ?case
  proof (cases "idx < nbTypes \<and> ?f < card b")
    case True
    have IH: "sorted_wrt (<) (bitset_types b (card b) (card (b \<inter> {..<idx + 1})) (idx + 1)) \<and>
        set (bitset_types b (card b) (card (b \<inter> {..<idx + 1})) (idx + 1)) = b \<inter> {idx + 1..}"
      using True by (intro less) auto
    have c: "card (b \<inter> {..<idx + 1}) = (if idx \<in> b then ?f + 1 else ?f)" using assms(1) unfolding more by simp
    have eq: "b \<inter> {idx..} = (if idx \<in> b then insert idx (b \<inter> {idx + 1..}) else b \<inter> {idx + 1..})"
      by (auto simp: Suc_le_eq order_le_less)
    show ?thesis using True IH c eq by (subst (1 2) bitset_types.simps) (auto simp: Suc_le_eq)
  next
    case False
    have "b \<inter> {idx..} = {}"
    proof (cases "idx < nbTypes")
      case True
      then have "card b \<le> card (b \<inter> {..<idx})" using False by simp
      then have "b \<inter> {..<idx} = b" by (rule card_seteq [OF assms(1) Int_lower1])
      then have "b \<subseteq> {..<idx}" by blast
      then show ?thesis by fastforce
    qed (use assms(2) in auto)
    then show ?thesis using False by (subst (1 2) bitset_types.simps) auto
  qed
qed

lemma toPacket_writes:
  assumes "nb_inv m"
  shows "\<exists>blocks. nb_toPacket m w = (Inr (), w\<lparr>w_content := w_content w @ concat (map enc_block blocks)\<rparr>) \<and>
    list_all good_block blocks \<and> blocks_types blocks = nb_abs m"
proof -
  let ?ts = "case d_bitset m of Some bitset \<Rightarrow> bitset_types bitset (card bitset) 0 0 | None \<Rightarrow> d_set m"
  have "sorted_wrt (<) ?ts \<and> set ?ts = nb_abs m"
  proof (cases "d_bitset m")
    case None
    then show ?thesis using assms by (simp add: nb_inv_def nb_abs_def strict_sorted_iff)
  next
    case (Some b)
    then show ?thesis using assms bitset_types_spec [of b 0] by (simp add: nb_inv_def nb_abs_def)
  qed
  moreover from this have "\<forall>t \<in> set ?ts. t < nbTypes" using assms by (auto simp: nb_inv_def)
  ultimately show ?thesis using generator_writes [of ?ts w] by (simp add: nb_toPacket_def)
qed

section \<open>The bytes of a bitmap\<close>

text \<open>The bytes written do not depend on what is in the packet already.\<close>

lemma append_frame: "pw_append bs w = (Inr (), w\<lparr>w_content := w_content w @ bs\<rparr>)"
  by (simp add: pw_append_def)

lemma nbg_set_frame: "\<exists>g' bs. \<forall>w. nbg_set t g w = (Inr g', w\<lparr>w_content := w_content w @ bs\<rparr>)"
proof (cases "int (t div 256) \<noteq> g_oldWindow g \<and> g_oldWindow g > -1")
  case True
  then show ?thesis by (simp add: nbg_set_def Let_def pw_xfrBlob_def append_frame) blast
next
  case False
  then have "\<exists>g'. \<forall>w. nbg_set t g w = (Inr g', w)" by (auto simp: nbg_set_def Let_def)
  then show ?thesis by (metis append_Nil2 DNSPacketWriter.unfold_congs(3) DNSPacketWriter.surjective DNSPacketWriter.update_convs(3))
qed

lemma nbg_sets_frame: "\<exists>g' bs. \<forall>w. nbg_sets ts g w = (Inr g', w\<lparr>w_content := w_content w @ bs\<rparr>)"
proof (induction ts arbitrary: g)
  case Nil
  have "\<forall>w. nbg_sets [] g w = (Inr g, w\<lparr>w_content := w_content w @ []\<rparr>)" by simp
  then show ?case by blast
next
  case (Cons t ts)
  obtain g1 b1 where 1: "\<And>w. nbg_set t g w = (Inr g1, w\<lparr>w_content := w_content w @ b1\<rparr>)" using nbg_set_frame by blast
  obtain g2 b2 where 2: "\<And>w. nbg_sets ts g1 w = (Inr g2, w\<lparr>w_content := w_content w @ b2\<rparr>)" using Cons by blast
  have "\<forall>w. nbg_sets (t # ts) g w = (Inr g2, w\<lparr>w_content := w_content w @ (b1 @ b2)\<rparr>)" by (simp add: 1 2)
  then show ?case by blast
qed

definition nb_wire :: "NSECBitmap \<Rightarrow> bytes" where
  "nb_wire m = w_content (snd (nb_toPacket m
     \<lparr>w_namepositions = [], w_qname = g_rootdnsname, w_content = [], w_sor = 0, w_rollbackmarker = 0,
      w_truncatemarker = 0, w_recordplace = ANSWER, w_canonic = False, w_lowerCase = False, w_compress = True\<rparr>))"

lemma nb_toPacket_wire: "nb_toPacket m w = (Inr (), w\<lparr>w_content := w_content w @ nb_wire m\<rparr>)"
proof -
  have "\<exists>bs. \<forall>w. nb_toPacket m w = (Inr (), w\<lparr>w_content := w_content w @ bs\<rparr>)"
  proof -
    let ?ts = "case d_bitset m of Some bitset \<Rightarrow> bitset_types bitset (card bitset) 0 0 | None \<Rightarrow> d_set m"
    obtain g bs where "\<And>w. nbg_sets ?ts NSECBitmapGenerator_init w = (Inr g, w\<lparr>w_content := w_content w @ bs\<rparr>)"
      using nbg_sets_frame by blast
    then have "\<forall>w. nb_toPacket m w = (Inr (), w\<lparr>w_content := w_content w @ (bs @ (if g_len g \<noteq> 0 then nbg_block g else []))\<rparr>)"
      by (simp add: nb_toPacket_def nbg_finish_def pw_xfrBlob_def append_frame)
    then show ?thesis by blast
  qed
  then obtain bs where bs: "\<And>w. nb_toPacket m w = (Inr (), w\<lparr>w_content := w_content w @ bs\<rparr>)" by blast
  then have "nb_wire m = bs" by (simp add: nb_wire_def)
  then show ?thesis using bs by simp
qed

lemma nb_wire_blocks:
  assumes "nb_inv m"
  shows "\<exists>blocks. nb_wire m = concat (map enc_block blocks) \<and> list_all good_block blocks \<and> blocks_types blocks = nb_abs m"
proof -
  let ?w = "\<lparr>w_namepositions = [], w_qname = g_rootdnsname, w_content = [], w_sor = 0, w_rollbackmarker = 0,
      w_truncatemarker = 0, w_recordplace = ANSWER, w_canonic = False, w_lowerCase = False, w_compress = True\<rparr>"
  show ?thesis using toPacket_writes [OF assms, of ?w] nb_toPacket_wire [of m ?w] by auto
qed

lemma ahead_bitmap:
  assumes "nb_inv m" "ahead r (nb_wire m)" "d_pos r + length (nb_wire m) = d_startrecordpos r + d_recordlen r"
  shows "\<exists>m'. nb_fromPacket NSECBitmap_init r = (Inr m', skip_to r (length (nb_wire m))) \<and> nb_inv m' \<and> nb_abs m' = nb_abs m"
proof -
  obtain blocks where w: "nb_wire m = concat (map enc_block blocks)" "list_all good_block blocks" "blocks_types blocks = nb_abs m"
    using nb_wire_blocks [OF assms(1)] by blast
  have blob: "pr_xfrBlob r = (Inr (nb_wire m), skip_to r (length (nb_wire m)))" using assms(2,3) by (rule ahead_blob)
  obtain m' where m': "nb_blocks (nb_wire m) 0 NSECBitmap_init = Inr m'" "nb_inv m'" "nb_abs m' = nb_abs m"
    using nb_blocks_reads [OF w(2) init_inv(1), of "[]"] w(1,3) init_inv(2) by auto
  have "nb_fromPacket NSECBitmap_init r = (Inr m', skip_to r (length (nb_wire m)))"
  proof (cases blocks)
    case Nil
    then show ?thesis using m'(1) blob w(1) by (simp add: nb_fromPacket_def nb_blocks.simps)
  next
    case (Cons b bs)
    then have "length (nb_wire m) \<ge> 2" using w(1) by (cases b) simp
    moreover from this have "nb_wire m \<noteq> []" by auto
    ultimately show ?thesis using m'(1) blob by (simp add: nb_fromPacket_def)
  qed
  then show ?thesis using m' by blast
qed

section \<open>Properties\<close>

text \<open>
  Claim C33 (a type bitmap is the set of its types): whatever types are set, in whatever order and
  number, so on both sides of the move from the small set to the bitset, the class answers
  membership and size as the set of these types, and keeps its representation invariant.
\<close>

theorem NSECBitmap_refines_set:
  assumes "\<forall>t \<in> set ts. t < nbTypes"
  shows "nb_inv (fold nb_set ts NSECBitmap_init) \<and> nb_abs (fold nb_set ts NSECBitmap_init) = set ts \<and>
    nb_isSet t (fold nb_set ts NSECBitmap_init) = (t \<in> set ts) \<and>
    nb_count (fold nb_set ts NSECBitmap_init) = card (set ts) \<and>
    nb_abs (NSECBitmap_copy (fold nb_set ts NSECBitmap_init)) = set ts"
proof -
  let ?m = "fold nb_set ts NSECBitmap_init"
  have r: "nb_inv ?m" "nb_abs ?m = set ts" using nb_sets_refine [OF init_inv(1) assms] init_inv(2) by simp_all
  then show ?thesis
    using distinct_card [of "d_set ?m"]
    by (auto simp: nb_isSet_def nb_count_def NSECBitmap_copy_def nb_inv_def nb_abs_def split: option.splits)
qed

theorem NSECBitmap_refines_set_witness:
  "nb_count (fold nb_set [47, 1, 46, 257] NSECBitmap_init) = 4 \<and> nb_isSet 46 (fold nb_set [47, 1, 46, 257] NSECBitmap_init)"
  using NSECBitmap_refines_set [of "[47, 1, 46, 257]" 46] by (simp add: nbTypes_def)

text \<open>
  Claim C17 (type bitmaps survive the wire): a bitmap is always written, in either representation,
  and the bytes written, read as the end of a record into a fresh bitmap, give the same set of
  types, with nothing left over.
\<close>

theorem NSECBitmap_wire_roundtrip:
  assumes "nb_inv m" "d_content r = w_content (snd (nb_toPacket m w)) @ rest"
    "d_pos r = length (w_content w)" "d_startrecordpos r \<le> d_pos r"
    "d_startrecordpos r + d_recordlen r = length (w_content (snd (nb_toPacket m w)))"
  shows "fst (nb_toPacket m w) = Inr () \<and>
    (\<exists>m'. nb_fromPacket NSECBitmap_init r = (Inr m', r\<lparr>d_pos := d_startrecordpos r + d_recordlen r\<rparr>) \<and> nb_inv m' \<and> nb_abs m' = nb_abs m)"
proof -
  have w: "nb_toPacket m w = (Inr (), w\<lparr>w_content := w_content w @ nb_wire m\<rparr>)" by (rule nb_toPacket_wire)
  have at: "ahead r (nb_wire m)" "d_pos r + length (nb_wire m) = d_startrecordpos r + d_recordlen r"
    using assms w by (simp_all add: ahead_def)
  have "skip_to r (length (nb_wire m)) = r\<lparr>d_pos := d_startrecordpos r + d_recordlen r\<rparr>" using at(2) by (simp add: skip_to_def)
  then show ?thesis using ahead_bitmap [OF assms(1) at] w by simp
qed

theorem NSECBitmap_wire_roundtrip_witness:
  "\<exists>w r m. fst (nb_toPacket (fold nb_set [300, 1, 46] NSECBitmap_init) w) = Inr () \<and>
     fst (nb_fromPacket NSECBitmap_init r) = Inr m \<and> nb_abs m = {1, 46, 300}"
proof -
  let ?m = "fold nb_set [300, 1, 46] NSECBitmap_init"
  let ?w = "\<lparr>w_namepositions = [], w_qname = g_rootdnsname, w_content = [0], w_sor = 0, w_rollbackmarker = 0,
      w_truncatemarker = 0, w_recordplace = ANSWER, w_canonic = False, w_lowerCase = False, w_compress = True\<rparr>"
  let ?c = "w_content (snd (nb_toPacket ?m ?w))"
  let ?r = "\<lparr>d_pointerBudget = 0, d_pos = 1, d_startrecordpos = 1, d_recordlen = length ?c - 1, d_internal = False, d_standalone = False,
      d_content = ?c\<rparr>"
  have m: "nb_inv ?m" "nb_abs ?m = {1, 46, 300}"
    using nb_sets_refine [OF init_inv(1), of "[300, 1, 46]"] init_inv(2) by (auto simp: nbTypes_def)
  have "1 + (length ?c - 1) = length ?c" by (simp add: nb_toPacket_wire)
  then have "fst (nb_toPacket ?m ?w) = Inr () \<and> (\<exists>m'. nb_fromPacket NSECBitmap_init ?r = (Inr m', ?r\<lparr>d_pos := 1 + (length ?c - 1)\<rparr>) \<and>
      nb_inv m' \<and> nb_abs m' = nb_abs ?m)"
    using NSECBitmap_wire_roundtrip [OF m(1), of ?r ?w "[]"] by simp
  then show ?thesis using m(2) by (metis fst_conv)
qed

lemma small_set_kept: "d_bitset m = None \<Longrightarrow> length (d_set m) + length ts \<le> 200 \<Longrightarrow> d_bitset (fold nb_set ts m) = None"
proof (induction ts arbitrary: m)
  case (Cons t ts)
  then have "length (d_set (nb_set t m)) \<le> length (d_set m) + 1" "d_bitset (nb_set t m) = None"
    by (auto simp: nb_set_def Let_def insort_insert_key_def length_insort)
  then show ?case using Cons by simp
qed simp

text \<open>
  Claim C38 (copy assignment forgets to drop the bitset): assigning a bitmap of up to 200 types to one that
  holds more than 200 has no visible effect: the target keeps answering with its old types, where
  the copy constructor gives the types of the source.
\<close>

theorem NSECBitmap_assign_keeps_old_types:
  assumes "\<forall>t \<in> set ts. t < nbTypes" "card (set ts) > 200" "\<forall>t \<in> set us. t < nbTypes" "length us \<le> 200"
  shows "nb_abs (nb_assign (fold nb_set ts NSECBitmap_init) (fold nb_set us NSECBitmap_init)) = set ts \<and>
    nb_abs (NSECBitmap_copy (fold nb_set us NSECBitmap_init)) = set us"
proof -
  let ?m = "fold nb_set ts NSECBitmap_init" let ?n = "fold nb_set us NSECBitmap_init"
  have m: "nb_inv ?m" "nb_abs ?m = set ts" and n: "nb_inv ?n" "nb_abs ?n = set us"
    using nb_sets_refine [OF init_inv(1) assms(1)] nb_sets_refine [OF init_inv(1) assms(3)] init_inv(2) by simp_all
  have none: "d_bitset ?n = None" using assms(4) by (intro small_set_kept) (simp_all add: NSECBitmap_init_def)
  have "d_bitset ?m \<noteq> None"
  proof
    assume "d_bitset ?m = None"
    then have "set (d_set ?m) = set ts" "length (d_set ?m) \<le> 200" using m by (auto simp: nb_abs_def nb_inv_def)
    then show False using assms(2) card_length [of "d_set ?m"] by simp
  qed
  then show ?thesis using m n none by (auto simp: nb_assign_def nb_abs_def NSECBitmap_copy_def Let_def)
qed

theorem NSECBitmap_assign_keeps_old_types_witness:
  "300 \<notin> nb_abs (nb_assign (fold nb_set [0..<201] NSECBitmap_init) (fold nb_set [300] NSECBitmap_init)) \<and>
   nb_abs (NSECBitmap_copy (fold nb_set [300] NSECBitmap_init)) = {300}"
  using NSECBitmap_assign_keeps_old_types [of "[0..<201]" "[300]"] by (simp add: nbTypes_def del: upt_rec_numeral upt_conv_Cons)

end
