(* ===== verification/Apl.thy ===== *)
theory Apl
  imports Writer ReadAhead
begin

text \<open>
  Address prefix lists: the element \<^verbatim>\<open>APLRDataElement\<close> of \<^verbatim>\<open>pdns/dnsrecords.hh\<close> and the wire format of an \<^verbatim>\<open>APL\<close>
  record in \<^verbatim>\<open>pdns/dnsrecords.cc\<close>. Of the union of the two address arrays only the member of the
  element's family is kept.
\<close>

unbundle bit_operations_syntax

record APLRDataElement =
  ard_family :: nat
  ard_prefix :: nat
  ard_n :: bool
  ard_afdlength :: nat
  ard_ip :: bytes

definition APL_FAMILY_IPV4 :: nat where "APL_FAMILY_IPV4 = 1"
definition APL_FAMILY_IPV6 :: nat where "APL_FAMILY_IPV6 = 2"

section \<open>Reading\<close>

fun pr_get8s :: "nat \<Rightarrow> (PacketReader, bytes) call" where
  "pr_get8s 0 = returnC []"
| "pr_get8s (Suc n) = bindC pr_get8BitInt (\<lambda>b. bindC (pr_get8s n) (\<lambda>bs. returnC (b # bs)))"

text \<open>One round of the loop; \<open>left\<close> is what the record length leaves.\<close>

definition apl_element :: "nat \<Rightarrow> (PacketReader, APLRDataElement) call" where
  "apl_element left =
     bindC pr_get16BitInt (\<lambda>family. bindC pr_get8BitInt (\<lambda>pre. bindC pr_get8BitInt (\<lambda>temp.
       let n = (drop_bit 7 (temp AND 128) \<noteq> 0); afdlength = unat (temp AND 127) in
       if afdlength > left - 4 then throwC (MOADNSException ''Malformed APL record, address data extends beyond record length'')
       else if family = APL_FAMILY_IPV4 then
         (if afdlength > 4 then throwC (MOADNSException ''Invalid IP length for IPv4 APL'')
          else bindC (pr_get8s afdlength) (\<lambda>bs. returnC
            \<lparr>ard_family = family, ard_prefix = unat pre, ard_n = n, ard_afdlength = afdlength, ard_ip = bs @ replicate (4 - afdlength) 0\<rparr>))
       else if family = APL_FAMILY_IPV6 then
         (if afdlength > 16 then throwC (MOADNSException ''Invalid IP length for IPv6 APL'')
          else bindC (pr_get8s afdlength) (\<lambda>bs. returnC
            \<lparr>ard_family = family, ard_prefix = unat pre, ard_n = n, ard_afdlength = afdlength, ard_ip = bs @ replicate (16 - afdlength) 0\<rparr>))
       else throwC (MOADNSException ''Unknown family for APL record''))))"

function apl_loop :: "nat \<Rightarrow> nat \<Rightarrow> (PacketReader, APLRDataElement list) call" where
  "apl_loop clen processed =
     (if processed < clen then
        (if clen - processed < 4 then throwC (MOADNSException ''Malformed APL record, element header extends beyond record length'')
         else bindC (apl_element (clen - processed)) (\<lambda>ard.
                bindC (apl_loop clen (processed + (4 + ard_afdlength ard))) (\<lambda>ards. returnC (ard # ards))))
      else returnC [])"
  by pat_completeness auto
termination
  by (relation "measure (\<lambda>(clen, processed). clen - processed)") auto

declare apl_loop.simps [simp del]

definition APL_make :: "nat \<Rightarrow> (PacketReader, APLRDataElement list) call" where
  "APL_make clen =
     bindC (apl_loop clen 0) (\<lambda>aplrdata. bindC pr_eof (\<lambda>eof.
       if \<not> eof then throwC (MOADNSException ''When parsing APL trailing data was not parsed'') else returnC aplrdata))"

section \<open>Writing\<close>

fun pw_xfr8s :: "bytes \<Rightarrow> unit writing" where
  "pw_xfr8s [] = returnC ()"
| "pw_xfr8s (b # bs) = bindC (pw_xfr8BitInt (unat b)) (\<lambda>_. pw_xfr8s bs)"

definition apl_write :: "APLRDataElement \<Rightarrow> unit writing" where
  "apl_write ard =
     bindC (pw_xfr16BitInt (ard_family ard)) (\<lambda>_.
     bindC (pw_xfr8BitInt (ard_prefix ard)) (\<lambda>_.
     bindC (pw_xfr8BitInt ((if ard_n ard then 128 else 0) + ard_afdlength ard)) (\<lambda>_.
       if ard_family ard = APL_FAMILY_IPV4 then pw_xfr8s (take (ard_afdlength ard) (ard_ip ard))
       else if ard_family ard = APL_FAMILY_IPV6 then pw_xfr8s (take (ard_afdlength ard) (ard_ip ard))
       else returnC ())))"

fun APL_toPacket :: "APLRDataElement list \<Rightarrow> unit writing" where
  "APL_toPacket [] = returnC ()"
| "APL_toPacket (ard # ards) = bindC (apl_write ard) (\<lambda>_. APL_toPacket ards)"

section \<open>Laws\<close>

text \<open>An element as the parsers make it: the bytes after the significant ones are zero.\<close>

definition ard_ok :: "APLRDataElement \<Rightarrow> bool" where
  "ard_ok ard \<longleftrightarrow> ard_prefix ard < 256 \<and>
     (\<exists>n. (ard_family ard = APL_FAMILY_IPV4 \<and> n = 4 \<or> ard_family ard = APL_FAMILY_IPV6 \<and> n = 16) \<and> ard_afdlength ard \<le> n \<and>
        length (ard_ip ard) = n \<and> drop (ard_afdlength ard) (ard_ip ard) = replicate (n - ard_afdlength ard) 0)"

definition ard_wire :: "APLRDataElement \<Rightarrow> bytes" where
  "ard_wire ard = to_be16 (ard_family ard) @ [of_nat (ard_prefix ard), of_nat ((if ard_n ard then 128 else 0) + ard_afdlength ard)] @
     take (ard_afdlength ard) (ard_ip ard)"

lemma ard_ok_cases:
  assumes "ard_ok ard"
  obtains bs n where "ard_family ard = APL_FAMILY_IPV4 \<and> n = 4 \<or> ard_family ard = APL_FAMILY_IPV6 \<and> n = 16" "length bs \<le> n"
    "ard_afdlength ard = length bs" "ard_ip ard = bs @ replicate (n - length bs) 0" "ard_prefix ard < 256"
    "take (ard_afdlength ard) (ard_ip ard) = bs"
proof -
  obtain n where n: "ard_family ard = APL_FAMILY_IPV4 \<and> n = 4 \<or> ard_family ard = APL_FAMILY_IPV6 \<and> n = 16" "ard_afdlength ard \<le> n"
    "length (ard_ip ard) = n" "drop (ard_afdlength ard) (ard_ip ard) = replicate (n - ard_afdlength ard) 0" "ard_prefix ard < 256"
    using assms unfolding ard_ok_def by blast
  let ?bs = "take (ard_afdlength ard) (ard_ip ard)"
  have "length ?bs = ard_afdlength ard" using n(2,3) by simp
  moreover have "ard_ip ard = ?bs @ replicate (n - ard_afdlength ard) 0" using n(4) by (metis append_take_drop_id)
  ultimately show thesis using that [of n ?bs] n by simp
qed

lemma xfr8s_written: "pw_xfr8s bs w = (Inr (), w\<lparr>w_content := w_content w @ bs\<rparr>)"
  by (induction bs arbitrary: w) (auto simp: pw_xfr8BitInt_def pw_append_def unat_u8_less [THEN less_imp_le] leD)

definition apl_wire :: "APLRDataElement list \<Rightarrow> bytes" where
  "apl_wire ards = concat (map ard_wire ards)"

lemma apl_wire_simps [simp]: "apl_wire [] = []" "apl_wire (ard # ards) = ard_wire ard @ apl_wire ards"
  by (simp_all add: apl_wire_def)

lemma ard_wire_length: "ard_ok ard \<Longrightarrow> length (ard_wire ard) = 4 + ard_afdlength ard"
  by (auto simp: ard_wire_def elim!: ard_ok_cases)

lemma apl_written: "\<forall>ard \<in> set ards. ard_ok ard \<Longrightarrow> APL_toPacket ards w = (Inr (), w\<lparr>w_content := w_content w @ apl_wire ards\<rparr>)"
proof (induction ards arbitrary: w)
  case (Cons ard ards)
  then have "ard_ok ard" by simp
  then have "apl_write ard w = (Inr (), w\<lparr>w_content := w_content w @ ard_wire ard\<rparr>)"
    by (cases rule: ard_ok_cases)
      (auto simp: apl_write_def ard_wire_def pw_xfr16BitInt_def pw_xfr8BitInt_def pw_append_def xfr8s_written APL_FAMILY_IPV4_def APL_FAMILY_IPV6_def)
  then show ?case using Cons by simp
qed simp

lemma ahead_get8s: "ahead r bs \<Longrightarrow> pr_get8s (length bs) r = (Inr bs, skip_to r (length bs))"
proof (induction bs arbitrary: r)
  case (Cons b bs)
  have a: "ahead r [b]" "ahead (skip_to r 1) bs" using Cons.prems ahead_append [of r "[b]" bs] by simp_all
  then show ?case using Cons.IH [OF a(2)] by (simp add: ahead_get8)
qed simp

lemma high_bit_u8: "unat ((x :: u8) AND 127) = unat x mod 128" "drop_bit 7 (x AND 128) \<noteq> 0 \<longleftrightarrow> odd (unat x div 128)"
proof -
  have "x AND 127 = take_bit 7 x" by (simp add: take_bit_eq_mask mask_eq_exp_minus_1)
  then have "unat (x AND 127) = take_bit 7 (unat x)" by (simp add: unsigned_take_bit_eq)
  then show "unat (x AND 127) = unat x mod 128" by (simp add: take_bit_eq_mod)
  have "drop_bit 7 (x AND push_bit 7 1) = of_bool (bit x 7)" by (rule bit_word_eqI) (auto simp: bit_simps)
  then have "drop_bit 7 (x AND 128) \<noteq> 0 \<longleftrightarrow> bit x 7" by (simp add: push_bit_eq_mult)
  also have "\<dots> \<longleftrightarrow> bit (unat x) 7" by (simp add: bit_unsigned_iff)
  finally show "drop_bit 7 (x AND 128) \<noteq> 0 \<longleftrightarrow> odd (unat x div 128)" by (simp add: bit_iff_odd)
qed

lemma length_byte:
  assumes "m < 128"
  shows "unat ((of_nat ((if n then 128 else 0) + m) :: u8) AND 127) = m" "drop_bit 7 ((of_nat ((if n then 128 else 0) + m) :: u8) AND 128) \<noteq> 0 \<longleftrightarrow> n"
proof -
  have "unat (of_nat ((if n then 128 else 0) + m) :: u8) = (if n then 128 else 0) + m" using assms by (intro unat_of_nat_u8) simp
  then show "unat ((of_nat ((if n then 128 else 0) + m) :: u8) AND 127) = m" "drop_bit 7 ((of_nat ((if n then 128 else 0) + m) :: u8) AND 128) \<noteq> 0 \<longleftrightarrow> n"
    unfolding high_bit_u8 using assms div_add_self1 [of 128 m] by (simp_all del: div_add_self1)
qed

lemma ahead_element:
  assumes "ard_ok ard" "ahead r (ard_wire ard)" "ard_afdlength ard \<le> left - 4"
  shows "apl_element left r = (Inr ard, skip_to r (4 + ard_afdlength ard))"
  using assms(1)
proof (cases rule: ard_ok_cases)
  case (1 bs n)
  let ?p = "of_nat (ard_prefix ard) :: u8" let ?t = "of_nat ((if ard_n ard then 128 else 0) + length bs) :: u8"
  have fam: "ard_family ard < 65536" using 1(1) by (auto simp: APL_FAMILY_IPV4_def APL_FAMILY_IPV6_def)
  have bs: "length bs < 128" using 1(1,2) by auto
  have "ahead r (to_be16 (ard_family ard) @ [?p] @ [?t] @ bs)" using assms(2) 1 by (simp add: ard_wire_def)
  then have a: "ahead r (to_be16 (ard_family ard))" "ahead (skip_to r 2) [?p]" "ahead (skip_to r 3) [?t]" "ahead (skip_to r 4) bs"
    using ahead_append [of r "to_be16 (ard_family ard)" "?p # ?t # bs"] ahead_append [of "skip_to r 2" "[?p]" "?t # bs"]
      ahead_append [of "skip_to r 3" "[?t]" bs] by simp_all
  have p: "unat ?p = ard_prefix ard" using 1(5) by (intro unat_of_nat_u8) simp
  show ?thesis
    using ahead_get16 [OF a(1) fam] ahead_get8 [OF a(2)] ahead_get8 [OF a(3)] ahead_get8s [OF a(4)] length_byte [OF bs, of "ard_n ard"] p
      assms(3) 1 by (cases ard) (auto simp: apl_element_def APL_FAMILY_IPV4_def APL_FAMILY_IPV6_def Let_def)
qed

lemma ahead_apl:
  "\<forall>ard \<in> set ards. ard_ok ard \<Longrightarrow> ahead r (apl_wire ards) \<Longrightarrow> clen = processed + length (apl_wire ards) \<Longrightarrow>
   apl_loop clen processed r = (Inr ards, skip_to r (length (apl_wire ards)))"
proof (induction ards arbitrary: r processed)
  case Nil
  then show ?case by (simp add: apl_loop.simps)
next
  case (Cons ard ards)
  have ok: "ard_ok ard" "length (ard_wire ard) = 4 + ard_afdlength ard" using Cons.prems(1) ard_wire_length by auto
  have a: "ahead r (ard_wire ard)" "ahead (skip_to r (4 + ard_afdlength ard)) (apl_wire ards)"
    using Cons.prems(2) ok(2) by (simp_all add: ahead_append)
  have "apl_element (clen - processed) r = (Inr ard, skip_to r (4 + ard_afdlength ard))"
    using ok a(1) Cons.prems(3) by (intro ahead_element) simp_all
  then show ?case using Cons.IH [OF _ a(2), of "processed + (4 + ard_afdlength ard)"] Cons.prems ok(2)
    by (subst apl_loop.simps) (simp add: add.assoc)
qed

end
