(* ===== verification/Convertor.thy ===== *)
theory Convertor
  imports WriterRecords SvcParams NsecBitmap Apl
begin

text \<open>
  The convertor interface. Every record type describes its content once, in the second argument of
  \<^verbatim>\<open>boilerplate_conv\<close> (\<^verbatim>\<open>pdns/dnsrecords.cc\<close>), as calls on an object \<^verbatim>\<open>conv\<close>; the template is instantiated with
  \<^verbatim>\<open>PacketReader\<close> and with \<^verbatim>\<open>DNSPacketWriter\<close>. Here such a description is a value of type \<open>conv\<close>, in which
  the integers transferred so far decide what follows, and \<open>conv_read\<close> and \<open>conv_write\<close> run it.
\<close>

section \<open>The calls\<close>

datatype xfr =
    XIP | XIP6 | XNodeOrLocatorID | X48BitInt | X32BitInt | X16BitInt | X8BitInt | XTime | XType
  | XName bool | XText bool bool | XUnquotedText bool | XBlob | XBlobNoSpaces nat | XSizedBlob | XHexBlob bool
  | XSvcParamKeyVals | XConsumeRemaining | X8SizedBlob | X8SizedHexBlob | XBitmap

datatype val = VInt nat | VName DNSName | VBytes bytes | VParams "SvcParam list" | VUnit | VBitmap NSECBitmap
  | VPrefixes "APLRDataElement list"

fun int_of :: "val \<Rightarrow> nat" where
  "int_of (VInt n) = n"
| "int_of _ = 0"

fun name_in :: "val \<Rightarrow> DNSName" where
  "name_in (VName n) = n"
| "name_in _ = g_rootdnsname"

fun bytes_in :: "val \<Rightarrow> bytes" where
  "bytes_in (VBytes bs) = bs"
| "bytes_in _ = []"

fun params_in :: "val \<Rightarrow> SvcParam list" where
  "params_in (VParams kvs) = kvs"
| "params_in _ = []"

fun bitmap_in :: "val \<Rightarrow> NSECBitmap" where
  "bitmap_in (VBitmap m) = m"
| "bitmap_in _ = NSECBitmap_init"

fun prefixes_in :: "val \<Rightarrow> APLRDataElement list" where
  "prefixes_in (VPrefixes ards) = ards"
| "prefixes_in _ = []"

section \<open>The packet reader as a convertor\<close>

text \<open>An IPv4 address is kept in network byte order: as the list of its bytes.\<close>

definition pr_xfrIP :: "(PacketReader, bytes) call" where
  "pr_xfrIP = bindC pr_get32BitInt (\<lambda>val. returnC (to_be32 val))"

definition pr_xfrIP6 :: "(PacketReader, bytes) call" where
  "pr_xfrIP6 = pr_xfrBlob_len 16"

definition pr_xfrBlobNoSpaces :: "nat \<Rightarrow> (PacketReader, bytes) call" where
  "pr_xfrBlobNoSpaces len = pr_xfrBlob_len (int len)"

definition pr_xfrHexBlob :: "(PacketReader, bytes) call" where
  "pr_xfrHexBlob = pr_xfrBlob"

text \<open>\<open>XSizedBlob\<close>: a 16-bit size, and the blob when the size is not 0 (the object read into starts empty).\<close>

definition pr_sizedBlob :: "(PacketReader, bytes) call" where
  "pr_sizedBlob = bindC pr_get16BitInt (\<lambda>size. if size > 0 then pr_xfrBlobNoSpaces size else returnC [])"

text \<open>
  The blobs of NSEC3 have an 8-bit size; for the salt of NSEC3PARAM the reader passes that size where
  \<^verbatim>\<open>xfrHexBlob\<close> expects a flag, and reads to the end of the record.
\<close>

definition pr_8SizedBlob :: "(PacketReader, bytes) call" where
  "pr_8SizedBlob = bindC pr_get8BitInt (\<lambda>len. pr_xfrBlob_len (int (unat len)))"

definition pr_8SizedHexBlob :: "(PacketReader, bytes) call" where
  "pr_8SizedHexBlob = bindC pr_get8BitInt (\<lambda>len. pr_xfrHexBlob)"

definition xfr_read :: "xfr \<Rightarrow> (PacketReader, val) call" where
  "xfr_read x = (case x of
     XIP \<Rightarrow> bindC pr_xfrIP (\<lambda>v. returnC (VBytes v))
   | XIP6 \<Rightarrow> bindC pr_xfrIP6 (\<lambda>v. returnC (VBytes v))
   | XNodeOrLocatorID \<Rightarrow> bindC pr_xfrNodeOrLocatorID (\<lambda>v. returnC (VBytes v))
   | X48BitInt \<Rightarrow> bindC pr_xfr48BitInt (\<lambda>v. returnC (VInt v))
   | X32BitInt \<Rightarrow> bindC pr_get32BitInt (\<lambda>v. returnC (VInt v))
   | X16BitInt \<Rightarrow> bindC pr_get16BitInt (\<lambda>v. returnC (VInt v))
   | X8BitInt \<Rightarrow> bindC pr_get8BitInt (\<lambda>v. returnC (VInt (unat v)))
   | XTime \<Rightarrow> bindC pr_get32BitInt (\<lambda>v. returnC (VInt v))
   | XType \<Rightarrow> bindC pr_get16BitInt (\<lambda>v. returnC (VInt v))
   | XName compress \<Rightarrow> bindC pr_getName (\<lambda>v. returnC (VName v))
   | XText multi lenField \<Rightarrow> bindC (getText multi lenField) (\<lambda>v. returnC (VBytes v))
   | XUnquotedText lenField \<Rightarrow> bindC (getUnquotedText lenField) (\<lambda>v. returnC (VBytes v))
   | XBlob \<Rightarrow> bindC pr_xfrBlob (\<lambda>v. returnC (VBytes v))
   | XBlobNoSpaces len \<Rightarrow> bindC (pr_xfrBlobNoSpaces len) (\<lambda>v. returnC (VBytes v))
   | XSizedBlob \<Rightarrow> bindC pr_sizedBlob (\<lambda>v. returnC (VBytes v))
   | XHexBlob keepReading \<Rightarrow> bindC pr_xfrHexBlob (\<lambda>v. returnC (VBytes v))
   | XSvcParamKeyVals \<Rightarrow> bindC (pr_xfrSvcParamKeyVals []) (\<lambda>v. returnC (VParams v))
   | XConsumeRemaining \<Rightarrow> bindC consumeRemaining (\<lambda>_. returnC VUnit)
   | X8SizedBlob \<Rightarrow> bindC pr_8SizedBlob (\<lambda>v. returnC (VBytes v))
   | X8SizedHexBlob \<Rightarrow> bindC pr_8SizedHexBlob (\<lambda>v. returnC (VBytes v))
   | XBitmap \<Rightarrow> bindC (nb_fromPacket NSECBitmap_init) (\<lambda>v. returnC (VBitmap v)))"

section \<open>The packet writer as a convertor\<close>

definition pw_xfrIP :: "bytes \<Rightarrow> unit writing" where
  "pw_xfrIP val = pw_xfr32BitInt (be32 (val ! 0) (val ! 1) (val ! 2) (val ! 3))"

definition pw_sizedBlob :: "bytes \<Rightarrow> unit writing" where
  "pw_sizedBlob blob =
     (let size = length blob mod 65536 in
      bindC (pw_xfr16BitInt size) (\<lambda>_. if size > 0 then pw_xfrBlob blob else returnC ()))"

definition pw_8SizedBlob :: "bytes \<Rightarrow> unit writing" where
  "pw_8SizedBlob blob = bindC (pw_xfr8BitInt (length blob)) (\<lambda>_. pw_xfrBlob blob)"

definition xfr_write :: "xfr \<Rightarrow> val \<Rightarrow> unit writing" where
  "xfr_write x v = (case x of
     XIP \<Rightarrow> pw_xfrIP (bytes_in v)
   | XIP6 \<Rightarrow> pw_xfrBlob (bytes_in v)
   | XNodeOrLocatorID \<Rightarrow> pw_xfrNodeOrLocatorID (bytes_in v)
   | X48BitInt \<Rightarrow> pw_xfr48BitInt (int_of v)
   | X32BitInt \<Rightarrow> pw_xfr32BitInt (int_of v)
   | X16BitInt \<Rightarrow> pw_xfr16BitInt (int_of v)
   | X8BitInt \<Rightarrow> pw_xfr8BitInt (int_of v)
   | XTime \<Rightarrow> pw_xfr32BitInt (int_of v)
   | XType \<Rightarrow> pw_xfr16BitInt (int_of v)
   | XName compress \<Rightarrow> pw_xfrName (name_in v) compress
   | XText multi lenField \<Rightarrow> pw_xfrText (bytes_in v) lenField
   | XUnquotedText lenField \<Rightarrow> pw_xfrUnquotedText (bytes_in v) lenField
   | XBlob \<Rightarrow> pw_xfrBlob (bytes_in v)
   | XBlobNoSpaces len \<Rightarrow> pw_xfrBlob (bytes_in v)
   | XSizedBlob \<Rightarrow> pw_sizedBlob (bytes_in v)
   | XHexBlob keepReading \<Rightarrow> pw_xfrBlob (bytes_in v)
   | XSvcParamKeyVals \<Rightarrow> pw_xfrSvcParamKeyVals (params_in v)
   | XConsumeRemaining \<Rightarrow> returnC ()
   | X8SizedBlob \<Rightarrow> pw_8SizedBlob (bytes_in v)
   | X8SizedHexBlob \<Rightarrow> pw_8SizedBlob (bytes_in v)
   | XBitmap \<Rightarrow> nb_toPacket (bitmap_in v))"

section \<open>Descriptions of record contents\<close>

datatype conv = Done | Throw string | Xfr xfr "nat \<Rightarrow> conv"

definition conv_seq :: "xfr list \<Rightarrow> conv \<Rightarrow> conv" where
  "conv_seq xs c = foldr (\<lambda>x c. Xfr x (\<lambda>_. c)) xs c"

definition fields :: "xfr list \<Rightarrow> conv" where
  "fields xs = conv_seq xs Done"

primrec conv_read :: "conv \<Rightarrow> (PacketReader, val list) call" where
  "conv_read Done = returnC []"
| "conv_read (Throw msg) = throwC (MOADNSException msg)"
| "conv_read (Xfr x k) = bindC (xfr_read x) (\<lambda>v. bindC (conv_read (k (int_of v))) (\<lambda>vs. returnC (v # vs)))"

text \<open>The values of a record content are those of its fields, one for each call.\<close>

primrec conv_write :: "conv \<Rightarrow> val list \<Rightarrow> unit writing" where
  "conv_write Done vs = returnC ()"
| "conv_write (Throw msg) vs = throwC (MOADNSException msg)"
| "conv_write (Xfr x k) vs = bindC (xfr_write x (hd vs)) (\<lambda>_. conv_write (k (int_of (hd vs))) (tl vs))"

text \<open>\<^verbatim>\<open>xfrPacket\<close>: the description, then the test that nothing is left.\<close>

definition xfrPacket_read :: "conv \<Rightarrow> (PacketReader, val list) call" where
  "xfrPacket_read c =
     bindC (conv_read c) (\<lambda>vs. bindC pr_eof (\<lambda>eof.
       if eof = False then throwC (MOADNSException ''trailing data was not parsed'') else returnC vs))"

definition xfrPacket_write :: "conv \<Rightarrow> val list \<Rightarrow> unit writing" where
  "xfrPacket_write c vs = conv_write c vs"

end
