(* ===== verification/ConvertorLaws.thy ===== *)
theory ConvertorLaws
  imports Convertor
begin

text \<open>
  What one convertor writes the other reads: for every call of the interface, and for every
  description made of them.
\<close>

section \<open>Values that fit a call\<close>

definition val_ok :: "xfr \<Rightarrow> val \<Rightarrow> bool" where
  "val_ok x v \<longleftrightarrow> (case x of
     XIP \<Rightarrow> (\<exists>bs. v = VBytes bs \<and> length bs = 4)
   | XIP6 \<Rightarrow> (\<exists>bs. v = VBytes bs \<and> length bs = 16)
   | XNodeOrLocatorID \<Rightarrow> (\<exists>bs. v = VBytes bs \<and> length bs = 8)
   | X48BitInt \<Rightarrow> (\<exists>n < 281474976710656. v = VInt n)
   | X32BitInt \<Rightarrow> (\<exists>n < 4294967296. v = VInt n)
   | X16BitInt \<Rightarrow> (\<exists>n < 65536. v = VInt n)
   | X8BitInt \<Rightarrow> (\<exists>n < 256. v = VInt n)
   | XTime \<Rightarrow> (\<exists>n < 4294967296. v = VInt n)
   | XType \<Rightarrow> (\<exists>n < 65536. v = VInt n)
   | XName compress \<Rightarrow> (\<exists>nl. v = VName (name_of nl) \<and> valid_labels nl \<and> length nl \<le> s_maxPointersPerName)
   | XText multi lenField \<Rightarrow> (\<exists>ss. v = VBytes (txt_print ss) \<and> ss \<noteq> [] \<and> (\<forall>s \<in> set ss. length s \<le> 255) \<and>
       (multi \<and> lenField \<or> length ss = 1))
   | XUnquotedText lenField \<Rightarrow> lenField \<and> (\<exists>bs. v = VBytes bs \<and> length bs \<le> 255)
   | XBlob \<Rightarrow> (\<exists>bs. v = VBytes bs)
   | XBlobNoSpaces len \<Rightarrow> (\<exists>bs. v = VBytes bs \<and> length bs = len)
   | XSizedBlob \<Rightarrow> (\<exists>bs. v = VBytes bs \<and> length bs < 65536)
   | XHexBlob keepReading \<Rightarrow> (\<exists>bs. v = VBytes bs)
   | XSvcParamKeyVals \<Rightarrow> (\<exists>kvs. v = VParams kvs \<and> sorted_wrt SvcParam_less kvs \<and> (\<forall>p \<in> set kvs. svc_ok False p))
   | XConsumeRemaining \<Rightarrow> v = VUnit
   | X8SizedBlob \<Rightarrow> (\<exists>bs. v = VBytes bs \<and> length bs \<le> 255)
   | X8SizedHexBlob \<Rightarrow> (\<exists>bs. v = VBytes bs \<and> length bs \<le> 255)
   | XBitmap \<Rightarrow> (\<exists>m. v = VBitmap m \<and> nb_inv m))"

text \<open>The bytes of a value, for the calls other than \<open>XName\<close>.\<close>

definition text_wire :: "bool \<Rightarrow> bytes \<Rightarrow> bytes" where
  "text_wire lenField t =
     (case segmentDNSText t of Inl _ \<Rightarrow> [] | Inr ss \<Rightarrow> if lenField then txt_wire ss else concat ss)"

definition xfr_bytes :: "xfr \<Rightarrow> val \<Rightarrow> bytes" where
  "xfr_bytes x v = (case x of
     X48BitInt \<Rightarrow> to_be16 (int_of v div 4294967296) @ to_be32 (int_of v mod 4294967296)
   | X32BitInt \<Rightarrow> to_be32 (int_of v)
   | X16BitInt \<Rightarrow> to_be16 (int_of v)
   | X8BitInt \<Rightarrow> [of_nat (int_of v)]
   | XTime \<Rightarrow> to_be32 (int_of v)
   | XType \<Rightarrow> to_be16 (int_of v)
   | XText multi lenField \<Rightarrow> text_wire lenField (bytes_in v)
   | XUnquotedText lenField \<Rightarrow> of_nat (length (bytes_in v)) # bytes_in v
   | XSizedBlob \<Rightarrow> to_be16 (length (bytes_in v)) @ bytes_in v
   | XSvcParamKeyVals \<Rightarrow> svc_wire (params_in v)
   | X8SizedBlob \<Rightarrow> of_nat (length (bytes_in v)) # bytes_in v
   | X8SizedHexBlob \<Rightarrow> of_nat (length (bytes_in v)) # bytes_in v
   | XBitmap \<Rightarrow> nb_wire (bitmap_in v)
   | _ \<Rightarrow> bytes_in v)"

fun is_name :: "xfr \<Rightarrow> bool" where
  "is_name (XName c) = True"
| "is_name _ = False"

fun to_end :: "xfr \<Rightarrow> bool" where
  "to_end (XText multi lenField) = (multi \<or> \<not> lenField)"
| "to_end XBlob = True"
| "to_end (XHexBlob k) = True"
| "to_end XSvcParamKeyVals = True"
| "to_end XConsumeRemaining = True"
| "to_end X8SizedHexBlob = True"
| "to_end XBitmap = True"
| "to_end _ = False"

section \<open>Writing\<close>

lemma segments_written:
  "\<forall>s \<in> set ss. length s \<le> 255 \<Longrightarrow>
   pw_segments lenField ss w = (Inr (), w\<lparr>w_content := w_content w @ (if lenField then txt_wire ss else concat ss)\<rparr>)"
  by (induction ss arbitrary: w) (auto simp: pw_append_def txt_wire_def)

lemma four_bytes: "length bs = 4 \<Longrightarrow> bs = [bs ! 0, bs ! 1, bs ! 2, bs ! 3]"
  by (rule nth_equalityI) (auto simp: less_Suc_eq numeral_eq_Suc)

lemma txt_print_not_Nil: "ss \<noteq> [] \<Longrightarrow> txt_print ss \<noteq> []"
  by (cases ss rule: txt_print.cases) (simp_all add: txt_quote_def)

lemma xfr_write_bytes:
  assumes "val_ok x v" "\<not> is_name x"
  shows "xfr_write x v w = (Inr (), w\<lparr>w_content := w_content w @ xfr_bytes x v\<rparr>)"
proof (cases x)
  case XIP
  then obtain bs where bs: "v = VBytes bs" "length bs = 4" using assms by (auto simp: val_ok_def)
  have "to_be32 (be32 (bs ! 0) (bs ! 1) (bs ! 2) (bs ! 3)) = bs" using four_bytes [OF bs(2)] by (simp add: to_be32_be32)
  moreover have "be32 (bs ! 0) (bs ! 1) (bs ! 2) (bs ! 3) \<le> 4294967295" using be32_less [of "bs ! 0" "bs ! 1" "bs ! 2" "bs ! 3"] by linarith
  ultimately show ?thesis using XIP bs(1) by (simp add: xfr_write_def xfr_bytes_def pw_xfrIP_def pw_xfr32BitInt_def pw_append_def)
next
  case (XText multi lenField)
  then obtain ss where ss: "v = VBytes (txt_print ss)" "ss \<noteq> []" "\<forall>s \<in> set ss. length s \<le> 255" using assms by (auto simp: val_ok_def)
  then show ?thesis using XText segmentDNSText_print [OF ss(2,3)] segments_written [OF ss(3)] txt_print_not_Nil [OF ss(2)]
    by (simp add: xfr_write_def xfr_bytes_def pw_xfrText_def text_wire_def)
next
  case XBitmap
  then show ?thesis using nb_toPacket_wire [of "bitmap_in v" w] by (simp add: xfr_write_def xfr_bytes_def)
next
  case XSvcParamKeyVals
  then show ?thesis using assms pw_xfrSvcParamKeyVals_ok by (auto simp: val_ok_def xfr_write_def xfr_bytes_def)
qed (use assms in \<open>auto simp: val_ok_def xfr_write_def xfr_bytes_def pw_append_def pw_xfrBlob_def pw_xfrNodeOrLocatorID_def
    pw_xfr48BitInt_def pw_xfr32BitInt_def pw_xfr16BitInt_def pw_xfr8BitInt_def pw_xfrUnquotedText_def pw_sizedBlob_def pw_8SizedBlob_def to_be16_def Let_def\<close>)

text \<open>Writing appends to the content and to the list of name positions; nothing else changes.\<close>

definition appends :: "DNSPacketWriter \<Rightarrow> DNSPacketWriter \<Rightarrow> bool" where
  "appends w w' \<longleftrightarrow> prefix (w_content w) (w_content w') \<and>
     w' = w\<lparr>w_content := w_content w', w_namepositions := w_namepositions w'\<rparr>"

lemma appends_refl [simp]: "appends w w"
  by (simp add: appends_def)

lemma appends_simps:
  assumes "appends w w'"
  shows "w_sor w' = w_sor w" "w_recordplace w' = w_recordplace w" "w_qname w' = w_qname w"
    "length (w_content w) \<le> length (w_content w')" "prefix (w_content w) (w_content w')"
    "w_canonic w' = w_canonic w" "w_lowerCase w' = w_lowerCase w"
  using assms by (cases w; cases w'; auto simp: appends_def dest: prefix_length_le)+

lemma appends_trans: "appends w w1 \<Longrightarrow> appends w1 w2 \<Longrightarrow> appends w w2"
  by (cases w; cases w1; cases w2) (auto simp: appends_def)

lemma append_appends: "appends w (w\<lparr>w_content := w_content w @ bs\<rparr>)"
  by (simp add: appends_def)

lemma xfrName_appends: "\<exists>w'. pw_xfrName n compress w = (Inr (), w') \<and> appends w w'"
  by (cases w) (auto simp: pw_xfrName_def Let_def pw_append_def appends_def split: prod.splits)

lemma xfr_write_appends:
  assumes "val_ok x v"
  shows "\<exists>w'. xfr_write x v w = (Inr (), w') \<and> appends w w'"
proof (cases "is_name x")
  case True
  then obtain c where "x = XName c" by (cases x) auto
  then show ?thesis using xfrName_appends by (simp add: xfr_write_def)
next
  case False
  then show ?thesis using xfr_write_bytes [OF assms False] append_appends by auto
qed

primrec vals_ok :: "conv \<Rightarrow> val list \<Rightarrow> bool" where
  "vals_ok Done vs \<longleftrightarrow> vs = []"
| "vals_ok (Throw msg) vs \<longleftrightarrow> False"
| "vals_ok (Xfr x k) vs \<longleftrightarrow> vs \<noteq> [] \<and> val_ok x (hd vs) \<and> vals_ok (k (int_of (hd vs))) (tl vs)"

lemma conv_write_appends: "vals_ok c vs \<Longrightarrow> \<exists>w'. conv_write c vs w = (Inr (), w') \<and> appends w w'"
proof (induction c arbitrary: vs w)
  case (Xfr x k)
  then obtain w1 where w1: "xfr_write x (hd vs) w = (Inr (), w1)" "appends w w1" using xfr_write_appends [of x "hd vs" w] by auto
  obtain w2 where "conv_write (k (int_of (hd vs))) (tl vs) w1 = (Inr (), w2)" "appends w1 w2"
    using Xfr.IH [of "k (int_of (hd vs))" "tl vs" w1] Xfr.prems by auto
  then show ?case using w1 appends_trans by auto
qed simp_all

section \<open>Fields in the content\<close>

definition field_at :: "DNSPacketWriter \<Rightarrow> xfr \<Rightarrow> val \<Rightarrow> nat \<Rightarrow> nat \<Rightarrow> bool" where
  "field_at w x v p q \<longleftrightarrow>
     (if is_name x then \<exists>nl. v = VName (name_of nl) \<and> valid_labels nl \<and> length nl \<le> s_maxPointersPerName \<and> name_at w p q nl
      else bytes_at w p (xfr_bytes x v) \<and> q = p + length (xfr_bytes x v))"

primrec conv_at :: "conv \<Rightarrow> DNSPacketWriter \<Rightarrow> val list \<Rightarrow> nat \<Rightarrow> nat \<Rightarrow> bool" where
  "conv_at Done w vs p q \<longleftrightarrow> vs = [] \<and> p = q"
| "conv_at (Throw msg) w vs p q \<longleftrightarrow> False"
| "conv_at (Xfr x k) w vs p q \<longleftrightarrow>
     vs \<noteq> [] \<and> val_ok x (hd vs) \<and> (\<exists>m. field_at w x (hd vs) p m \<and> conv_at (k (int_of (hd vs))) w (tl vs) m q)"

lemma field_at_keeps: "field_at w x v p q \<Longrightarrow> keeps_spelling w w' \<Longrightarrow> field_at w' x v p q"
  unfolding field_at_def using name_at_keeps bytes_at_keeps by (metis (full_types))

lemma conv_at_keeps: "conv_at c w vs p q \<Longrightarrow> keeps_spelling w w' \<Longrightarrow> conv_at c w' vs p q"
proof (induction c arbitrary: vs p)
  case (Xfr x k)
  then obtain m where "field_at w x (hd vs) p m" "conv_at (k (int_of (hd vs))) w (tl vs) m q" by auto
  then have "field_at w' x (hd vs) p m" "conv_at (k (int_of (hd vs))) w' (tl vs) m q"
    using Xfr.IH [of "k (int_of (hd vs))"] Xfr.prems(2) field_at_keeps by auto
  then show ?case using Xfr.prems(1) by auto
qed simp_all

lemma xfr_write_at:
  assumes "val_ok x v" "w_inv w" "length (w_content w) \<le> maxCompressionOffset" "xfr_write x v w = (Inr u, w')"
  shows "good_step w w' \<and> field_at w' x v (length (w_content w)) (length (w_content w'))"
proof (cases "is_name x")
  case True
  then obtain c where x: "x = XName c" by (cases x) auto
  then obtain nl where nl: "v = VName (name_of nl)" "valid_labels nl" "length nl \<le> s_maxPointersPerName"
    using assms(1) by (auto simp: val_ok_def)
  obtain ls k where nw: "name_written w w' nl ls k"
    using xfrName_written [OF assms(2) nl(2) assms(3), of c] assms(4) x nl(1) by (auto simp: xfr_write_def)
  show ?thesis using name_good [OF nw assms(2)] written_name_at [OF nw assms(2)] nl x by (auto simp: field_at_def)
next
  case False
  then have w': "w' = w\<lparr>w_content := w_content w @ xfr_bytes x v\<rparr>" using xfr_write_bytes [OF assms(1) False, of w] assms(4) by simp
  show ?thesis using append_good [OF assms(2)] appended_at [OF assms(2)] False unfolding w' by (simp add: field_at_def)
qed

lemma good_step_refl: "w_inv w \<Longrightarrow> good_step w w"
  by (simp add: good_step_def keeps_spelling_def)

lemma conv_write_at:
  "vals_ok c vs \<Longrightarrow> w_inv w \<Longrightarrow> conv_write c vs w = (Inr u, w') \<Longrightarrow> length (w_content w') \<le> maxCompressionOffset \<Longrightarrow>
   good_step w w' \<and> conv_at c w' vs (length (w_content w)) (length (w_content w'))"
proof (induction c arbitrary: vs w)
  case Done
  then show ?case by (simp add: good_step_refl)
next
  case (Xfr x k)
  let ?c = "k (int_of (hd vs))"
  have ok: "vs \<noteq> []" "val_ok x (hd vs)" "vals_ok ?c (tl vs)" using Xfr.prems(1) by simp_all
  obtain w1 where w1: "xfr_write x (hd vs) w = (Inr (), w1)" "conv_write ?c (tl vs) w1 = (Inr u, w')"
    using Xfr.prems(3) by (auto simp: bindC_Inr)
  have len: "length (w_content w) \<le> length (w_content w1)" "length (w_content w1) \<le> length (w_content w')"
    using xfr_write_appends [OF ok(2), of w] conv_write_appends [OF ok(3), of w1] w1 appends_simps(4) by auto
  have step: "good_step w w1" "field_at w1 x (hd vs) (length (w_content w)) (length (w_content w1))"
    using xfr_write_at [OF ok(2) Xfr.prems(2) _ w1(1)] len Xfr.prems(4) by simp_all
  then have rest: "good_step w1 w'" "conv_at ?c w' (tl vs) (length (w_content w1)) (length (w_content w'))"
    using Xfr.IH [OF _ ok(3) _ w1(2) Xfr.prems(4)] by (auto simp: good_step_def)
  have "field_at w' x (hd vs) (length (w_content w)) (length (w_content w1))"
    using field_at_keeps [OF step(2)] rest(1) by (simp add: good_step_def)
  then show ?case using good_step_trans [OF step(1) rest(1)] rest(2) ok by auto
qed simp

section \<open>Reading\<close>

text \<open>A value read is the value written, up to the case of names and the representation of bitmaps.\<close>

fun same_val :: "val \<Rightarrow> val \<Rightarrow> bool" where
  "same_val (VName m) (VName n) = DNSName_eq m n"
| "same_val (VBitmap m) (VBitmap n) = (nb_inv m \<and> nb_abs m = nb_abs n)"
| "same_val u v = (u = v)"

lemma same_val_int_of: "same_val u v \<Longrightarrow> int_of u = int_of v"
  by (cases u; cases v) auto

text \<open>The reader stands at \<open>p\<close> in the content that the writer made.\<close>

definition reading :: "DNSPacketWriter \<Rightarrow> PacketReader \<Rightarrow> bool" where
  "reading w r \<longleftrightarrow> d_content r = w_content w \<and> \<not> d_standalone r \<and> \<not> d_internal r \<and> d_startrecordpos r \<le> d_pos r \<and>
     d_startrecordpos r + d_recordlen r \<le> length (d_content r) \<and> length (d_content r) \<le> 65535"

lemma bytes_at_ahead:
  "reading w r \<Longrightarrow> bytes_at w (d_pos r) bs \<Longrightarrow> d_pos r + length bs \<le> d_startrecordpos r + d_recordlen r \<Longrightarrow> ahead r bs"
  using bytes_at_take [of w "d_pos r" bs] by (auto simp: reading_def ahead_def)

text \<open>A name takes at most eleven pointers from the budget: each part of it at most one.\<close>

definition budget_near :: "nat option \<Rightarrow> nat option \<Rightarrow> bool" where
  "budget_near b1 bud \<longleftrightarrow> (\<forall>b. bud = Some b \<longrightarrow> (\<exists>b'. b1 = Some b' \<and> b \<le> b' + 1))"

lemma budget_near_refl: "budget_near b b"
  by (auto simp: budget_near_def)

lemma budget_near_dec: "budget_near (map_option (\<lambda>n. n - 1) b) b"
  by (auto simp: budget_near_def)

lemma packetParser_near:
  assumes "packetParser view off u d m c bud st = Inr (p, bud', st')" "parsePacketUncompressed view off u st = Inr (e, st1)"
    "e < length view"
  shows "budget_near bud' bud \<or>
    (\<exists>np c' b1 q st2. np < off \<and> d + 1 \<le> s_maxPointersPerName \<and> budget_near b1 bud \<and>
       packetParser view np True (d + 1) m c' b1 st1 = Inr (q, bud', st2))"
proof -
  obtain c' b1 where b1: "budget_near b1 bud" and tail: "bindR (Inr (view ! e)) (\<lambda>labellen.
      if labellen \<noteq> 0 \<and> e + 1 < length view then
        (if labellen < 0xc0 then Inl (range_error ''Invalid label byte during decompression'')
         else if \<not> u then Inl (range_error ''Found compressed label, instructed not to follow'')
         else bindR (at view (e + 1)) (\<lambda>low.
           let newpos = unat (labellen AND NOT 0xc0) * 256 + unat low in
           if newpos \<ge> off then Inl (range_error ''Found a forward reference during label decompression'')
           else if newpos < m then Inl (range_error ''Invalid label position during decompression'')
           else if d + 1 > s_maxPointersPerName
           then Inl (range_error ''Abort label decompression after too many redirects'')
           else bindR (packetParser view newpos True (d + 1) m c' b1 st1)
                  (\<lambda>(_, budget2, storage2). Inr (e + 2, budget2, if storage2 = [] then [0] else storage2))))
      else Inr (e + 1, b1, if st1 = [] then [0] else st1)) = Inr (p, bud', st')"
    using assms(1) that [of "map_option (\<lambda>n. n - 1) bud" "c + 1"] that [of bud 0]
    by (subst (asm) packetParser.simps) (auto simp only: assms(2) bindR_simps prod.case at_simps(1) [OF assms(3)]
        budget_near_refl budget_near_dec split: if_splits)
  show ?thesis
  proof (cases "view ! e = 0 \<or> length view \<le> e + 1")
    case True
    then show ?thesis using tail b1 by auto
  next
    case False
    let ?np = "unat (view ! e AND NOT 0xc0) * 256 + unat (view ! (e + 1))"
    have "?np < off" "d + 1 \<le> s_maxPointersPerName" "\<exists>q st2. packetParser view ?np True (d + 1) m c' b1 st1 = Inr (q, bud', st2)"
      using tail False by (auto simp: Let_def bindR_Inr_iff split: if_splits)
    then show ?thesis using b1 by blast
  qed
qed

lemma packetParser_budget:
  "packetParser view off u d m c (Some b) st = Inr (p, bud', st') \<Longrightarrow> d \<le> s_maxPointersPerName \<Longrightarrow>
   \<exists>b'. bud' = Some b' \<and> b \<le> b' + (s_maxPointersPerName + 1 - d)"
proof (induction off arbitrary: u d c b st p bud' st' rule: less_induct)
  case (less off)
  obtain e st1 where e: "parsePacketUncompressed view off u st = Inr (e, st1)"
    using less.prems by (subst (asm) packetParser.simps) (auto simp: bindR_Inr_iff split: if_splits)
  from packetParser_near [OF less.prems(1) e uncompressed_position [OF e]] show ?case
  proof (elim disjE exE conjE)
    assume "budget_near bud' (Some b)"
    then show ?thesis using less.prems(2) by (auto simp: budget_near_def)
  next
    fix np c' b1 q st2
    assume np: "np < off" "d + 1 \<le> s_maxPointersPerName" "budget_near b1 (Some b)"
      "packetParser view np True (d + 1) m c' b1 st1 = Inr (q, bud', st2)"
    then obtain b2 where b2: "b1 = Some b2" "b \<le> b2 + 1" by (auto simp: budget_near_def)
    then obtain b' where "bud' = Some b'" "b2 \<le> b' + (s_maxPointersPerName + 1 - (d + 1))" using less.IH [OF np(1)] np(2,4) by blast
    then show ?thesis using b2 np(2) by auto
  qed
qed

lemma getName_wire:
  assumes "wire (d_content r) 12 0 (d_pos r) ls k q" "valid_labels ls" "k \<le> s_maxPointersPerName" "k \<le> d_pointerBudget r"
    "\<not> d_standalone r" "isWithinRecordBoundaries r (d_pos r) q True"
  shows "\<exists>b. pr_getName r = (Inr (name_of ls), r\<lparr>d_pos := q, d_pointerBudget := b\<rparr>) \<and> d_pointerBudget r \<le> b + 11"
proof -
  have q: "d_pos r < q" using wire_bounds [OF assms(1)] by blast
  obtain bud' where bud': "DNSName_from_packet (d_content r) (d_pos r) True False False 12 (Some (d_pointerBudget r)) =
      Inr (name_of ls, q - d_pos r, bud', None, None)"
    using from_packet_complete [OF assms(1,2,3), of "Some (d_pointerBudget r)" True] assms(4) by auto
  then obtain p st where "packetParser (d_content r) (d_pos r) True 0 12 0 (Some (d_pointerBudget r)) [] = Inr (p, bud', st)"
    by (auto simp: DNSName_from_packet_def bindR_Inr_iff split: if_splits)
  then obtain b where b: "bud' = Some b" "d_pointerBudget r \<le> b + 11"
    using packetParser_budget [of "d_content r" "d_pos r" True 0 12 0 "d_pointerBudget r" "[]" p bud' st]
    by (auto simp: s_maxPointersPerName_def)
  then show ?thesis using bud' assms(5,6) q by (auto simp: pr_getName_def Let_def sizeof_dnsheader_def)
qed

section \<open>Reading text\<close>

lemma ahead_split:
  assumes "ahead r bs"
  shows "\<exists>pre post. d_content r = pre @ bs @ post \<and> length pre = d_pos r"
proof -
  have "d_content r = take (d_pos r) (d_content r) @ bs @ drop (length bs) (drop (d_pos r) (d_content r))"
    using assms unfolding ahead_def by (metis append_take_drop_id)
  moreover have "length (take (d_pos r) (d_content r)) = d_pos r" using assms by (simp add: ahead_def)
  ultimately show ?thesis by blast
qed

lemma ahead_text:
  assumes "ahead r (txt_wire ss)" "d_pos r + length (txt_wire ss) = d_startrecordpos r + d_recordlen r" "\<forall>s \<in> set ss. length s \<le> 255"
  shows "getText True True r = (Inr (txt_print ss), skip_to r (length (txt_wire ss)))"
proof -
  obtain pre post where "d_content r = pre @ txt_wire ss @ post" "length pre = d_pos r" using ahead_split [OF assms(1)] by blast
  then show ?thesis using getText_wire [of r pre ss post] assms(2,3) by (simp add: skip_to_def)
qed

lemma ahead_text_single:
  assumes "ahead r (of_nat (length s) # s)" "length s \<le> 255"
  shows "getText False True r = (Inr (txt_quote s), skip_to r (1 + length s))"
proof -
  obtain pre post where pre: "d_content r = pre @ (of_nat (length s) # s) @ post" "length pre = d_pos r"
    using ahead_split [OF assms(1)] by blast
  have fits: "length pre + 1 + length s \<le> d_startrecordpos r + d_recordlen r" using assms(1) pre(2) by (simp add: ahead_def)
  have "text_segment True r = (Inr (txt_quote s), r\<lparr>d_pos := length pre + 1 + length s\<rparr>)"
    using text_segment_wire [OF pre(1) pre(2) [symmetric] assms(2) fits] .
  then have "getText_loop False True [] r = (Inr (txt_quote s), skip_to r (1 + length s))"
    using pre(2) fits by (subst getText_loop.simps) (simp add: skip_to_def)
  then show ?thesis by (simp add: getText_def)
qed

lemma ahead_text_raw:
  assumes "ahead r s" "d_pos r + length s = d_startrecordpos r + d_recordlen r"
  shows "getText multi False r = (Inr (txt_quote s), skip_to r (length s))"
proof (cases "s = []")
  case True
  then have "getText_loop multi False [] r = (Inr [], r)" using assms(2) by (subst getText_loop.simps) simp
  then show ?thesis using True by (simp add: getText_def txt_quote_def txtEscape_def)
next
  case False
  then have lt: "d_pos r < d_startrecordpos r + d_recordlen r" using assms(2) by (cases s) auto
  have "content_range r (d_pos r) (d_pos r + length s - 1) = Inr s" using ahead_range [OF assms(1) False] .
  then have seg: "text_segment False r = (Inr (txt_quote s), skip_to r (length s))"
    using assms(2) [symmetric] False by (simp add: text_segment_def txt_quote_def skip_to_def)
  have stop: "getText_loop m False t (skip_to r (length s)) = (Inr t, skip_to r (length s))" for m t
    using assms(2) by (subst getText_loop.simps) simp
  have "getText_loop multi False [] r = (Inr (txt_quote s), skip_to r (length s))"
    using lt seg stop by (subst getText_loop.simps) simp
  then show ?thesis by (simp add: getText_def txt_quote_def)
qed

lemma ahead_unquoted:
  assumes "ahead r (of_nat (length s) # s)" "length s \<le> 255" "d_startrecordpos r + d_recordlen r \<le> 65535"
  shows "getUnquotedText True r = (Inr s, skip_to r (1 + length s))"
proof -
  have len: "unat (of_nat (length s) :: u8) = length s" using assms(2) by (intro unat_of_nat_u8) simp
  have first: "d_content r ! d_pos r = of_nat (length s)" using ahead_nth [OF assms(1), of 0] by simp
  have "take (length s) (drop (d_pos r + 1) (d_content r)) = s"
    using assms(1) ahead_append [of r "[of_nat (length s)]" s] by (simp add: ahead_def)
  then show ?thesis using assms first len
    by (auto simp: getUnquotedText_def ahead_def Let_def skip_to_def)
qed

section \<open>One call\<close>

lemma ahead_get48:
  assumes "ahead r (to_be16 (n div 4294967296) @ to_be32 (n mod 4294967296))" "n < 281474976710656"
  shows "pr_xfr48BitInt r = (Inr n, skip_to r 6)"
proof -
  let ?h = "n div 4294967296" let ?l = "n mod 4294967296"
  have six: "(be32 a b c d * 256 + unat e) * 256 + unat f = be16 a b * 4294967296 + be32 c d e f" for a b c d e f
    by (simp add: be32_def be16_def)
  have h: "?h < 65536" using assms(2) by (simp add: less_mult_imp_div_less)
  have "within 6 r" using ahead_within [OF assms(1)] by simp
  moreover have "d_content r ! (d_pos r + i) = (to_be16 ?h @ to_be32 ?l) ! i" if "i < 6" for i
    using ahead_nth [OF assms(1)] that by simp
  from this [of 0] this [of 1] this [of 2] this [of 3] this [of 4] this [of 5]
  have "d_content r ! d_pos r = of_nat (?h div 256)" "d_content r ! (d_pos r + 1) = of_nat ?h"
    "d_content r ! (d_pos r + 2) = of_nat (?l div 16777216)" "d_content r ! (d_pos r + 3) = of_nat (?l div 65536)"
    "d_content r ! (d_pos r + 4) = of_nat (?l div 256)" "d_content r ! (d_pos r + 5) = of_nat ?l"
    by (simp_all add: to_be16_def to_be32_def)
  moreover have "be16 (of_nat (?h div 256)) (of_nat ?h) * 4294967296 +
      be32 (of_nat (?l div 16777216)) (of_nat (?l div 65536)) (of_nat (?l div 256)) (of_nat ?l) = n"
    by (simp only: be16_digits [OF h] be32_digits [OF mod_less_divisor]) simp
  ultimately show ?thesis by (simp only: get48_Inr six skip_to_def)
qed

lemma xfr_read_bytes:
  assumes "reading w r" "ahead r (xfr_bytes x v)" "val_ok x v" "\<not> is_name x"
    "to_end x \<Longrightarrow> d_pos r + length (xfr_bytes x v) = d_startrecordpos r + d_recordlen r"
    "x \<noteq> XBitmap"
  shows "xfr_read x r = (Inr v, skip_to r (length (xfr_bytes x v)))"
proof (cases x)
  case XIP
  then obtain bs where bs: "v = VBytes bs" "length bs = 4" using assms by (auto simp: val_ok_def)
  let ?n = "be32 (bs ! 0) (bs ! 1) (bs ! 2) (bs ! 3)"
  have n: "to_be32 ?n = bs" using four_bytes [OF bs(2)] by (simp add: to_be32_be32)
  then have "pr_get32BitInt r = (Inr ?n, skip_to r 4)" using assms(2) XIP bs be32_less by (intro ahead_get32) (simp_all add: xfr_bytes_def)
  then show ?thesis using XIP bs n by (simp add: xfr_read_def xfr_bytes_def pr_xfrIP_def)
next
  case (XText multi lenField)
  then obtain ss where ss: "v = VBytes (txt_print ss)" "ss \<noteq> []" "\<forall>s \<in> set ss. length s \<le> 255" "multi \<and> lenField \<or> length ss = 1"
    using assms by (auto simp: val_ok_def)
  have wire: "xfr_bytes x v = (if lenField then txt_wire ss else concat ss)"
    using XText ss segmentDNSText_print [OF ss(2,3)] by (simp add: xfr_bytes_def text_wire_def)
  consider "multi" "lenField" | s where "\<not> multi" "lenField" "ss = [s]" | s where "\<not> lenField" "ss = [s]"
    using ss(4) by (cases ss) auto
  then show ?thesis
  proof cases
    case 1
    then show ?thesis using assms(2,5) XText ss wire ahead_text [of r ss] by (simp add: xfr_read_def)
  next
    case 2
    then have "getText False True r = (Inr (txt_quote s), skip_to r (1 + length s))"
      using assms(2) ss(3) wire by (intro ahead_text_single) (simp_all add: txt_wire_def)
    then show ?thesis using 2 XText ss(1) wire by (simp add: xfr_read_def txt_wire_def)
  next
    case 3
    then have "getText multi False r = (Inr (txt_quote s), skip_to r (length s))"
      using assms(2,5) wire XText by (intro ahead_text_raw) simp_all
    then show ?thesis using 3 XText ss(1) wire by (simp add: xfr_read_def)
  qed
next
  case XSvcParamKeyVals
  then obtain kvs where kvs: "v = VParams kvs" "sorted_wrt SvcParam_less kvs" "\<forall>p \<in> set kvs. svc_ok False p"
    using assms by (auto simp: val_ok_def)
  have "svcParams_loop (-1) [] r = (Inr ([] @ kvs), skip_to r (length (svc_wire kvs)))"
    using assms XSvcParamKeyVals kvs by (intro svcParams_loop_ok) (simp_all add: xfr_bytes_def reading_def)
  then show ?thesis using XSvcParamKeyVals kvs(1) by (simp add: xfr_read_def xfr_bytes_def pr_xfrSvcParamKeyVals_def)
next
  case (XUnquotedText lenField)
  then obtain bs where bs: "v = VBytes bs" "length bs \<le> 255" lenField using assms by (auto simp: val_ok_def)
  then have "getUnquotedText True r = (Inr bs, skip_to r (1 + length bs))"
    using assms(1,2) XUnquotedText by (intro ahead_unquoted) (auto simp: xfr_bytes_def reading_def)
  then show ?thesis using XUnquotedText bs by (simp add: xfr_read_def xfr_bytes_def)
next
  case XSizedBlob
  then obtain bs where bs: "v = VBytes bs" "length bs < 65536" using assms by (auto simp: val_ok_def)
  have a: "ahead r (to_be16 (length bs))" "ahead (skip_to r 2) bs"
    using assms(2) XSizedBlob bs(1) by (simp_all add: xfr_bytes_def ahead_append)
  then have "pr_sizedBlob r = (Inr bs, skip_to r (2 + length bs))" using ahead_get16 [OF a(1)] bs(2) ahead_blob_len [OF a(2)]
    by (simp add: pr_sizedBlob_def pr_xfrBlobNoSpaces_def)
  then show ?thesis using XSizedBlob bs by (simp add: xfr_read_def xfr_bytes_def)
next
  case X8SizedBlob
  then obtain bs where bs: "v = VBytes bs" "length bs \<le> 255" using assms by (auto simp: val_ok_def)
  have len: "unat (of_nat (length bs) :: u8) = length bs" using bs(2) by (intro unat_of_nat_u8) simp
  have a: "ahead r [of_nat (length bs)]" "ahead (skip_to r 1) bs"
    using assms(2) X8SizedBlob bs(1) ahead_append [of r "[of_nat (length bs)]" bs] by (simp_all add: xfr_bytes_def)
  have "uint (of_nat (length bs) :: u8) = int (length bs)" using len by (metis of_nat_unat)
  then show ?thesis using X8SizedBlob bs ahead_get8 [OF a(1)] ahead_blob_len [OF a(2)]
    by (simp add: xfr_read_def xfr_bytes_def pr_8SizedBlob_def)
next
  case X8SizedHexBlob
  then obtain bs where bs: "v = VBytes bs" using assms by (auto simp: val_ok_def)
  have a: "ahead r [of_nat (length bs)]" "ahead (skip_to r 1) bs"
    using assms(2) X8SizedHexBlob bs(1) ahead_append [of r "[of_nat (length bs)]" bs] by (simp_all add: xfr_bytes_def)
  then show ?thesis using X8SizedHexBlob bs assms(5) ahead_get8 [OF a(1)] ahead_blob [OF a(2)]
    by (simp add: xfr_read_def xfr_bytes_def pr_8SizedHexBlob_def pr_xfrHexBlob_def)
next
  case X8BitInt
  then show ?thesis using assms ahead_get8 [of r "of_nat (int_of v)"] by (auto simp: val_ok_def xfr_read_def xfr_bytes_def unat_of_nat_u8)
next
  case XNodeOrLocatorID
  then show ?thesis using assms
    by (auto simp: val_ok_def xfr_read_def xfr_bytes_def pr_xfrNodeOrLocatorID_def ahead_def boundary_def isWithinRecordBoundaries_def Let_def skip_to_def)
next
  case XIP6
  then show ?thesis using assms ahead_blob_len [of r "bytes_in v"] by (auto simp: val_ok_def xfr_read_def xfr_bytes_def pr_xfrIP6_def)
next
  case XConsumeRemaining
  then show ?thesis using assms by (auto simp: val_ok_def xfr_read_def xfr_bytes_def consumeRemaining_def skip_to_def)
qed (use assms in \<open>auto simp: val_ok_def xfr_read_def xfr_bytes_def pr_xfrBlobNoSpaces_def pr_xfrHexBlob_def
    ahead_get16 ahead_get32 ahead_get48 ahead_blob_len ahead_blob\<close>)

lemma xfr_read_same:
  assumes "reading w r" "ahead r (xfr_bytes x v)" "val_ok x v" "\<not> is_name x"
    "to_end x \<Longrightarrow> d_pos r + length (xfr_bytes x v) = d_startrecordpos r + d_recordlen r"
  shows "\<exists>v'. xfr_read x r = (Inr v', skip_to r (length (xfr_bytes x v))) \<and> same_val v' v"
proof (cases "x = XBitmap")
  case True
  then obtain m where m: "v = VBitmap m" "nb_inv m" using assms(3) by (auto simp: val_ok_def)
  then show ?thesis using ahead_bitmap [OF m(2), of r] assms(2,5) True by (auto simp: xfr_bytes_def xfr_read_def)
next
  case False
  then have "xfr_read x r = (Inr v, skip_to r (length (xfr_bytes x v)))" using assms by (intro xfr_read_bytes) auto
  moreover have "same_val v v" using assms(3,4) False by (cases v) (auto simp: val_ok_def split: xfr.splits)
  ultimately show ?thesis by blast
qed

section \<open>Whole descriptions\<close>

fun name_cost :: "val \<Rightarrow> nat" where
  "name_cost (VName n) = 11"
| "name_cost _ = 0"

definition names_cost :: "val list \<Rightarrow> nat" where
  "names_cost vs = sum_list (map name_cost vs)"

text \<open>A call that reads to the end of the record comes last.\<close>

primrec conv_wf :: "conv \<Rightarrow> bool" where
  "conv_wf Done \<longleftrightarrow> True"
| "conv_wf (Throw msg) \<longleftrightarrow> True"
| "conv_wf (Xfr x k) \<longleftrightarrow> (\<forall>n. conv_wf (k n)) \<and> (to_end x \<longrightarrow> (\<forall>n. k n = Done))"

lemma span_le: "span c p q \<Longrightarrow> p < q"
  by (induction rule: span.induct) auto

lemma field_at_le: "field_at w x v p q \<Longrightarrow> p \<le> q"
  by (auto simp: field_at_def name_at_def dest: span_le split: if_splits)

lemma conv_at_le: "conv_at c w vs p q \<Longrightarrow> p \<le> q"
proof (induction c arbitrary: vs p)
  case (Xfr x k)
  then obtain m where "field_at w x (hd vs) p m" "conv_at (k (int_of (hd vs))) w (tl vs) m q" by auto
  then show ?case using Xfr.IH [of "k (int_of (hd vs))"] field_at_le order_trans by blast
qed auto

lemma xfr_read_at:
  assumes "reading w r" "field_at w x v (d_pos r) q" "val_ok x v" "q \<le> d_startrecordpos r + d_recordlen r"
    "to_end x \<Longrightarrow> q = d_startrecordpos r + d_recordlen r" "name_cost v \<le> d_pointerBudget r"
  shows "\<exists>v' b. xfr_read x r = (Inr v', r\<lparr>d_pos := q, d_pointerBudget := b\<rparr>) \<and> same_val v' v \<and> d_pointerBudget r \<le> b + name_cost v"
proof (cases "is_name x")
  case True
  then obtain c where x: "x = XName c" by (cases x) auto
  obtain nl where nl: "v = VName (name_of nl)" "valid_labels nl" "length nl \<le> s_maxPointersPerName" "name_at w (d_pos r) q nl"
    using assms(2) True by (auto simp: field_at_def)
  obtain ls k where w: "wire (d_content r) 12 0 (d_pos r) ls k q" "k \<le> s_maxPointersPerName" "map foldc ls = map foldc nl"
    using name_at_wire [OF nl(4,3)] assms(1) by (auto simp: reading_def)
  have v: "valid_labels ls" using valid_labels_fold_eq [OF w(3) nl(2)] .
  have p: "d_pos r < q" using wire_bounds [OF w(1)] by simp
  have within: "isWithinRecordBoundaries r (d_pos r) q True" "\<not> d_standalone r" "k \<le> d_pointerBudget r"
    using assms(1,4,6) p nl(1) w(2) by (simp_all add: isWithinRecordBoundaries_def Let_def reading_def s_maxPointersPerName_def)
  from getName_wire [OF w(1) v w(2) within(3,2,1)]
  obtain b where "pr_getName r = (Inr (name_of ls), r\<lparr>d_pos := q, d_pointerBudget := b\<rparr>)" "d_pointerBudget r \<le> b + 11" by blast
  moreover have "DNSName_eq (name_of ls) (name_of nl)" using name_eq_fold [OF v nl(2) w(3)] .
  ultimately have "xfr_read x r = (Inr (VName (name_of ls)), r\<lparr>d_pos := q, d_pointerBudget := b\<rparr>) \<and>
      same_val (VName (name_of ls)) v \<and> d_pointerBudget r \<le> b + name_cost v" using x nl(1) by (simp add: xfr_read_def)
  then show ?thesis by blast
next
  case False
  then have at: "bytes_at w (d_pos r) (xfr_bytes x v)" "q = d_pos r + length (xfr_bytes x v)" using assms(2) by (simp_all add: field_at_def)
  have "ahead r (xfr_bytes x v)" using bytes_at_ahead [OF assms(1) at(1)] assms(4) at(2) by simp
  then obtain v' where v': "xfr_read x r = (Inr v', skip_to r (length (xfr_bytes x v)))" "same_val v' v"
    using xfr_read_same [OF assms(1) _ assms(3) False] assms(5) at(2) by auto
  have "skip_to r (length (xfr_bytes x v)) = r\<lparr>d_pos := q, d_pointerBudget := d_pointerBudget r\<rparr>" using at(2) by (simp add: skip_to_def)
  then have "xfr_read x r = (Inr v', r\<lparr>d_pos := q, d_pointerBudget := d_pointerBudget r\<rparr>) \<and> same_val v' v \<and>
      d_pointerBudget r \<le> d_pointerBudget r + name_cost v" using v' by simp
  then show ?thesis by blast
qed

lemma conv_read_at:
  "conv_at c w vs (d_pos r) q \<Longrightarrow> q = d_startrecordpos r + d_recordlen r \<Longrightarrow> reading w r \<Longrightarrow> conv_wf c \<Longrightarrow> names_cost vs \<le> d_pointerBudget r \<Longrightarrow>
   \<exists>vs' b. conv_read c r = (Inr vs', r\<lparr>d_pos := q, d_pointerBudget := b\<rparr>) \<and> list_all2 same_val vs' vs \<and>
     d_pointerBudget r \<le> b + names_cost vs"
proof (induction c arbitrary: vs r)
  case Done
  then have "conv_read Done r = (Inr [], r\<lparr>d_pos := q, d_pointerBudget := d_pointerBudget r\<rparr>)" by simp
  then show ?case using Done by (metis conv_at.simps(1) le_add1 list_all2_Nil)
next
  case (Xfr x k)
  obtain v vs1 where vs: "vs = v # vs1" using Xfr.prems(1) by (cases vs) auto
  let ?c = "k (int_of v)"
  obtain m where m: "val_ok x v" "field_at w x v (d_pos r) m" "conv_at ?c w vs1 m q" using Xfr.prems(1) vs by auto
  have le: "m \<le> q" using conv_at_le [OF m(3)] .
  have "to_end x \<Longrightarrow> m = q" using Xfr.prems(4) m(3) by auto
  then obtain v' b where v': "xfr_read x r = (Inr v', r\<lparr>d_pos := m, d_pointerBudget := b\<rparr>)" "same_val v' v" "d_pointerBudget r \<le> b + name_cost v"
    using xfr_read_at [OF Xfr.prems(3) m(2,1)] le Xfr.prems(2,5) vs by (auto simp: names_cost_def)
  let ?r = "r\<lparr>d_pos := m, d_pointerBudget := b\<rparr>"
  have pm: "d_pos r \<le> m" using field_at_le [OF m(2)] .
  have "\<exists>vs' b'. conv_read ?c ?r = (Inr vs', ?r\<lparr>d_pos := q, d_pointerBudget := b'\<rparr>) \<and> list_all2 same_val vs' vs1 \<and>
      d_pointerBudget ?r \<le> b' + names_cost vs1"
    using Xfr.prems v'(3) m(3) pm vs by (intro Xfr.IH) (auto simp: reading_def names_cost_def)
  then obtain vs' b' where rest: "conv_read ?c ?r = (Inr vs', r\<lparr>d_pos := q, d_pointerBudget := b'\<rparr>)" "list_all2 same_val vs' vs1"
    "b \<le> b' + names_cost vs1" by auto
  have "conv_read (Xfr x k) r = (Inr (v' # vs'), r\<lparr>d_pos := q, d_pointerBudget := b'\<rparr>)"
    using v'(1) rest(1) same_val_int_of [OF v'(2)] by simp
  then show ?case using v' rest vs by (auto simp: names_cost_def)
qed auto

end
