(* ===== verification/RecordTypes.thy ===== *)
theory RecordTypes
  imports ConvertorLaws
begin

text \<open>
  The contents of the record types of \<^verbatim>\<open>pdns/dnsrecords.cc\<close> that are declared with \<^verbatim>\<open>boilerplate_conv\<close>, and of
  the denial-of-existence and location types, as descriptions for the convertors, in the order of the file and for the build of the
  authoritative server (\<^verbatim>\<open>PDNS_AUTH\<close>, with Lua records). A record content is the list of the values of
  its fields.
\<close>

section \<open>Descriptions\<close>

definition A_conv :: conv where
  "A_conv = fields [XIP]"

definition AAAA_conv :: conv where
  "AAAA_conv = fields [XIP6]"

definition NS_conv :: conv where
  "NS_conv = fields [XName True]"

definition PTR_conv :: conv where
  "PTR_conv = fields [XName True]"

definition CNAME_conv :: conv where
  "CNAME_conv = fields [XName True]"

definition ALIAS_conv :: conv where
  "ALIAS_conv = fields [XName False]"

definition DNAME_conv :: conv where
  "DNAME_conv = fields [XName False]"

definition MB_conv :: conv where
  "MB_conv = fields [XName True]"

definition MG_conv :: conv where
  "MG_conv = fields [XName True]"

definition MR_conv :: conv where
  "MR_conv = fields [XName True]"

definition MINFO_conv :: conv where
  "MINFO_conv = fields [XName True, XName True]"

definition TXT_conv :: conv where
  "TXT_conv = fields [XText True True]"

definition LUA_conv :: conv where
  "LUA_conv = fields [XType, XText True True]"

definition ENT_conv :: conv where
  "ENT_conv = fields [XConsumeRemaining]"

definition SPF_conv :: conv where
  "SPF_conv = fields [XText True True]"

definition HINFO_conv :: conv where
  "HINFO_conv = fields [XText False True, XText False True]"

definition RP_conv :: conv where
  "RP_conv = fields [XName False, XName False]"

definition OPT_conv :: conv where
  "OPT_conv = fields [XBlob]"

definition WALLET_conv :: conv where
  "WALLET_conv = fields [XText True True]"

definition TSIG_conv :: conv where
  "TSIG_conv = fields [XName False, X48BitInt, X16BitInt, XSizedBlob, X16BitInt, X16BitInt, XSizedBlob]"

definition MX_conv :: conv where
  "MX_conv = fields [X16BitInt, XName True]"

definition KX_conv :: conv where
  "KX_conv = fields [X16BitInt, XName False]"

definition IPSECKEY_conv :: conv where
  "IPSECKEY_conv =
     Xfr X8BitInt (\<lambda>preference. Xfr X8BitInt (\<lambda>gatewaytype. Xfr X8BitInt (\<lambda>algorithm.
       let key = (if algorithm = 0 then Done
                  else if algorithm = 1 \<or> algorithm = 2 then fields [XBlob]
                  else Throw ''Parsing record content: invalid algorithm type'') in
       if gatewaytype = 0 then key
       else if gatewaytype = 1 then conv_seq [XIP] key
       else if gatewaytype = 2 then conv_seq [XIP6] key
       else if gatewaytype = 3 then conv_seq [XName False] key
       else Throw ''Parsing record content: invalid gateway type'')))"

definition DHCID_conv :: conv where
  "DHCID_conv = fields [XBlob]"

definition AFSDB_conv :: conv where
  "AFSDB_conv = fields [X16BitInt, XName False]"

definition NAPTR_conv :: conv where
  "NAPTR_conv = fields [X16BitInt, X16BitInt, XText False True, XText False True, XText False True, XName False]"

definition SRV_conv :: conv where
  "SRV_conv = fields [X16BitInt, X16BitInt, X16BitInt, XName False]"

definition SOA_conv :: conv where
  "SOA_conv = fields [XName True, XName True, X32BitInt, X32BitInt, X32BitInt, X32BitInt, X32BitInt]"

definition KEY_conv :: conv where
  "KEY_conv = fields [X16BitInt, X8BitInt, X8BitInt, XBlob]"

definition ZONEMD_conv :: conv where
  "ZONEMD_conv = fields [X32BitInt, X8BitInt, X8BitInt, XHexBlob True]"

definition CERT_conv :: conv where
  "CERT_conv =
     Xfr X16BitInt (\<lambda>type. if type = 0 then Throw ''CERT type 0 is reserved'' else fields [X16BitInt, X8BitInt, XBlob])"

definition TLSA_conv :: conv where
  "TLSA_conv = fields [X8BitInt, X8BitInt, X8BitInt, XHexBlob True]"

definition OPENPGPKEY_conv :: conv where
  "OPENPGPKEY_conv = fields [XBlob]"

definition SVCB_conv :: conv where
  "SVCB_conv =
     Xfr X16BitInt (\<lambda>priority. conv_seq [XName False] (if priority \<noteq> 0 then fields [XSvcParamKeyVals] else Done))"

definition HTTPS_conv :: conv where
  "HTTPS_conv =
     Xfr X16BitInt (\<lambda>priority. conv_seq [XName False] (if priority \<noteq> 0 then fields [XSvcParamKeyVals] else Done))"

definition HHIT_conv :: conv where
  "HHIT_conv = fields [XBlob]"

definition BRID_conv :: conv where
  "BRID_conv = fields [XBlob]"

definition SMIMEA_conv :: conv where
  "SMIMEA_conv = fields [X8BitInt, X8BitInt, X8BitInt, XHexBlob True]"

definition DS_conv :: conv where
  "DS_conv = fields [X16BitInt, X8BitInt, X8BitInt, XHexBlob True]"

definition CDS_conv :: conv where
  "CDS_conv = fields [X16BitInt, X8BitInt, X8BitInt, XHexBlob True]"

definition DLV_conv :: conv where
  "DLV_conv = fields [X16BitInt, X8BitInt, X8BitInt, XHexBlob True]"

definition SSHFP_conv :: conv where
  "SSHFP_conv = fields [X8BitInt, X8BitInt, XHexBlob True]"

definition RRSIG_conv :: conv where
  "RRSIG_conv = fields [XType, X8BitInt, X8BitInt, X32BitInt, XTime, XTime, X16BitInt, XName False, XBlob]"

definition DNSKEY_conv :: conv where
  "DNSKEY_conv = fields [X16BitInt, X8BitInt, X8BitInt, XBlob]"

definition CDNSKEY_conv :: conv where
  "CDNSKEY_conv = fields [X16BitInt, X8BitInt, X8BitInt, XBlob]"

definition RKEY_conv :: conv where
  "RKEY_conv = fields [X16BitInt, X8BitInt, X8BitInt, XBlob]"

definition NID_conv :: conv where
  "NID_conv = fields [X16BitInt, XNodeOrLocatorID]"

definition L32_conv :: conv where
  "L32_conv = fields [X16BitInt, XIP]"

definition L64_conv :: conv where
  "L64_conv = fields [X16BitInt, XNodeOrLocatorID]"

definition LP_conv :: conv where
  "LP_conv = fields [X16BitInt, XName False]"

definition TKEY_conv :: conv where
  "TKEY_conv =
     conv_seq [XName False, X32BitInt, X32BitInt, X16BitInt, X16BitInt] (Xfr X16BitInt (\<lambda>keysize.
       let other = Xfr X16BitInt (\<lambda>othersize. if othersize > 0 then fields [XBlobNoSpaces othersize] else Done) in
       if keysize > 0 then conv_seq [XBlobNoSpaces keysize] other else other))"

definition URI_conv :: conv where
  "URI_conv = fields [X16BitInt, X16BitInt, XText True False]"

definition CAA_conv :: conv where
  "CAA_conv = fields [X8BitInt, XUnquotedText True, XText True False]"

definition RESINFO_conv :: conv where
  "RESINFO_conv = fields [XText True True]"

text \<open>
  The types of \<^verbatim>\<open>pdns/nsecrecords.cc\<close> and \<^verbatim>\<open>pdns/sillyrecords.cc\<close> have a \<^verbatim>\<open>toPacket\<close> and a \<^verbatim>\<open>make\<close> of their own, which make
  the same calls in the same order and end with the same test, but for NSEC3PARAM, whose \<^verbatim>\<open>make\<close> has no test (see \<open>Content\<close>).
\<close>

definition NSEC_conv :: conv where
  "NSEC_conv = fields [XName False, XBitmap]"

definition NSEC3_conv :: conv where
  "NSEC3_conv = fields [X8BitInt, X8BitInt, X16BitInt, X8SizedBlob, X8SizedBlob, XBitmap]"

definition NSEC3PARAM_conv :: conv where
  "NSEC3PARAM_conv = fields [X8BitInt, X8BitInt, X16BitInt, X8SizedHexBlob]"

definition CSYNC_conv :: conv where
  "CSYNC_conv = fields [X32BitInt, X16BitInt, XBitmap]"

definition LOC_conv :: conv where
  "LOC_conv = fields [X8BitInt, X8BitInt, X8BitInt, X8BitInt, X32BitInt, X32BitInt, X32BitInt]"

named_theorems conv_defs \<open>the descriptions of the record contents\<close>

lemmas [conv_defs] = A_conv_def AAAA_conv_def NS_conv_def PTR_conv_def CNAME_conv_def ALIAS_conv_def DNAME_conv_def MB_conv_def MG_conv_def MR_conv_def MINFO_conv_def TXT_conv_def LUA_conv_def ENT_conv_def SPF_conv_def HINFO_conv_def RP_conv_def OPT_conv_def WALLET_conv_def TSIG_conv_def MX_conv_def KX_conv_def IPSECKEY_conv_def DHCID_conv_def AFSDB_conv_def NAPTR_conv_def SRV_conv_def SOA_conv_def KEY_conv_def ZONEMD_conv_def CERT_conv_def TLSA_conv_def OPENPGPKEY_conv_def SVCB_conv_def HTTPS_conv_def HHIT_conv_def BRID_conv_def SMIMEA_conv_def DS_conv_def CDS_conv_def DLV_conv_def SSHFP_conv_def RRSIG_conv_def DNSKEY_conv_def CDNSKEY_conv_def RKEY_conv_def NID_conv_def L32_conv_def L64_conv_def LP_conv_def TKEY_conv_def URI_conv_def CAA_conv_def RESINFO_conv_def
  NSEC_conv_def NSEC3_conv_def NSEC3PARAM_conv_def CSYNC_conv_def LOC_conv_def

lemmas conv_build = fields_def conv_seq_def

lemma descriptions_wf:
  "conv_wf A_conv"
  "conv_wf AAAA_conv"
  "conv_wf NS_conv"
  "conv_wf PTR_conv"
  "conv_wf CNAME_conv"
  "conv_wf ALIAS_conv"
  "conv_wf DNAME_conv"
  "conv_wf MB_conv"
  "conv_wf MG_conv"
  "conv_wf MR_conv"
  "conv_wf MINFO_conv"
  "conv_wf TXT_conv"
  "conv_wf LUA_conv"
  "conv_wf ENT_conv"
  "conv_wf SPF_conv"
  "conv_wf HINFO_conv"
  "conv_wf RP_conv"
  "conv_wf OPT_conv"
  "conv_wf WALLET_conv"
  "conv_wf TSIG_conv"
  "conv_wf MX_conv"
  "conv_wf KX_conv"
  "conv_wf IPSECKEY_conv"
  "conv_wf DHCID_conv"
  "conv_wf AFSDB_conv"
  "conv_wf NAPTR_conv"
  "conv_wf SRV_conv"
  "conv_wf SOA_conv"
  "conv_wf KEY_conv"
  "conv_wf ZONEMD_conv"
  "conv_wf CERT_conv"
  "conv_wf TLSA_conv"
  "conv_wf OPENPGPKEY_conv"
  "conv_wf SVCB_conv"
  "conv_wf HTTPS_conv"
  "conv_wf HHIT_conv"
  "conv_wf BRID_conv"
  "conv_wf SMIMEA_conv"
  "conv_wf DS_conv"
  "conv_wf CDS_conv"
  "conv_wf DLV_conv"
  "conv_wf SSHFP_conv"
  "conv_wf RRSIG_conv"
  "conv_wf DNSKEY_conv"
  "conv_wf CDNSKEY_conv"
  "conv_wf RKEY_conv"
  "conv_wf NID_conv"
  "conv_wf L32_conv"
  "conv_wf L64_conv"
  "conv_wf LP_conv"
  "conv_wf TKEY_conv"
  "conv_wf URI_conv"
  "conv_wf CAA_conv"
  "conv_wf RESINFO_conv"
  "conv_wf NSEC_conv"
  "conv_wf NSEC3_conv"
  "conv_wf NSEC3PARAM_conv"
  "conv_wf CSYNC_conv"
  "conv_wf LOC_conv"
  by (simp_all add: conv_defs conv_build Let_def)

end
