(* ===== verification/Content.thy ===== *)
theory Content
  imports RecordTypes
begin

text \<open>
  Record contents: the maker functions that \<^verbatim>\<open>pdns/dnsrecords.cc\<close> registers for classes and types, the choice
  of a maker in \<^verbatim>\<open>pdns/dnsparser.cc\<close>, and \<^verbatim>\<open>toPacket\<close>. A content knows the maker of its class and the values of its
  fields; a content of a type without maker is the list of its bytes.
\<close>

section \<open>Makers\<close>

text \<open>
  \<^verbatim>\<open>boilerplate\<close> makes a maker from a description (\<open>MConv\<close>): it calls \<^verbatim>\<open>doRecordCheck\<close>, which does nothing unless the class
  redefines it, and then \<^verbatim>\<open>xfrPacket\<close>. The class for A does redefine it. The maker for NSEC3PARAM is written out, without the
  test that nothing is left.
\<close>

datatype maker = MConv conv | MA | MNSEC3PARAM | MEUI48 | MEUI64 | MAPL

datatype content = Content maker "val list" | UnknownRecordContent bytes

definition A_doRecordCheck :: "nat \<Rightarrow> (PacketReader, unit) call" where
  "A_doRecordCheck clen =
     (if clen \<noteq> 4 then throwC (MOADNSException ''Wrong size for A record'') else returnC ())"

definition EUI48_make :: "nat \<Rightarrow> (PacketReader, bytes) call" where
  "EUI48_make clen =
     (if clen \<noteq> 6 then throwC (MOADNSException ''Wrong size for EUI48 record'')
      else bindC (copyRecord_raw 6) (\<lambda>d_eui48. bindC pr_eof (\<lambda>eof.
        if \<not> eof then throwC (MOADNSException ''When parsing EUI48 trailing data was not parsed'') else returnC d_eui48)))"

definition EUI48_toPacket :: "bytes \<Rightarrow> unit writing" where
  "EUI48_toPacket d_eui48 = pw_xfrBlob (take 6 d_eui48)"

definition EUI64_make :: "nat \<Rightarrow> (PacketReader, bytes) call" where
  "EUI64_make clen =
     (if clen \<noteq> 8 then throwC (MOADNSException ''Wrong size for EUI64 record'')
      else bindC (copyRecord_raw 8) (\<lambda>d_eui64. bindC pr_eof (\<lambda>eof.
        if \<not> eof then throwC (MOADNSException ''When parsing EUI64 trailing data was not parsed'') else returnC d_eui64)))"

definition EUI64_toPacket :: "bytes \<Rightarrow> unit writing" where
  "EUI64_toPacket d_eui64 = pw_xfrBlob (take 8 d_eui64)"

definition maker_make :: "maker \<Rightarrow> nat \<Rightarrow> (PacketReader, content) call" where
  "maker_make m clen =
     bindC (case m of
              MConv c \<Rightarrow> xfrPacket_read c
            | MA \<Rightarrow> bindC (A_doRecordCheck clen) (\<lambda>_. xfrPacket_read A_conv)
            | MNSEC3PARAM \<Rightarrow> conv_read NSEC3PARAM_conv
            | MEUI48 \<Rightarrow> bindC (EUI48_make clen) (\<lambda>bs. returnC [VBytes bs])
            | MEUI64 \<Rightarrow> bindC (EUI64_make clen) (\<lambda>bs. returnC [VBytes bs])
            | MAPL \<Rightarrow> bindC (APL_make clen) (\<lambda>ards. returnC [VPrefixes ards])) (\<lambda>vs. returnC (Content m vs))"

definition UnknownRecordContent_make :: "nat \<Rightarrow> (PacketReader, content) call" where
  "UnknownRecordContent_make clen = bindC (copyRecord [] clen) (\<lambda>d_record. returnC (UnknownRecordContent d_record))"

fun content_toPacket :: "content \<Rightarrow> unit writing" where
  "content_toPacket (Content (MConv c) vs) = xfrPacket_write c vs"
| "content_toPacket (Content MA vs) = xfrPacket_write A_conv vs"
| "content_toPacket (Content MNSEC3PARAM vs) = conv_write NSEC3PARAM_conv vs"
| "content_toPacket (Content MEUI48 vs) = EUI48_toPacket (bytes_in (hd vs))"
| "content_toPacket (Content MEUI64 vs) = EUI64_toPacket (bytes_in (hd vs))"
| "content_toPacket (Content MAPL vs) = APL_toPacket (prefixes_in (hd vs))"
| "content_toPacket (UnknownRecordContent d_record) = pw_xfrBlob d_record"

section \<open>Registration\<close>

definition QClass_IN :: nat where "QClass_IN = 1"
definition QClass_CHAOS :: nat where "QClass_CHAOS = 3"
definition QClass_NONE :: nat where "QClass_NONE = 254"
definition QClass_ANY :: nat where "QClass_ANY = 255"

text \<open>\<^verbatim>\<open>report\<close> of a type declared with \<^verbatim>\<open>boilerplate\<close>, and of NSEC3PARAM: it registers for the classes 1 and 254.\<close>

definition report :: "nat \<Rightarrow> maker \<Rightarrow> ((nat \<times> nat) \<times> maker) list" where
  "report qtype m = [((1, qtype), m), ((254, qtype), m)]"

definition reportBasicTypes :: "((nat \<times> nat) \<times> maker) list" where
  "reportBasicTypes =
     report 1 MA @ report 28 (MConv AAAA_conv) @ report 2 (MConv NS_conv) @ report 5 (MConv CNAME_conv) @ report 15 (MConv MX_conv) @ report 6 (MConv SOA_conv) @
     report 33 (MConv SRV_conv) @ report 12 (MConv PTR_conv) @ [((QClass_CHAOS, 16), MConv TXT_conv)] @ report 16 (MConv TXT_conv) @ report 65402 (MConv LUA_conv)"

definition reportOtherTypes :: "((nat \<times> nat) \<times> maker) list" where
  "reportOtherTypes =
     report 7 (MConv MB_conv) @ report 8 (MConv MG_conv) @ report 9 (MConv MR_conv) @ report 18 (MConv AFSDB_conv) @ report 39 (MConv DNAME_conv) @ report 65401 (MConv ALIAS_conv) @
     report 99 (MConv SPF_conv) @ report 35 (MConv NAPTR_conv) @ report 36 (MConv KX_conv) @ report 29 (MConv LOC_conv) @ report 0 (MConv ENT_conv) @ report 13 (MConv HINFO_conv) @
     report 17 (MConv RP_conv) @ report 25 (MConv KEY_conv) @ report 48 (MConv DNSKEY_conv) @ report 49 (MConv DHCID_conv) @ report 60 (MConv CDNSKEY_conv) @
     report 57 (MConv RKEY_conv) @ report 46 (MConv RRSIG_conv) @ report 43 (MConv DS_conv) @ report 59 (MConv CDS_conv) @ report 44 (MConv SSHFP_conv) @ report 37 (MConv CERT_conv) @
     [((1, 47), MConv NSEC_conv)] @ [((1, 50), MConv NSEC3_conv)] @ report 51 MNSEC3PARAM @ report 52 (MConv TLSA_conv) @
     report 53 (MConv SMIMEA_conv) @ report 61 (MConv OPENPGPKEY_conv) @ report 64 (MConv SVCB_conv) @ report 65 (MConv HTTPS_conv) @ report 67 (MConv HHIT_conv) @
     report 68 (MConv BRID_conv) @ report 32769 (MConv DLV_conv) @ [((QClass_ANY, 250), MConv TSIG_conv), ((QClass_ANY, 249), MConv TKEY_conv)] @
     report 41 (MConv OPT_conv) @ [((1, 108), MEUI48)] @ [((1, 109), MEUI64)] @ report 14 (MConv MINFO_conv) @ report 256 (MConv URI_conv) @
     report 257 (MConv CAA_conv) @ report 261 (MConv RESINFO_conv) @ [((1, 42), MAPL)] @ report 45 (MConv IPSECKEY_conv) @ [((1, 62), MConv CSYNC_conv)] @
     report 104 (MConv NID_conv) @ report 105 (MConv L32_conv) @ report 106 (MConv L64_conv) @ report 107 (MConv LP_conv) @ report 262 (MConv WALLET_conv) @ report 63 (MConv ZONEMD_conv)"

definition getTypemap :: "nat \<times> nat \<Rightarrow> maker option" where
  "getTypemap = map_of (reportBasicTypes @ reportOtherTypes)"

definition isRegisteredType :: "nat \<Rightarrow> nat \<Rightarrow> bool" where
  "isRegisteredType rtype rclass = (getTypemap (rclass, rtype) \<noteq> None)"

section \<open>Records and the choice of a maker\<close>

record DNSRecord =
  dr_name :: DNSName
  dr_type :: nat
  dr_class :: nat
  dr_ttl :: nat
  dr_clen :: nat
  dr_place :: Place
  dr_content :: "content option"

definition Opcode_Query :: nat where "Opcode_Query = 0"
definition Opcode_Notify :: nat where "Opcode_Notify = 4"
definition Opcode_Update :: nat where "Opcode_Update = 5"

definition content_make2 :: "DNSRecord \<Rightarrow> (PacketReader, content) call" where
  "content_make2 dr =
     (let searchclass = (if dr_type dr = 41 then 1 else dr_class dr) in
      case getTypemap (searchclass, dr_type dr) of
        None \<Rightarrow> UnknownRecordContent_make (dr_clen dr)
      | Some m \<Rightarrow> maker_make m (dr_clen dr))"

definition content_make :: "DNSRecord \<Rightarrow> nat \<Rightarrow> (PacketReader, content) call" where
  "content_make dr oc =
     (if oc = Opcode_Update \<and> dr_place dr = ANSWER \<and> dr_class dr \<noteq> 1 then UnknownRecordContent_make (dr_clen dr)
      else
        let searchclass = (if dr_type dr = 41 then 1 else dr_class dr) in
        case getTypemap (searchclass, dr_type dr) of
          None \<Rightarrow> UnknownRecordContent_make (dr_clen dr)
        | Some m \<Rightarrow> maker_make m (dr_clen dr))"

end
