(* ===== verification/ContentLaws.thy ===== *)
theory ContentLaws
  imports Content
begin

text \<open>
  Contents on the wire. The locale \<open>content_codec\<close> is what the rest of a message relies on: what \<^verbatim>\<open>toPacket\<close> leaves
  in the packet stays there, and the maker that is registered for the type reads it back. It is
  proved for all the registered types and for unknown ones.
\<close>

section \<open>The interface\<close>

text \<open>
  \<open>lies w c p q\<close>: the content \<open>c\<close> is in the packet from \<open>p\<close> to \<open>q\<close>; \<open>fits k c\<close>: a content that kind \<open>k\<close> can have;
  \<open>cost c\<close>: a bound on the compression pointers that reading it follows.
\<close>

locale content_codec =
  fixes to_packet :: "'c \<Rightarrow> unit writing"
    and from_packet :: "'k \<Rightarrow> nat \<Rightarrow> (PacketReader, 'c) call"
    and fits :: "'k \<Rightarrow> 'c \<Rightarrow> bool"
    and lies :: "DNSPacketWriter \<Rightarrow> 'c \<Rightarrow> nat \<Rightarrow> nat \<Rightarrow> bool"
    and same :: "'c \<Rightarrow> 'c \<Rightarrow> bool"
    and cost :: "'c \<Rightarrow> nat"
  assumes writes: "fits k c \<Longrightarrow> \<exists>w'. to_packet c w = (Inr (), w') \<and> appends w w'"
    and written: "fits k c \<Longrightarrow> w_inv w \<Longrightarrow> to_packet c w = (Inr u, w') \<Longrightarrow> length (w_content w') \<le> maxCompressionOffset \<Longrightarrow>
      good_step w w' \<and> lies w' c (length (w_content w)) (length (w_content w'))"
    and stays: "lies w c p q \<Longrightarrow> keeps_spelling w w' \<Longrightarrow> lies w' c p q"
    and ordered: "lies w c p q \<Longrightarrow> p \<le> q"
    and reads: "lies w c (d_pos r) q \<Longrightarrow> fits k c \<Longrightarrow> reading w r \<Longrightarrow> d_startrecordpos r = d_pos r \<Longrightarrow> q = d_pos r + d_recordlen r \<Longrightarrow>
      cost c \<le> d_pointerBudget r \<Longrightarrow>
      \<exists>c' b. from_packet k (d_recordlen r) r = (Inr c', r\<lparr>d_pos := q, d_pointerBudget := b\<rparr>) \<and> same c' c \<and> d_pointerBudget r \<le> b + cost c"
    and cheap: "fits k c \<Longrightarrow> cost c \<le> 33"

section \<open>The number of names\<close>

primrec max_names :: "conv \<Rightarrow> nat \<Rightarrow> bool" where
  "max_names Done n \<longleftrightarrow> True"
| "max_names (Throw msg) n \<longleftrightarrow> True"
| "max_names (Xfr x k) n \<longleftrightarrow> (if is_name x then 0 < n \<and> (\<forall>m. max_names (k m) (n - 1)) else \<forall>m. max_names (k m) n)"

lemma name_cost_plain: "val_ok x v \<Longrightarrow> \<not> is_name x \<Longrightarrow> name_cost v = 0"
  by (cases x) (auto simp: val_ok_def)

lemma name_cost_le: "name_cost v \<le> 11"
  by (cases v) auto

lemma names_cost_bound: "vals_ok c vs \<Longrightarrow> max_names c n \<Longrightarrow> names_cost vs \<le> 11 * n"
proof (induction c arbitrary: vs n)
  case (Xfr x k)
  obtain v us where vs: "vs = v # us" using Xfr.prems(1) by (cases vs) auto
  have ok: "val_ok x v" "vals_ok (k (int_of v)) us" using Xfr.prems(1) vs by auto
  show ?case
  proof (cases "is_name x")
    case True
    then have "names_cost us \<le> 11 * (n - 1)" using Xfr.IH [of "k (int_of v)" us "n - 1"] ok(2) Xfr.prems(2) by simp
    then show ?thesis using name_cost_le [of v] True Xfr.prems(2) vs by (cases n) (simp_all add: names_cost_def)
  next
    case False
    then have "names_cost us \<le> 11 * n" using Xfr.IH [of "k (int_of v)" us n] ok(2) Xfr.prems(2) by simp
    then show ?thesis using name_cost_plain [OF ok(1) False] vs by (simp add: names_cost_def)
  qed
qed (simp_all add: names_cost_def)

text \<open>The makers that read and write a description.\<close>

fun maker_conv :: "maker \<Rightarrow> conv option" where
  "maker_conv (MConv c) = Some c"
| "maker_conv MA = Some A_conv"
| "maker_conv MNSEC3PARAM = Some NSEC3PARAM_conv"
| "maker_conv _ = None"

definition maker_wf :: "maker \<Rightarrow> bool" where
  "maker_wf m \<longleftrightarrow> (\<forall>c. maker_conv m = Some c \<longrightarrow> conv_wf c \<and> max_names c 3)"

lemma typemap_wf:
  assumes "getTypemap k = Some m"
  shows "maker_wf m"
proof -
  have "\<forall>e \<in> set reportBasicTypes. maker_wf (snd e)"
    by (simp add: reportBasicTypes_def report_def maker_wf_def descriptions_wf) (simp add: conv_defs conv_build Let_def)
  moreover have "\<forall>e \<in> set reportOtherTypes. maker_wf (snd e)"
    by (simp add: reportOtherTypes_def report_def maker_wf_def descriptions_wf) (simp add: conv_defs conv_build Let_def)
  moreover have "(k, m) \<in> set (reportBasicTypes @ reportOtherTypes)" using assms unfolding getTypemap_def by (rule map_of_SomeD)
  ultimately show ?thesis by auto
qed

section \<open>Contents that fit\<close>

fun maker_ok :: "maker \<Rightarrow> val list \<Rightarrow> bool" where
  "maker_ok (MConv c) vs \<longleftrightarrow> vals_ok c vs"
| "maker_ok MA vs \<longleftrightarrow> vals_ok A_conv vs"
| "maker_ok MNSEC3PARAM vs \<longleftrightarrow> vals_ok NSEC3PARAM_conv vs"
| "maker_ok MEUI48 vs \<longleftrightarrow> (\<exists>bs. vs = [VBytes bs] \<and> length bs = 6)"
| "maker_ok MEUI64 vs \<longleftrightarrow> (\<exists>bs. vs = [VBytes bs] \<and> length bs = 8)"
| "maker_ok MAPL vs \<longleftrightarrow> (\<exists>ards. vs = [VPrefixes ards] \<and> (\<forall>ard \<in> set ards. ard_ok ard))"

fun content_fits :: "maker option \<Rightarrow> content \<Rightarrow> bool" where
  "content_fits (Some m) (Content m' vs) \<longleftrightarrow> m' = m \<and> maker_wf m \<and> maker_ok m vs"
| "content_fits None (UnknownRecordContent bs) \<longleftrightarrow> True"
| "content_fits _ _ \<longleftrightarrow> False"

definition content_read :: "maker option \<Rightarrow> nat \<Rightarrow> (PacketReader, content) call" where
  "content_read k clen = (case k of None \<Rightarrow> UnknownRecordContent_make clen | Some m \<Rightarrow> maker_make m clen)"

text \<open>The bytes of a content without names.\<close>

definition raw_at :: "DNSPacketWriter \<Rightarrow> bytes \<Rightarrow> nat \<Rightarrow> nat \<Rightarrow> bool" where
  "raw_at w bs p q \<longleftrightarrow> bytes_at w p bs \<and> q = p + length bs"

fun content_at :: "DNSPacketWriter \<Rightarrow> content \<Rightarrow> nat \<Rightarrow> nat \<Rightarrow> bool" where
  "content_at w (Content (MConv c) vs) p q \<longleftrightarrow> conv_at c w vs p q"
| "content_at w (Content MA vs) p q \<longleftrightarrow> conv_at A_conv w vs p q"
| "content_at w (Content MNSEC3PARAM vs) p q \<longleftrightarrow> conv_at NSEC3PARAM_conv w vs p q"
| "content_at w (Content MAPL vs) p q \<longleftrightarrow> raw_at w (apl_wire (prefixes_in (hd vs))) p q"
| "content_at w (Content m vs) p q \<longleftrightarrow> raw_at w (bytes_in (hd vs)) p q"
| "content_at w (UnknownRecordContent bs) p q \<longleftrightarrow> raw_at w bs p q"

fun same_content :: "content \<Rightarrow> content \<Rightarrow> bool" where
  "same_content (Content m vs) (Content m' vs') \<longleftrightarrow> m = m' \<and> list_all2 same_val vs vs'"
| "same_content (UnknownRecordContent bs) (UnknownRecordContent bs') \<longleftrightarrow> bs = bs'"
| "same_content _ _ \<longleftrightarrow> False"

fun content_cost :: "content \<Rightarrow> nat" where
  "content_cost (Content m vs) = (if maker_conv m = None then 0 else names_cost vs)"
| "content_cost (UnknownRecordContent bs) = 0"

section \<open>The laws\<close>

fun content_conv :: "content \<Rightarrow> conv option" where
  "content_conv (Content m vs) = maker_conv m"
| "content_conv (UnknownRecordContent bs) = None"

lemma content_conv_SomeE:
  assumes "content_conv c = Some d" "content_fits k c"
  obtains m vs where "c = Content m vs" "k = Some m" "conv_wf d" "max_names d 3" "vals_ok d vs" "maker_conv m = Some d"
    "content_toPacket c = conv_write d vs" "\<And>w p q. content_at w c p q \<longleftrightarrow> conv_at d w vs p q" "content_cost c = names_cost vs"
proof -
  obtain m vs where c: "c = Content m vs" "k = Some m" "maker_wf m" "maker_ok m vs" "maker_conv m = Some d"
    using assms by (cases c; cases k) auto
  then show ?thesis using that [of m vs] by (cases m) (auto simp: maker_wf_def xfrPacket_write_def)
qed

lemma raw_written:
  assumes "w_inv w"
  shows "good_step w (w\<lparr>w_content := w_content w @ bs\<rparr>) \<and>
    raw_at (w\<lparr>w_content := w_content w @ bs\<rparr>) bs (length (w_content w)) (length (w_content w @ bs))"
  using append_good [OF assms] appended_at [OF assms] by (simp add: raw_at_def)

text \<open>The contents other than descriptions are written as plain bytes.\<close>

fun content_bytes :: "content \<Rightarrow> bytes" where
  "content_bytes (Content MAPL vs) = apl_wire (prefixes_in (hd vs))"
| "content_bytes (Content m vs) = bytes_in (hd vs)"
| "content_bytes (UnknownRecordContent bs) = bs"

lemma plain_content_written:
  assumes "content_fits k c" "content_conv c = None"
  shows "content_toPacket c w = (Inr (), w\<lparr>w_content := w_content w @ content_bytes c\<rparr>)" "content_at w c p q \<longleftrightarrow> raw_at w (content_bytes c) p q"
    "content_cost c = 0"
proof -
  show "content_toPacket c w = (Inr (), w\<lparr>w_content := w_content w @ content_bytes c\<rparr>)"
    using assms by (cases c rule: content_toPacket.cases; cases k)
      (auto simp: EUI48_toPacket_def EUI64_toPacket_def pw_xfrBlob_def pw_append_def apl_written)
  show "content_at w c p q \<longleftrightarrow> raw_at w (content_bytes c) p q" "content_cost c = 0"
    using assms(2) by (cases c rule: content_toPacket.cases; simp)+
qed

lemma content_writes:
  assumes "content_fits k c"
  shows "\<exists>w'. content_toPacket c w = (Inr (), w') \<and> appends w w'"
proof (cases "content_conv c")
  case None
  then show ?thesis using plain_content_written(1) [OF assms, of w] append_appends by blast
next
  case (Some d)
  from content_conv_SomeE [OF this assms] show ?thesis by (metis conv_write_appends)
qed

lemma content_written:
  assumes "content_fits k c" "w_inv w" "content_toPacket c w = (Inr u, w')" "length (w_content w') \<le> maxCompressionOffset"
  shows "good_step w w' \<and> content_at w' c (length (w_content w)) (length (w_content w'))"
proof (cases "content_conv c")
  case None
  then have "w' = w\<lparr>w_content := w_content w @ content_bytes c\<rparr>" using plain_content_written(1) [OF assms(1), of w] assms(3) by auto
  then show ?thesis using raw_written [OF assms(2)] plain_content_written(2) [OF assms(1)] None by auto
next
  case (Some d)
  from content_conv_SomeE [OF this assms(1)] show ?thesis by (metis assms(2-4) conv_write_at)
qed

lemma raw_at_keeps: "raw_at w bs p q \<Longrightarrow> keeps_spelling w w' \<Longrightarrow> raw_at w' bs p q"
  using bytes_at_keeps by (auto simp: raw_at_def)

lemma content_at_keeps: "content_at w c p q \<Longrightarrow> keeps_spelling w w' \<Longrightarrow> content_at w' c p q"
  by (cases c rule: content_toPacket.cases) (simp_all add: conv_at_keeps raw_at_keeps)

lemma content_at_le: "content_at w c p q \<Longrightarrow> p \<le> q"
  by (cases c rule: content_toPacket.cases) (auto simp: raw_at_def conv_at_le)

lemma content_cheap:
  assumes "content_fits k c"
  shows "content_cost c \<le> 33"
proof (cases "content_conv c")
  case None
  then show ?thesis using plain_content_written(3) [OF assms] by simp
next
  case (Some d)
  show ?thesis by (rule content_conv_SomeE [OF Some assms]) (use names_cost_bound [of d _ 3] in auto)
qed

lemma eof_at_end: "d_pos r = d_startrecordpos r + d_recordlen r \<Longrightarrow> pr_eof r = (Inr True, r)"
  by (simp add: pr_eof_def)

lemma copyRecord_ahead: "ahead r bs \<Longrightarrow> copyRecord [] (length bs) r = (Inr bs, skip_to r (length bs))"
  by (auto simp: copyRecord_def isWithinRecordBoundaries_def ahead_def skip_to_def Let_def read_bytes_Inr)

lemma plain_content_reads:
  assumes "content_fits k c" "content_conv c = None" "ahead r (content_bytes c)"
    "d_startrecordpos r = d_pos r" "d_recordlen r = length (content_bytes c)"
  shows "\<exists>c'. content_read k (d_recordlen r) r = (Inr c', skip_to r (length (content_bytes c))) \<and> same_content c' c"
proof -
  have eof: "pr_eof (skip_to r (length (content_bytes c))) = (Inr True, skip_to r (length (content_bytes c)))"
    using assms(4,5) by (intro eof_at_end) simp
  consider (eui48) bs where "k = Some MEUI48" "c = Content MEUI48 [VBytes bs]" "length bs = 6"
    | (eui64) bs where "k = Some MEUI64" "c = Content MEUI64 [VBytes bs]" "length bs = 8"
    | (apl) ards where "k = Some MAPL" "c = Content MAPL [VPrefixes ards]" "\<forall>ard \<in> set ards. ard_ok ard"
    | (unknown) bs where "k = None" "c = UnknownRecordContent bs"
    using assms(1,2) by (cases c rule: content_toPacket.cases; cases k) auto
  then show ?thesis
  proof cases
    case eui48
    then have "bs \<noteq> []" by auto
    then show ?thesis using eui48 assms(3,5) eof ahead_raw [of r bs]
      by (auto simp: content_read_def maker_make_def EUI48_make_def)
  next
    case eui64
    then have "bs \<noteq> []" by auto
    then show ?thesis using eui64 assms(3,5) eof ahead_raw [of r bs]
      by (auto simp: content_read_def maker_make_def EUI64_make_def)
  next
    case apl
    then show ?thesis using assms(3,5) eof ahead_apl [of ards r "d_recordlen r" 0]
      by (auto simp: content_read_def maker_make_def APL_make_def)
  next
    case unknown
    then show ?thesis using assms(3,5) copyRecord_ahead [of r bs] by (auto simp: content_read_def UnknownRecordContent_make_def)
  qed
qed

lemma A_length: "vals_ok A_conv vs \<Longrightarrow> conv_at A_conv w vs p q \<Longrightarrow> q = p + 4"
  by (cases vs) (auto simp: A_conv_def conv_build field_at_def val_ok_def xfr_bytes_def)

lemma conv_maker_reads:
  assumes "maker_conv m = Some d" "conv_read d r = (Inr vs, r')" "pr_eof r' = (Inr True, r')" "m = MA \<Longrightarrow> clen = 4"
  shows "maker_make m clen r = (Inr (Content m vs), r')"
  using assms by (cases m) (auto simp: maker_make_def xfrPacket_read_def A_doRecordCheck_def)

lemma content_reads:
  assumes "content_at w c (d_pos r) q" "content_fits k c" "reading w r" "d_startrecordpos r = d_pos r" "q = d_pos r + d_recordlen r"
    "content_cost c \<le> d_pointerBudget r"
  shows "\<exists>c' b. content_read k (d_recordlen r) r = (Inr c', r\<lparr>d_pos := q, d_pointerBudget := b\<rparr>) \<and> same_content c' c \<and>
    d_pointerBudget r \<le> b + content_cost c"
proof (cases "content_conv c")
  case (Some d)
  obtain m vs where c: "c = Content m vs" "k = Some m" "conv_wf d" "vals_ok d vs" "maker_conv m = Some d"
    "conv_at d w vs (d_pos r) q" "content_cost c = names_cost vs"
    by (rule content_conv_SomeE [OF Some assms(2)]) (use assms(1) in blast)
  obtain vs' b where r: "conv_read d r = (Inr vs', r\<lparr>d_pos := q, d_pointerBudget := b\<rparr>)" "list_all2 same_val vs' vs" "d_pointerBudget r \<le> b + names_cost vs"
    using conv_read_at [of d w vs r q] assms c by auto
  have eof: "pr_eof (r\<lparr>d_pos := q, d_pointerBudget := b\<rparr>) = (Inr True, r\<lparr>d_pos := q, d_pointerBudget := b\<rparr>)"
    using assms(4,5) by (intro eof_at_end) simp
  have "d_recordlen r = 4" if "m = MA" using A_length [of vs w "d_pos r" q] c assms(5) that by simp
  then have "content_read k (d_recordlen r) r = (Inr (Content m vs'), r\<lparr>d_pos := q, d_pointerBudget := b\<rparr>)"
    using conv_maker_reads [OF c(5) r(1) eof] c(2) by (simp add: content_read_def)
  then show ?thesis using r c by auto
next
  case None
  then have at: "raw_at w (content_bytes c) (d_pos r) q" "content_cost c = 0" using plain_content_written [OF assms(2)] assms(1) by auto
  then have "ahead r (content_bytes c)" using bytes_at_ahead [OF assms(3)] assms(4,5) by (auto simp: raw_at_def)
  then obtain c' where c': "content_read k (d_recordlen r) r = (Inr c', skip_to r (length (content_bytes c)))" "same_content c' c"
    using plain_content_reads [OF assms(2) None _ assms(4)] assms(5) at(1) unfolding raw_at_def by (metis add_left_cancel)
  have "skip_to r (length (content_bytes c)) = r\<lparr>d_pos := q, d_pointerBudget := d_pointerBudget r\<rparr>" using at(1) by (simp add: skip_to_def raw_at_def)
  then have "content_read k (d_recordlen r) r = (Inr c', r\<lparr>d_pos := q, d_pointerBudget := d_pointerBudget r\<rparr>)" using c'(1) by (simp only:)
  then show ?thesis using c'(2) le_add1 by blast
qed

interpretation wire_content: content_codec content_toPacket content_read content_fits content_at same_content content_cost
proof
qed (simp_all add: content_writes content_written content_at_keeps content_at_le content_reads content_cheap)

end
