(* ===== verification/MessageWrite.thy ===== *)
theory MessageWrite
  imports ContentLaws
begin

text \<open>
  What a sequence of records leaves in the packet: the loop of \<^verbatim>\<open>DNSPacket::wrapup\<close> (\<^verbatim>\<open>pdns/dnspacket.cc\<close>) that writes the
  records, and where each of them is when the last one is committed.
\<close>

section \<open>The loop\<close>

definition pw_header :: "(dnsheader \<Rightarrow> dnsheader) \<Rightarrow> unit writing" where
  "pw_header f = putC (\<lambda>w. w\<lparr>w_content := set_header f (w_content w)\<rparr>)"

text \<open>Gives whether it had to stop and truncate.\<close>

fun wrapup_records :: "bool \<Rightarrow> nat \<Rightarrow> nat \<Rightarrow> DNSRecord list \<Rightarrow> bool writing" where
  "wrapup_records throwsOnTruncation optsize maxlen [] = returnC False"
| "wrapup_records throwsOnTruncation optsize maxlen (dr # drs) =
     bindC (pw_startRecord (dr_name dr) (dr_type dr) (dr_ttl dr) (dr_class dr) (dr_place dr) True) (\<lambda>_.
     bindC (content_toPacket (the (dr_content dr))) (\<lambda>_ w.
       if length (w_content w) + optsize > maxlen then
         (if throwsOnTruncation then (Inl (PDNSException ''attempt to write an oversized chunk''), w)
          else bindC pw_rollback (\<lambda>_. bindC pw_truncate (\<lambda>_. bindC (pw_header (\<lambda>dh. dh\<lparr>h_tc := True\<rparr>)) (\<lambda>_. returnC True))) w)
       else wrapup_records throwsOnTruncation optsize maxlen drs w))"

section \<open>Records in the packet\<close>

definition searchclass :: "DNSRecord \<Rightarrow> nat" where
  "searchclass dr = (if dr_type dr = 41 then 1 else dr_class dr)"

definition record_kind :: "DNSRecord \<Rightarrow> maker option" where
  "record_kind dr = getTypemap (searchclass dr, dr_type dr)"

text \<open>A record that can be written and read back.\<close>

definition record_ok :: "DNSRecord \<Rightarrow> bool" where
  "record_ok dr \<longleftrightarrow> (\<exists>nl. dr_name dr = name_of nl \<and> valid_labels nl \<and> length nl \<le> s_maxPointersPerName) \<and>
     dr_type dr < 65536 \<and> dr_class dr < 65536 \<and> dr_ttl dr < 4294967296 \<and> dr_place dr \<noteq> QUESTION \<and>
     (\<exists>c. dr_content dr = Some c \<and> content_fits (record_kind dr) c)"

definition head_at :: "DNSPacketWriter \<Rightarrow> nat \<Rightarrow> nat \<Rightarrow> DNSRecord \<Rightarrow> bool" where
  "head_at w p e dr \<longleftrightarrow>
     (\<exists>nl. dr_name dr = name_of nl \<and> valid_labels nl \<and> length nl \<le> s_maxPointersPerName \<and> name_at w p e nl) \<and>
     bytes_at w e (to_be16 (dr_type dr) @ to_be16 (dr_class dr) @ to_be32 (dr_ttl dr))"

definition record_at :: "DNSPacketWriter \<Rightarrow> nat \<Rightarrow> nat \<Rightarrow> DNSRecord \<Rightarrow> bool" where
  "record_at w p q dr \<longleftrightarrow> (\<exists>e. head_at w p e dr \<and> e + 10 \<le> q \<and> q - (e + 10) < 65536 \<and> bytes_at w (e + 8) (to_be16 (q - (e + 10))) \<and>
     content_at w (the (dr_content dr)) (e + 10) q)"

fun records_at :: "DNSPacketWriter \<Rightarrow> nat \<Rightarrow> nat \<Rightarrow> DNSRecord list \<Rightarrow> bool" where
  "records_at w p q [] \<longleftrightarrow> p = q"
| "records_at w p q (dr # drs) \<longleftrightarrow> (\<exists>m. record_at w p m dr \<and> records_at w m q drs)"

text \<open>The last record, before its length is filled in.\<close>

definition open_at :: "DNSPacketWriter \<Rightarrow> nat \<Rightarrow> DNSRecord \<Rightarrow> bool" where
  "open_at w p dr \<longleftrightarrow> 12 \<le> p \<and> p + 10 < w_sor w \<and> head_at w p (w_sor w - 10) dr \<and> w_recordplace w = dr_place dr \<and>
     content_at w (the (dr_content dr)) (w_sor w) (length (w_content w))"

lemma head_at_keeps: "head_at w p e dr \<Longrightarrow> keeps_spelling w w' \<Longrightarrow> head_at w' p e dr"
  unfolding head_at_def by (blast intro: name_at_keeps bytes_at_keeps)

lemma record_at_keeps: "record_at w p q dr \<Longrightarrow> keeps_spelling w w' \<Longrightarrow> record_at w' p q dr"
  unfolding record_at_def by (blast intro: head_at_keeps bytes_at_keeps wire_content.stays)

lemma records_at_keeps: "records_at w p q drs \<Longrightarrow> keeps_spelling w w' \<Longrightarrow> records_at w' p q drs"
  by (induction drs arbitrary: p) (auto dest: record_at_keeps)

lemma records_at_snoc: "records_at w p q (drs @ [dr]) \<longleftrightarrow> (\<exists>m. records_at w p m drs \<and> record_at w m q dr)"
  by (induction drs arbitrary: p) auto

section \<open>Committing a record\<close>

definition header_in :: "DNSPacketWriter \<Rightarrow> dnsheader" where
  "header_in w = dnsheader_of (w_content w)"

lemma header_appends: "appends w w' \<Longrightarrow> 12 \<le> length (w_content w) \<Longrightarrow> header_in w' = header_in w"
  unfolding header_in_def
  by (rule dnsheader_of_take) (auto simp: appends_def prefix_def)

lemma to_be16_mod: "[of_nat (n div 256), of_nat (n mod 256)] = to_be16 n"
  unfolding to_be16_def by (simp add: word_unat_eq_iff unat_of_nat_mod_u8)

lemma count_record_ok: "dnsheader_ok h \<Longrightarrow> dnsheader_ok (count_record place h)"
  by (auto simp: dnsheader_ok_def count_record_def split: Place.split)

lemma header_set: "12 \<le> length c \<Longrightarrow> dnsheader_ok (f (dnsheader_of c)) \<Longrightarrow> dnsheader_of (set_header f c) = f (dnsheader_of c)"
  by (simp add: set_header_def dnsheader_of_bytes)

lemma commit_closes:
  assumes "open_at w p dr" "w_inv w" "pw_commit w = (Inr u, w')"
  shows "good_step w w' \<and> w_sor w' = 0 \<and> length (w_content w') = length (w_content w) \<and>
    record_at w' p (length (w_content w')) dr \<and> header_in w' = count_record (dr_place dr) (header_in w)"
proof -
  let ?n = "length (w_content w) - w_sor w"
  have sor: "14 \<le> w_sor w" "w_sor w \<le> length (w_content w)" using assms(1,2) by (auto simp: open_at_def w_inv_def)
  note good = commit_good [OF assms(3,2)]
  from assms(3) obtain small: "length (w_content w) \<le> 65535" and w': "w' = w\<lparr>w_content := set_header (count_record (w_recordplace w))
      (with_length (w_sor w) ?n (w_content w)), w_sor := 0\<rparr>"
    by (cases rule: commit_cases) (use sor in auto)
  let ?c = "with_length (w_sor w) ?n (w_content w)"
  have len: "length ?c = length (w_content w)" by (simp add: with_length_def)
  have keeps: "keeps_spelling w w'" using good by (simp add: good_step_def)
  have c: "w_content w' ! (w_sor w - 2) = of_nat (?n div 256)" "w_content w' ! (w_sor w - 1) = of_nat (?n mod 256)"
    using w' sor len by (simp_all add: set_header_nth) (simp_all add: with_length_def)
  have "bytes_at w' (w_sor w - 2) (to_be16 ?n)"
    unfolding to_be16_mod [symmetric] bytes_at_def using c sor good w'
    by (auto simp: less_Suc_eq w_free_def numeral_2_eq_2)
  moreover have "head_at w' p (w_sor w - 10) dr" "content_at w' (the (dr_content dr)) (w_sor w) (length (w_content w'))"
    using assms(1) head_at_keeps [OF _ keeps] wire_content.stays [OF _ keeps] good by (auto simp: open_at_def)
  moreover have "w_sor w - 10 + 8 = w_sor w - 2" "w_sor w - 10 + 10 = w_sor w" using sor by simp_all
  ultimately have "record_at w' p (length (w_content w')) dr"
    unfolding record_at_def using sor small good by (intro exI [of _ "w_sor w - 10"]) simp
  moreover have "header_in w' = count_record (dr_place dr) (header_in w)"
  proof -
    have "dnsheader_of ?c = dnsheader_of (w_content w)"
      using sor len by (intro dnsheader_of_take) (simp_all add: with_length_def)
    then show ?thesis using assms(1) w' sor len count_record_ok [OF dnsheader_of_ok]
      by (simp add: header_in_def header_set open_at_def)
  qed
  ultimately show ?thesis using good by simp
qed

section \<open>Writing a record\<close>

lemma set_compress:
  "w_inv (w\<lparr>w_compress := b\<rparr>) = w_inv w" "qname_at (w\<lparr>w_compress := b\<rparr>) = qname_at w" "open_at (w\<lparr>w_compress := b\<rparr>) p dr = open_at w p dr"
  "records_at (w\<lparr>w_compress := b\<rparr>) p q drs = records_at w p q drs" "header_in (w\<lparr>w_compress := b\<rparr>) = header_in w"
proof -
  let ?w = "w\<lparr>w_compress := b\<rparr>"
  have F: "w_free ?w = w_free w" by (rule ext) (simp add: w_free_def)
  then have k: "keeps_spelling w ?w" "keeps_spelling ?w w" by (simp_all add: keeps_spelling_def)
  show "w_inv ?w = w_inv w" "qname_at ?w = qname_at w" by (simp_all add: w_inv_def qname_at_def F)
  show "open_at ?w p dr = open_at w p dr"
    using head_at_keeps [OF _ k(1)] head_at_keeps [OF _ k(2)] wire_content.stays [OF _ k(1)] wire_content.stays [OF _ k(2)]
    by (auto simp: open_at_def)
  show "records_at ?w p q drs = records_at w p q drs" using records_at_keeps [OF _ k(1)] records_at_keeps [OF _ k(2)] by blast
  show "header_in ?w = header_in w" by (simp add: header_in_def)
qed

lemma commit_nothing: "w_sor w = 0 \<Longrightarrow> pw_commit w = (Inr (), w)"
  by (simp add: pw_commit_def)

text \<open>A record is started in the packet that the commit of the record before it leaves.\<close>

lemma startRecord_committed:
  assumes "pw_startRecord name qtype ttl qclass place compress w = (Inr u, w')"
  obtains wc where "pw_commit (w\<lparr>w_compress := compress\<rparr>) = (Inr (), wc)" "w_compress wc = compress"
    "w_sor wc = 0 \<longrightarrow> pw_startRecord name qtype ttl qclass place compress wc = (Inr u, w')"
proof -
  obtain wc where wc: "pw_commit (w\<lparr>w_compress := compress\<rparr>) = (Inr (), wc)" using assms by (auto elim: startRecord_cases)
  then have c: "w_compress wc = compress" by (cases rule: commit_cases) auto
  then have id: "wc\<lparr>w_compress := compress\<rparr> = wc" by simp
  have "\<exists>K. \<forall>w. pw_startRecord name qtype ttl qclass place compress w = bindC pw_commit K (w\<lparr>w_compress := compress\<rparr>)"
    unfolding pw_startRecord_def by (simp add: bindC_def [of "putC _"] putC_def) blast
  then obtain K where K: "\<And>w. pw_startRecord name qtype ttl qclass place compress w = bindC pw_commit K (w\<lparr>w_compress := compress\<rparr>)" by blast
  have first: "bindC pw_commit K (w\<lparr>w_compress := compress\<rparr>) = K () wc" by (simp add: bindC_def wc)
  have "pw_startRecord name qtype ttl qclass place compress wc = (Inr u, w')" if "w_sor wc = 0"
  proof -
    have "bindC pw_commit K wc = K () wc" by (simp add: bindC_def commit_nothing [OF that])
    then show ?thesis using assms first by (simp only: K id)
  qed
  then show thesis by (intro that [OF wc c]) blast
qed

lemma startRecord_prefix:
  assumes "pw_startRecord name qtype ttl qclass place compress w = (Inr u, w')" "w_sor w = 0"
  shows "prefix (w_content w) (w_content w')"
  using assms(1)
proof (cases rule: startRecord_cases)
  case (1 wc wn)
  have "w_content wc = w_content w" using 1(1) assms(2) by (auto simp: commit_nothing)
  moreover have "prefix (w_content wc) (w_content wn)"
  proof (cases "compress \<and> \<not> DNSName_isRoot name \<and> DNSName_eq (w_qname wc) name")
    case True
    then show ?thesis using 1(3) by (auto simp: append_Inr)
  next
    case False
    then show ?thesis using 1(3) xfrName_appends [of name compress "wc\<lparr>w_rollbackmarker := length (w_content wc)\<rparr>"]
      by (auto simp: appends_def)
  qed
  ultimately show ?thesis using 1(7) by (auto simp: prefix_def)
qed

lemma startRecord_header:
  assumes "pw_startRecord name qtype ttl qclass place compress w = (Inr u, w')" "w_sor w = 0" "12 \<le> length (w_content w)"
  shows "header_in w' = header_in w"
  unfolding header_in_def
  by (rule dnsheader_of_take) (use startRecord_prefix [OF assms(1,2)] assms(3) in \<open>auto simp: prefix_def\<close>)

lemma record_written:
  assumes "pw_startRecord (dr_name dr) (dr_type dr) (dr_ttl dr) (dr_class dr) (dr_place dr) compress w = (Inr u, w1)"
    "content_toPacket (the (dr_content dr)) w1 = (Inr v, w2)" "record_ok dr" "w_inv w" "qname_at w" "w_sor w = 0"
    "length (w_content w2) \<le> maxCompressionOffset"
  shows "good_step w w2 \<and> open_at w2 (length (w_content w)) dr \<and> header_in w2 = header_in w"
proof -
  obtain nl c where ok: "dr_name dr = name_of nl" "valid_labels nl" "length nl \<le> s_maxPointersPerName" "dr_content dr = Some c"
    "content_fits (record_kind dr) c" using assms(3) by (auto simp: record_ok_def)
  have app: "appends w1 w2" using wire_content.writes [OF ok(5), of w1] assms(2) ok(4) by auto
  note short = appends_simps(4) [OF app]
  have lenw: "length (w_content w) \<le> length (w_content w1)"
    using startRecord_prefix [OF assms(1,6)] by (rule prefix_length_le)
  have "good_step w w1 \<and> w_sor w1 = length (w_content w1) \<and> length (w_content w) + 10 < w_sor w1 \<and> w_recordplace w1 = dr_place dr \<and>
      name_at w1 (length (w_content w)) (w_sor w1 - 10) nl \<and>
      bytes_at w1 (w_sor w1 - 10) (to_be16 (dr_type dr) @ to_be16 (dr_class dr) @ to_be32 (dr_ttl dr))"
    using assms(1,4,5,7) ok(1,2) lenw short by (intro startRecord_written) simp_all
  then have step1: "good_step w w1" "w_sor w1 = length (w_content w1)" "length (w_content w) + 10 < w_sor w1" "w_recordplace w1 = dr_place dr"
    "name_at w1 (length (w_content w)) (w_sor w1 - 10) nl"
    "bytes_at w1 (w_sor w1 - 10) (to_be16 (dr_type dr) @ to_be16 (dr_class dr) @ to_be32 (dr_ttl dr))"
    by blast+
  have step2: "good_step w1 w2" "content_at w2 c (length (w_content w1)) (length (w_content w2))"
    using wire_content.written [OF ok(5), of w1 v w2] step1(1) assms(2,7) ok(4) by (simp_all add: good_step_def)
  have keeps: "keeps_spelling w1 w2" using step2(1) by (simp add: good_step_def)
  have "head_at w2 (length (w_content w)) (w_sor w1 - 10) dr"
    using name_at_keeps [OF step1(5) keeps] bytes_at_keeps [OF step1(6) keeps] ok(1-3) by (auto simp: head_at_def)
  then have "open_at w2 (length (w_content w)) dr"
    using step1 step2(2) appends_simps(1,2) [OF app] ok(4) assms(4) by (simp add: open_at_def w_inv_def)
  moreover have "header_in w2 = header_in w"
  proof -
    have "12 \<le> length (w_content w)" using assms(4) by (simp add: w_inv_def)
    then show ?thesis using header_appends [OF app] startRecord_header [OF assms(1,6)] lenw by simp
  qed
  ultimately show ?thesis using good_step_trans [OF step1(1) step2(1)] by simp
qed

section \<open>The whole loop\<close>

definition count_all :: "DNSRecord list \<Rightarrow> dnsheader \<Rightarrow> dnsheader" where
  "count_all drs h = fold (\<lambda>dr. count_record (dr_place dr)) drs h"

text \<open>The records \<open>drs\<close> have been written from \<open>p\<close> on, the last of them not committed yet.\<close>

definition written_upto :: "DNSPacketWriter \<Rightarrow> dnsheader \<Rightarrow> nat \<Rightarrow> DNSRecord list \<Rightarrow> bool" where
  "written_upto w h p drs \<longleftrightarrow> w_inv w \<and> qname_at w \<and>
     (if drs = [] then w_sor w = 0 \<and> length (w_content w) = p \<and> header_in w = h
      else \<exists>m. records_at w p m (butlast drs) \<and> open_at w m (last drs) \<and> header_in w = count_all (butlast drs) h)"

definition all_written :: "DNSPacketWriter \<Rightarrow> dnsheader \<Rightarrow> nat \<Rightarrow> DNSRecord list \<Rightarrow> bool" where
  "all_written w h p drs \<longleftrightarrow> w_inv w \<and> qname_at w \<and> w_sor w = 0 \<and> records_at w p (length (w_content w)) drs \<and> header_in w = count_all drs h"

lemma commit_upto:
  assumes "written_upto w h p drs" "pw_commit w = (Inr u, w')"
  shows "all_written w' h p drs \<and> keeps_spelling w w' \<and> length (w_content w') = length (w_content w) \<and> w_qname w' = w_qname w"
proof (cases "drs = []")
  case True
  then have "w_sor w = 0" using assms(1) by (simp add: written_upto_def)
  then have "w' = w" using assms(2) by (simp add: pw_commit_def)
  then show ?thesis using assms(1) True by (simp add: written_upto_def all_written_def count_all_def keeps_spelling_def)
next
  case False
  then obtain ds d where drs: "drs = ds @ [d]" by (metis rev_exhaust)
  then obtain m where m: "records_at w p m ds" "open_at w m d" "header_in w = count_all ds h" "w_inv w" "qname_at w"
    using assms(1) by (auto simp: written_upto_def)
  have c: "good_step w w'" "w_sor w' = 0" "length (w_content w') = length (w_content w)"
    "record_at w' m (length (w_content w')) d" "header_in w' = count_record (dr_place d) (header_in w)"
    using commit_closes [OF m(2,4) assms(2)] by blast+
  then have keeps: "keeps_spelling w w'" "w_qname w' = w_qname w" "w_inv w'" by (simp_all add: good_step_def)
  have "records_at w' p (length (w_content w')) drs"
    unfolding drs records_at_snoc using records_at_keeps [OF m(1) keeps(1)] c(4) by blast
  moreover have "header_in w' = count_all drs h" using c(5) m(3) by (simp add: drs count_all_def)
  ultimately show ?thesis using c(2,3) keeps qname_at_keeps [OF m(5) keeps(1,2)] by (simp add: all_written_def)
qed

lemma written_step:
  assumes "written_upto w h p drs" "record_ok dr" "length (w_content w2) \<le> maxCompressionOffset"
    "pw_startRecord (dr_name dr) (dr_type dr) (dr_ttl dr) (dr_class dr) (dr_place dr) compress w = (Inr u, w1)"
    "content_toPacket (the (dr_content dr)) w1 = (Inr v, w2)"
  shows "written_upto w2 h p (drs @ [dr]) \<and> keeps_spelling w w2 \<and> w_qname w2 = w_qname w"
proof -
  obtain wc where wc: "pw_commit (w\<lparr>w_compress := compress\<rparr>) = (Inr (), wc)" "w_compress wc = compress"
    "w_sor wc = 0 \<longrightarrow> pw_startRecord (dr_name dr) (dr_type dr) (dr_ttl dr) (dr_class dr) (dr_place dr) compress wc = (Inr u, w1)"
    by (rule startRecord_committed [OF assms(4)])
  have "written_upto (w\<lparr>w_compress := compress\<rparr>) h p drs" using assms(1) by (simp add: written_upto_def set_compress)
  note c = commit_upto [OF this wc(1)]
  then have all: "w_inv wc" "qname_at wc" "w_sor wc = 0" "records_at wc p (length (w_content wc)) drs" "header_in wc = count_all drs h"
    unfolding all_written_def by blast+
  have step: "good_step wc w2" "open_at w2 (length (w_content wc)) dr" "header_in w2 = header_in wc"
    using record_written [OF wc(3) [rule_format, OF all(3)] assms(5,2) all(1,2,3) assms(3)] by simp_all
  have keeps: "keeps_spelling wc w2" "w_qname w2 = w_qname wc" using step(1) by (simp_all add: good_step_def)
  have "written_upto w2 h p (drs @ [dr])"
    unfolding written_upto_def using step all(5) records_at_keeps [OF all(4) keeps(1)] qname_at_keeps [OF all(2) keeps]
    by (auto simp: good_step_def)
  moreover have "keeps_spelling w w2"
  proof -
    have "keeps_spelling w (w\<lparr>w_compress := compress\<rparr>)" by (simp add: keeps_spelling_def w_free_def)
    then show ?thesis using keeps_spelling_trans c keeps(1) by blast
  qed
  ultimately show ?thesis using c keeps(2) by simp
qed

lemma wrapup_records_step:
  assumes "wrapup_records throws optsize maxlen (dr # drs) w = (Inr False, w')"
  obtains w1 w2 where "pw_startRecord (dr_name dr) (dr_type dr) (dr_ttl dr) (dr_class dr) (dr_place dr) True w = (Inr (), w1)"
    "content_toPacket (the (dr_content dr)) w1 = (Inr (), w2)" "length (w_content w2) + optsize \<le> maxlen"
    "wrapup_records throws optsize maxlen drs w2 = (Inr False, w')"
  using assms by (auto simp: bindC_Inr split: if_splits)

lemma wrapup_records_written:
  assumes "wrapup_records throws optsize maxlen drs w = (Inr False, w')" "written_upto w h p ds" "\<forall>dr \<in> set drs. record_ok dr"
    "maxlen \<le> maxCompressionOffset + optsize"
  shows "written_upto w' h p (ds @ drs) \<and> keeps_spelling w w' \<and> w_qname w' = w_qname w"
  using assms(1-3)
proof (induction drs arbitrary: w ds)
  case Nil
  then show ?case by (simp add: keeps_spelling_def)
next
  case (Cons dr drs)
  obtain w1 w2 where w: "pw_startRecord (dr_name dr) (dr_type dr) (dr_ttl dr) (dr_class dr) (dr_place dr) True w = (Inr (), w1)"
    "content_toPacket (the (dr_content dr)) w1 = (Inr (), w2)" "length (w_content w2) + optsize \<le> maxlen"
    "wrapup_records throws optsize maxlen drs w2 = (Inr False, w')"
    by (rule wrapup_records_step [OF Cons.prems(1)])
  have step: "written_upto w2 h p (ds @ [dr]) \<and> keeps_spelling w w2 \<and> w_qname w2 = w_qname w"
    using Cons.prems(3) w(3) assms(4) by (intro written_step [OF Cons.prems(2) _ _ w(1,2)]) simp_all
  then show ?case using Cons.IH [OF w(4), of "ds @ [dr]"] Cons.prems(3) keeps_spelling_trans by auto
qed

section \<open>The question\<close>

definition question_at :: "DNSPacketWriter \<Rightarrow> bytes list \<Rightarrow> nat \<Rightarrow> nat \<Rightarrow> nat \<Rightarrow> bool" where
  "question_at w ql qtype qclass p \<longleftrightarrow> qtype < 65536 \<and> qclass < 65536 \<and>
     (\<exists>e. name_at w 12 e ql \<and> bytes_at w e (to_be16 qtype @ to_be16 qclass) \<and> p = e + 4)"

lemma question_at_keeps: "question_at w ql qtype qclass p \<Longrightarrow> keeps_spelling w w' \<Longrightarrow> question_at w' ql qtype qclass p"
  unfolding question_at_def by (blast intro: name_at_keeps bytes_at_keeps)

definition fresh_header :: "nat \<Rightarrow> dnsheader" where
  "fresh_header opcode = \<lparr>h_id = 0, h_qr = False, h_opcode = opcode mod 16, h_aa = False, h_tc = False, h_rd = False, h_ra = False,
     h_unused = False, h_ad = False, h_cd = False, h_rcode = 0, h_qdcount = 1, h_ancount = 0, h_nscount = 0, h_arcount = 0\<rparr>"

lemma uncompressed_name:
  assumes "valid_labels nl" "\<not> w_lowerCase w"
  shows "\<exists>b. pw_xfrName (name_of nl) False w =
    (Inr (), w\<lparr>w_content := w_content w @ encode nl, w_namepositions := w_namepositions w @ (if b then [length (w_content w)] else [])\<rparr>)"
proof (cases "DNSName_empty (name_of nl) \<or> DNSName_isRoot (name_of nl)")
  case True
  then have "nl = []" using assms(1) by (auto simp: DNSName_empty_def DNSName_isRoot_def encode_def neq_Nil_conv enc_label_def valid_labels_def)
  then have "pw_xfrName (name_of nl) False w = (Inr (), w\<lparr>w_content := w_content w @ encode nl, w_namepositions := w_namepositions w @ []\<rparr>)"
    using True by (simp add: pw_xfrName_def pw_append_def encode_def)
  then show ?thesis by (intro exI [of _ False]) simp
next
  case False
  then show ?thesis using assms(2)
    by (intro exI [of _ "length (w_content w) < maxCompressionOffset"]) (simp add: pw_xfrName_def pw_append_def Let_def)
qed

lemma bindC_step: "m s = (Inr a, s1) \<Longrightarrow> bindC m f s = f a s1"
  by (simp add: bindC_def)

lemma set_truncatemarker: "w_inv (w\<lparr>w_truncatemarker := n\<rparr>) = w_inv w"
proof -
  have "w_free (w\<lparr>w_truncatemarker := n\<rparr>) = w_free w" by (rule ext) (simp add: w_free_def)
  then show ?thesis by (simp add: w_inv_def)
qed

lemma question_written:
  assumes "pw_init (name_of ql) qtype qclass opcode = Inr w" "valid_labels ql"
  shows "w_inv w \<and> qname_at w \<and> w_sor w = 0 \<and> w_qname w = name_of ql \<and> question_at w ql qtype qclass (length (w_content w)) \<and>
    header_in w = fresh_header opcode"
proof -
  define w0 where "w0 = \<lparr>w_namepositions = [], w_qname = name_of ql, w_content = dnsheader_bytes (fresh_header opcode), w_sor = 0,
      w_rollbackmarker = 0, w_truncatemarker = 0, w_recordplace = QUESTION, w_canonic = False, w_lowerCase = False, w_compress = False\<rparr>"
  have w0: "w_sor w0 = 0" "w_qname w0 = name_of ql" "w_content w0 = dnsheader_bytes (fresh_header opcode)" "\<not> w_lowerCase w0"
    "length (w_content w0) = 12" by (simp_all add: w0_def dnsheader_bytes_def to_be16_def)
  have inv0: "w_inv w0" by (simp add: w_inv_def w0_def dnsheader_bytes_def to_be16_def)
  obtain b where name: "pw_xfrName (name_of ql) False w0 = (Inr (), w0\<lparr>w_content := w_content w0 @ encode ql,
      w_namepositions := w_namepositions w0 @ (if b then [length (w_content w0)] else [])\<rparr>)"
    using uncompressed_name [OF assms(2) w0(4)] by blast
  define wn where "wn = w0\<lparr>w_content := w_content w0 @ encode ql, w_namepositions := w_namepositions w0 @ (if b then [length (w_content w0)] else [])\<rparr>"
  have nw: "name_written w0 wn ql ql 0" using assms(2) wn_def by (intro write_whole [OF inv0, where b = b]) (simp_all add: valid_labels_def)
  let ?bs = "to_be16 qtype @ to_be16 qclass"
  define wq where "wq = wn\<lparr>w_content := w_content wn @ ?bs\<rparr>"
  have w: "qtype \<le> 65535" "qclass \<le> 65535" "w = wq\<lparr>w_truncatemarker := length (w_content wq)\<rparr>"
    using assms(1)
    unfolding pw_init_def Let_def fresh_header_def [symmetric] w0_def [symmetric] bindC_step [of "pw_xfrName _ _", OF name] wn_def [symmetric]
    by (auto simp: pw_xfr16BitInt_def pw_append_def wq_def split: if_splits)
  have inv: "w_inv wn" "name_at wn 12 (length (w_content wn)) ql"
    using name_good [OF nw inv0] written_name_at [OF nw inv0] w0(5) by (simp_all add: good_step_def)
  have gq: "good_step wn wq" "bytes_at wq (length (w_content wn)) ?bs"
    unfolding wq_def using append_good [OF inv(1)] appended_at [OF inv(1)] by blast+
  have k: "keeps_spelling wq w" using w(3) by (simp add: keeps_spelling_def w_free_def)
  then have kn: "keeps_spelling wn w" using gq(1) keeps_spelling_trans by (auto simp: good_step_def)
  have "w_inv wq" using gq(1) unfolding good_step_def by blast
  then have "w_inv w" unfolding w(3) by (simp only: set_truncatemarker)
  moreover have "qname_at w"
  proof -
    have "w_free wn = w_free w0" by (rule ext) (simp add: w_free_def wn_def)
    then have "\<exists>ps. spell (w_free wn) (w_content wn) 12 12 ps ql 0" using nw w0(5) by (simp add: name_written_def)
    then have "\<exists>ps. spell (w_free w) (w_content w) 12 12 ps ql 0" using keeps_spellingD [OF kn] by blast
    moreover have "w_qname w = name_of ql" using w(3) w0(2) by (simp add: wq_def wn_def)
    ultimately show ?thesis using assms(2) unfolding qname_at_def by blast
  qed
  moreover have "length (w_content w) = length (w_content wn) + 4" using w(3) by (simp add: wq_def)
  then have "question_at w ql qtype qclass (length (w_content w))"
    unfolding question_at_def using name_at_keeps [OF inv(2) kn] bytes_at_keeps [OF gq(2) k] w(1,2)
    by (intro conjI exI [of _ "length (w_content wn)"]) simp_all
  moreover have "header_in w = fresh_header opcode"
    using dnsheader_of_bytes [of "fresh_header opcode"] w(3) w0(3) by (simp add: header_in_def wq_def wn_def) (simp add: fresh_header_def dnsheader_ok_def)
  ultimately show ?thesis using w(3) w0(1,2) by (simp add: wq_def wn_def)
qed

text \<open>Changing the header touches no name and no record.\<close>

lemma header_edit:
  assumes "w_inv w" "dnsheader_ok (f (header_in w))"
  shows "good_step w (snd (pw_header f w)) \<and> header_in (snd (pw_header f w)) = f (header_in w) \<and> w_sor (snd (pw_header f w)) = w_sor w \<and>
    length (w_content (snd (pw_header f w))) = length (w_content w)"
proof -
  have len: "12 \<le> length (w_content w)" using assms(1) by (simp add: w_inv_def)
  have "good_step w (w\<lparr>w_content := set_header f (w_content w)\<rparr>)"
    using assms(1) len by (intro good_stepI) (auto simp: keeps_spelling_def set_header_length set_header_nth w_free_def w_inv_def)
  then show ?thesis using header_set [OF len, of f] assms(2) set_header_length [OF len] by (simp add: pw_header_def putC_def header_in_def)
qed

end
