(* ===== verification/Parser.thy ===== *)
theory Parser
  imports Content
begin

text \<open>
  The message parser \<^verbatim>\<open>MOADNSParser\<close> of \<^verbatim>\<open>pdns/dnsparser.cc\<close>: its state, the loops of \<^verbatim>\<open>init\<close> over the questions and the
  records, and the treatment of a packet that ends too early. The texts of the exceptions are
  given without the data that the source puts into them.
\<close>

section \<open>State\<close>

record MOADNSParser =
  mdp_header :: dnsheader
  mdp_qname :: DNSName
  mdp_qclass :: nat
  mdp_qtype :: nat
  mdp_answers :: "DNSRecord list"
  mdp_tsigPos :: nat

text \<open>The variables of \<^verbatim>\<open>init\<close>, which keep their values when an exception is caught.\<close>

record init_state =
  is_parser :: MOADNSParser
  is_reader :: PacketReader
  is_n :: nat
  is_seenTSIG :: bool
  is_validPacket :: bool

definition on_reader :: "(PacketReader, 'a) call \<Rightarrow> (init_state, 'a) call" where
  "on_reader c = (\<lambda>s. case c (is_reader s) of (x, r) \<Rightarrow> (x, s\<lparr>is_reader := r\<rparr>))"

definition on_parser :: "(MOADNSParser \<Rightarrow> MOADNSParser) \<Rightarrow> (init_state, unit) call" where
  "on_parser f = putC (\<lambda>s. s\<lparr>is_parser := f (is_parser s)\<rparr>)"

section \<open>The loops\<close>

fun init_questions :: "nat \<Rightarrow> (init_state, unit) call" where
  "init_questions 0 = returnC ()"
| "init_questions (Suc k) =
     bindC (on_reader pr_getName) (\<lambda>name. bindC (on_parser (\<lambda>p. p\<lparr>mdp_qname := name\<rparr>)) (\<lambda>_.
     bindC (on_reader pr_get16BitInt) (\<lambda>qtype. bindC (on_parser (\<lambda>p. p\<lparr>mdp_qtype := qtype\<rparr>)) (\<lambda>_.
     bindC (on_reader pr_get16BitInt) (\<lambda>qclass. bindC (on_parser (\<lambda>p. p\<lparr>mdp_qclass := qclass\<rparr>)) (\<lambda>_.
       init_questions k))))))"

definition place_of :: "dnsheader \<Rightarrow> nat \<Rightarrow> Place" where
  "place_of h n =
     (if n < h_ancount h then ANSWER else if n < h_ancount h + h_nscount h then AUTHORITY else ADDITIONAL)"

text \<open>Records that a query has no use for are not parsed.\<close>

definition discarded :: "bool \<Rightarrow> nat \<Rightarrow> DNSRecord \<Rightarrow> bool" where
  "discarded query qtype dr \<longleftrightarrow>
     query \<and>
     \<not> (qtype = 251 \<and> dr_place dr = AUTHORITY \<and> dr_type dr = 6) \<and>
     (dr_place dr = ANSWER \<or> dr_place dr = AUTHORITY \<or>
      (dr_type dr \<noteq> 41 \<and> dr_type dr \<noteq> 250 \<and> dr_type dr \<noteq> 24 \<and> dr_type dr \<noteq> 249) \<or>
      ((dr_type dr = 250 \<or> dr_type dr = 24 \<or> dr_type dr = 249) \<and> dr_class dr \<noteq> QClass_ANY))"

text \<open>The checks that follow the content, and the end of a round.\<close>

definition check_record :: "DNSRecord \<Rightarrow> nat \<Rightarrow> nat \<Rightarrow> (init_state, unit) call" where
  "check_record dr recordStartPos recordContentStartPos = (\<lambda>s.
     if dr_place dr = ADDITIONAL \<and> is_seenTSIG s
     then (Inl (MOADNSException ''Packet has an unexpected record after a TSIG one.''), s)
     else
       let tsig = (dr_type dr = 250 \<and> dr_class dr = QClass_ANY) in
       if tsig \<and> (is_seenTSIG s \<or> dr_place dr \<noteq> ADDITIONAL)
       then (Inl (MOADNSException ''Packet has a TSIG record in an invalid position.''), s)
       else
         let s1 = (if tsig then s\<lparr>is_seenTSIG := True, is_parser := (is_parser s)\<lparr>mdp_tsigPos := recordStartPos\<rparr>\<rparr> else s) in
         if getPosition (is_reader s1) \<noteq> recordContentStartPos + dr_clen dr
         then (Inl (MOADNSException ''Packet has a record content that does not end on the record boundary''), s1)
         else (Inr (), s1\<lparr>is_parser := (is_parser s1)\<lparr>mdp_answers := mdp_answers (is_parser s1) @ [dr]\<rparr>\<rparr>))"

definition init_record :: "bool \<Rightarrow> (init_state, unit) call" where
  "init_record query = (\<lambda>s.
     let header = mdp_header (is_parser s); place = place_of header (is_n s); recordStartPos = getPosition (is_reader s) in
     bindC (on_reader pr_getName) (\<lambda>name.
     bindC (on_reader getDnsrecordheader) (\<lambda>ah s.
       let dr = \<lparr>dr_name = name, dr_type = rh_type ah, dr_class = rh_class ah, dr_ttl = rh_ttl ah, dr_clen = rh_clen ah,
                 dr_place = place, dr_content = None\<rparr>;
           recordContentStartPos = getPosition (is_reader s) in
       bindC (if discarded query (mdp_qtype (is_parser s)) dr then on_reader (UnknownRecordContent_make (dr_clen dr))
              else on_reader (content_make dr (h_opcode header))) (\<lambda>content.
         check_record (dr\<lparr>dr_content := Some content\<rparr>) recordStartPos recordContentStartPos) s)) s)"

fun init_records :: "bool \<Rightarrow> nat \<Rightarrow> (init_state, unit) call" where
  "init_records query 0 = returnC ()"
| "init_records query (Suc k) =
     bindC (init_record query) (\<lambda>_. bindC (putC (\<lambda>s. s\<lparr>is_n := is_n s + 1\<rparr>)) (\<lambda>_. init_records query k))"

section \<open>The whole packet\<close>

text \<open>What a truncated packet leaves: the counts of the records that were read.\<close>

definition adjust_counts :: "nat \<Rightarrow> dnsheader \<Rightarrow> dnsheader" where
  "adjust_counts n h =
     (if n < h_ancount h then h\<lparr>h_ancount := n, h_nscount := 0, h_arcount := 0\<rparr>
      else if n < h_ancount h + h_nscount h then h\<lparr>h_nscount := n - h_ancount h, h_arcount := 0\<rparr>
      else h\<lparr>h_arcount := n - h_ancount h - h_nscount h\<rparr>)"

definition init_try :: "bool \<Rightarrow> (init_state, unit) call" where
  "init_try query =
     bindC (on_parser (\<lambda>p. p\<lparr>mdp_qtype := 0, mdp_qclass := 0\<rparr>)) (\<lambda>_ s.
       let header = mdp_header (is_parser s) in
       bindC (init_questions (h_qdcount header)) (\<lambda>_.
       bindC (putC (\<lambda>s. s\<lparr>is_validPacket := True, is_n := 0\<rparr>)) (\<lambda>_.
         init_records query (h_ancount header + h_nscount header + h_arcount header))) s)"

definition parser_start :: "bytes \<Rightarrow> MOADNSParser" where
  "parser_start packet = \<lparr>mdp_header = dnsheader_of packet, mdp_qname = DNSName [], mdp_qclass = 0, mdp_qtype = 0, mdp_answers = [], mdp_tsigPos = 0\<rparr>"

definition init_catch :: "unit result \<Rightarrow> init_state \<Rightarrow> MOADNSParser result" where
  "init_catch x s =
     (case x of
        Inr _ \<Rightarrow> Inr (is_parser s)
      | Inl (out_of_range what) \<Rightarrow>
          if is_validPacket s \<and> h_tc (mdp_header (is_parser s))
          then Inr ((is_parser s)\<lparr>mdp_header := adjust_counts (is_n s) (mdp_header (is_parser s))\<rparr>)
          else Inl (MOADNSException ''Error parsing packet, out of bounds'')
      | Inl e \<Rightarrow> Inl e)"

definition MOADNSParser_init :: "bool \<Rightarrow> bytes \<Rightarrow> nat \<Rightarrow> MOADNSParser result" where
  "MOADNSParser_init query packet pointerBudget =
     (if length packet < sizeof_dnsheader then Inl (MOADNSException ''Packet shorter than minimal header'')
      else
        let header = dnsheader_of packet in
        if h_opcode header \<noteq> Opcode_Query \<and> h_opcode header \<noteq> Opcode_Notify \<and> h_opcode header \<noteq> Opcode_Update
        then Inl (MOADNSException ''Can't parse non-query packet'')
        else if query \<and> h_qdcount header > 1 then Inl (MOADNSException ''Query with QD > 1'')
        else bindR (PacketReader_init packet sizeof_dnsheader False False) (\<lambda>pr0.
          let pr = (if pointerBudget \<noteq> 0 then setPointerBudget pointerBudget pr0 else pr0) in
          case init_try query \<lparr>is_parser = parser_start packet, is_reader = pr, is_n = 0, is_seenTSIG = False, is_validPacket = False\<rparr> of
            (x, s) \<Rightarrow> init_catch x s))"

definition mdp_hasEDNS :: "MOADNSParser \<Rightarrow> bool" where
  "mdp_hasEDNS p =
     (if h_arcount (mdp_header p) = 0 \<or> mdp_answers p = [] then False
      else \<exists>dr \<in> set (mdp_answers p). dr_place dr = ADDITIONAL \<and> dr_type dr = 41 \<and> DNSName_isRoot (dr_name dr))"

end
