(* ===== verification/MessageRead.thy ===== *)
theory MessageRead
  imports MessageWrite Parser
begin

text \<open>
  The parser reads back what the writer wrote: the question, and one record after the other,
  within the budget of compression pointers that the reader starts with.
\<close>

section \<open>The reader between records\<close>

definition reader_at :: "DNSPacketWriter \<Rightarrow> PacketReader \<Rightarrow> nat \<Rightarrow> bool" where
  "reader_at w r p \<longleftrightarrow> d_content r = w_content w \<and> d_pos r = p \<and> \<not> d_standalone r \<and> \<not> d_internal r \<and> length (w_content w) \<le> 65535 \<and>
     4 * (length (w_content w) - p) \<le> d_pointerBudget r \<and>
     (\<forall>q. p < q \<and> q \<le> length (w_content w) \<longrightarrow> isWithinRecordBoundaries r p q True)"

definition same_record :: "DNSRecord \<Rightarrow> DNSRecord \<Rightarrow> bool" where
  "same_record dr' dr \<longleftrightarrow> DNSName_eq (dr_name dr') (dr_name dr) \<and> dr_type dr' = dr_type dr \<and> dr_class dr' = dr_class dr \<and>
     dr_ttl dr' = dr_ttl dr \<and> dr_place dr' = dr_place dr \<and> (\<exists>c' c. dr_content dr' = Some c' \<and> dr_content dr = Some c \<and> same_content c' c)"

lemma name_read:
  assumes "name_at w p e nl" "valid_labels nl" "length nl \<le> s_maxPointersPerName" "d_content r = w_content w" "d_pos r = p" "\<not> d_standalone r"
    "isWithinRecordBoundaries r p e True" "11 \<le> d_pointerBudget r"
  shows "p < e \<and> (\<exists>n b. pr_getName r = (Inr n, r\<lparr>d_pos := e, d_pointerBudget := b\<rparr>) \<and> DNSName_eq n (name_of nl) \<and> d_pointerBudget r \<le> b + 11)"
proof -
  obtain ls k where w: "wire (w_content w) 12 0 p ls k e" "k \<le> s_maxPointersPerName" "map foldc ls = map foldc nl"
    using name_at_wire [OF assms(1,3)] by blast
  have v: "valid_labels ls" using valid_labels_fold_eq [OF w(3) assms(2)] .
  have "k \<le> d_pointerBudget r" using w(2) assms(8) by (simp add: s_maxPointersPerName_def)
  then obtain b where "pr_getName r = (Inr (name_of ls), r\<lparr>d_pos := e, d_pointerBudget := b\<rparr>)" "d_pointerBudget r \<le> b + 11"
    using getName_wire [of r ls k e] w v assms(4-7) by auto
  then show ?thesis using name_eq_fold [OF v assms(2) w(3)] wire_bounds [OF w(1)] by blast
qed

lemma bytes_at_nth: "bytes_at w p bs \<Longrightarrow> i < length bs \<Longrightarrow> w_content w ! (p + i) = bs ! i"
  by (simp add: bytes_at_def)

lemma bytes_at_end: "bytes_at w p bs \<Longrightarrow> p + length bs \<le> length (w_content w)"
  by (simp add: bytes_at_def)

section \<open>The header of a record\<close>

lemma header_read:
  assumes "d_content r = w_content w" "q \<le> length (w_content w)" "d_pos r + 10 \<le> q" "q - (d_pos r + 10) < 65536"
    "bytes_at w (d_pos r) (to_be16 t @ to_be16 c @ to_be32 ttl)" "bytes_at w (d_pos r + 8) (to_be16 (q - (d_pos r + 10)))"
    "t < 65536" "c < 65536" "ttl < 4294967296"
  shows "getDnsrecordheader r = (Inr \<lparr>rh_type = t, rh_class = c, rh_ttl = ttl, rh_clen = q - (d_pos r + 10)\<rparr>,
    r\<lparr>d_pos := d_pos r + 10, d_startrecordpos := d_pos r + 10, d_recordlen := q - (d_pos r + 10)\<rparr>)"
proof -
  let ?n = "q - (d_pos r + 10)" let ?p = "take 10 (drop (d_pos r) (d_content r))"
  have at: "bytes_at w (d_pos r) ((to_be16 t @ to_be16 c @ to_be32 ttl) @ to_be16 ?n)"
    using assms(5,6) unfolding bytes_at_append [of w "d_pos r"] by simp
  then have p: "?p = to_be16 t @ to_be16 c @ to_be32 ttl @ to_be16 ?n"
    using bytes_at_take [OF at] assms(1) by simp
  have read: "read_bytes 10 r = (Inr ?p, r\<lparr>d_pos := d_pos r + 10\<rparr>)" using assms(1-3) by (simp add: read_bytes_Inr)
  have "dnsrecordheader_of ?p = \<lparr>rh_type = t, rh_class = c, rh_ttl = ttl, rh_clen = ?n\<rparr>"
    unfolding p using assms(4,7,8,9) be16_digits be32_digits by (simp add: dnsrecordheader_of_def to_be16_def to_be32_def)
  then show ?thesis unfolding getDnsrecordheader_def bindC_def read using assms(1-3) by (simp add: Let_def)
qed

section \<open>A record\<close>

lemma content_make_kind:
  assumes "oc \<noteq> Opcode_Update" "dr_type dr' = dr_type dr" "dr_class dr' = dr_class dr"
  shows "content_make dr' oc = content_read (record_kind dr) (dr_clen dr')"
  using assms by (simp add: content_make_def content_read_def record_kind_def searchclass_def Let_def)

lemma record_read:
  assumes "record_at w p q dr" "record_ok dr" "reader_at w r p" "q \<le> length (w_content w)" "oc \<noteq> Opcode_Update"
  shows "\<exists>r1 e b name content. pr_getName r = (Inr name, r1) \<and>
    getDnsrecordheader r1 = (Inr \<lparr>rh_type = dr_type dr, rh_class = dr_class dr, rh_ttl = dr_ttl dr, rh_clen = q - (e + 10)\<rparr>,
      r\<lparr>d_pos := e + 10, d_pointerBudget := b, d_startrecordpos := e + 10, d_recordlen := q - (e + 10)\<rparr>) \<and>
    (\<exists>b'. content_read (record_kind dr) (q - (e + 10)) (r\<lparr>d_pos := e + 10, d_pointerBudget := b, d_startrecordpos := e + 10, d_recordlen := q - (e + 10)\<rparr>) =
      (Inr content, r\<lparr>d_pos := q, d_pointerBudget := b', d_startrecordpos := e + 10, d_recordlen := q - (e + 10)\<rparr>) \<and>
      4 * (length (w_content w) - q) \<le> b') \<and>
    p < e \<and> e + 10 \<le> q \<and> DNSName_eq name (dr_name dr) \<and> same_content content (the (dr_content dr))"
proof -
  obtain e where e: "head_at w p e dr" "e + 10 \<le> q" "q - (e + 10) < 65536" "bytes_at w (e + 8) (to_be16 (q - (e + 10)))"
    "content_at w (the (dr_content dr)) (e + 10) q" using assms(1) by (auto simp: record_at_def)
  obtain nl where nl: "dr_name dr = name_of nl" "valid_labels nl" "length nl \<le> s_maxPointersPerName" "name_at w p e nl"
    and head: "bytes_at w e (to_be16 (dr_type dr) @ to_be16 (dr_class dr) @ to_be32 (dr_ttl dr))" using e(1) by (auto simp: head_at_def)
  obtain c where c: "dr_content dr = Some c" "content_fits (record_kind dr) c" "dr_type dr < 65536" "dr_class dr < 65536" "dr_ttl dr < 4294967296"
    using assms(2) by (auto simp: record_ok_def)
  let ?len = "length (w_content w)"
  have r: "d_content r = w_content w" "d_pos r = p" "\<not> d_standalone r" "\<not> d_internal r" "?len \<le> 65535" "4 * (?len - p) \<le> d_pointerBudget r"
    using assms(3) by (simp_all add: reader_at_def)
  have "p < e" using nl(4) span_le by (auto simp: name_at_def)
  then have budget: "44 + 4 * (?len - q) \<le> d_pointerBudget r" and within: "isWithinRecordBoundaries r p e True"
    using r(6) assms(3,4) e(2) by (auto simp: reader_at_def)
  obtain n b where n: "pr_getName r = (Inr n, r\<lparr>d_pos := e, d_pointerBudget := b\<rparr>)" "DNSName_eq n (name_of nl)" "d_pointerBudget r \<le> b + 11"
    using name_read [OF nl(4,2,3) r(1,2,3) within] budget by auto
  let ?r1 = "r\<lparr>d_pos := e, d_pointerBudget := b\<rparr>"
  let ?r2 = "r\<lparr>d_pos := e + 10, d_pointerBudget := b, d_startrecordpos := e + 10, d_recordlen := q - (e + 10)\<rparr>"
  have h: "getDnsrecordheader ?r1 = (Inr \<lparr>rh_type = dr_type dr, rh_class = dr_class dr, rh_ttl = dr_ttl dr, rh_clen = q - (e + 10)\<rparr>, ?r2)"
    using header_read [of ?r1 w q "dr_type dr" "dr_class dr" "dr_ttl dr"] r(1) assms(4) e(2,3,4) head c(3-5) by simp
  have "reading w ?r2" using r assms(4) e(2) by (simp add: reading_def)
  moreover have "content_cost c \<le> b" using wire_content.cheap [OF c(2)] n(3) budget by simp
  ultimately obtain c' b' where c': "content_read (record_kind dr) (d_recordlen ?r2) ?r2 = (Inr c', ?r2\<lparr>d_pos := q, d_pointerBudget := b'\<rparr>)"
    "same_content c' c" "b \<le> b' + content_cost c"
    using wire_content.reads [of w c ?r2 q "record_kind dr"] e(2,5) c(1,2) by auto
  have "4 * (?len - q) \<le> b'" using c'(3) n(3) budget wire_content.cheap [OF c(2)] by linarith
  moreover have "content_read (record_kind dr) (q - (e + 10)) ?r2 =
      (Inr c', r\<lparr>d_pos := q, d_pointerBudget := b', d_startrecordpos := e + 10, d_recordlen := q - (e + 10)\<rparr>)" using c'(1) by simp
  ultimately show ?thesis using n(1,2) h nl(1) \<open>p < e\<close> e(2) c'(2) c(1) by (metis option.sel)
qed

section \<open>The loops of the parser\<close>

definition is_tsig :: "DNSRecord \<Rightarrow> bool" where
  "is_tsig dr \<longleftrightarrow> dr_type dr = 250 \<and> dr_class dr = QClass_ANY"

text \<open>A TSIG record is the last one, in the additional section.\<close>

fun tsig_last :: "DNSRecord list \<Rightarrow> bool" where
  "tsig_last [] \<longleftrightarrow> True"
| "tsig_last (dr # drs) \<longleftrightarrow> (is_tsig dr \<longrightarrow> drs = [] \<and> dr_place dr = ADDITIONAL) \<and> tsig_last drs"

lemma record_at_le: "record_at w p q dr \<Longrightarrow> p \<le> q"
  by (auto simp: record_at_def head_at_def name_at_def dest: span_le)

lemma records_at_le: "records_at w p q drs \<Longrightarrow> p \<le> q"
  by (induction drs arbitrary: p) (auto dest!: record_at_le intro: order_trans)

lemma reader_between:
  assumes "reader_at w r p" "e + 10 \<le> q" "4 * (length (w_content w) - q) \<le> b"
  shows "reader_at w (r\<lparr>d_pos := q, d_pointerBudget := b, d_startrecordpos := e + 10, d_recordlen := q - (e + 10)\<rparr>) q"
  using assms by (simp add: reader_at_def isWithinRecordBoundaries_def Let_def)

lemma init_record_reads:
  assumes "record_at w p q dr" "record_ok dr" "reader_at w (is_reader s) p" "q \<le> length (w_content w)"
    "h_opcode (mdp_header (is_parser s)) \<noteq> Opcode_Update" "place_of (mdp_header (is_parser s)) (is_n s) = dr_place dr"
    "\<not> is_seenTSIG s" "is_tsig dr \<longrightarrow> dr_place dr = ADDITIONAL"
  shows "\<exists>s' dr'. init_record False s = (Inr (), s') \<and> reader_at w (is_reader s') q \<and> is_n s' = is_n s \<and> is_seenTSIG s' = is_tsig dr \<and>
    mdp_header (is_parser s') = mdp_header (is_parser s) \<and> mdp_answers (is_parser s') = mdp_answers (is_parser s) @ [dr'] \<and>
    mdp_qname (is_parser s') = mdp_qname (is_parser s) \<and> mdp_qtype (is_parser s') = mdp_qtype (is_parser s) \<and>
    mdp_qclass (is_parser s') = mdp_qclass (is_parser s) \<and> same_record dr' dr"
proof -
  let ?r = "is_reader s"
  obtain r1 e b b' name content where
    n: "pr_getName ?r = (Inr name, r1)"
    and h: "getDnsrecordheader r1 = (Inr \<lparr>rh_type = dr_type dr, rh_class = dr_class dr, rh_ttl = dr_ttl dr, rh_clen = q - (e + 10)\<rparr>,
      ?r\<lparr>d_pos := e + 10, d_pointerBudget := b, d_startrecordpos := e + 10, d_recordlen := q - (e + 10)\<rparr>)"
    and c: "content_read (record_kind dr) (q - (e + 10)) (?r\<lparr>d_pos := e + 10, d_pointerBudget := b, d_startrecordpos := e + 10, d_recordlen := q - (e + 10)\<rparr>) =
      (Inr content, ?r\<lparr>d_pos := q, d_pointerBudget := b', d_startrecordpos := e + 10, d_recordlen := q - (e + 10)\<rparr>)"
      "4 * (length (w_content w) - q) \<le> b'"
    and e: "p < e" "e + 10 \<le> q" "DNSName_eq name (dr_name dr)" "same_content content (the (dr_content dr))"
    using record_read [OF assms(1-5)] by blast
  let ?r3 = "?r\<lparr>d_pos := q, d_pointerBudget := b', d_startrecordpos := e + 10, d_recordlen := q - (e + 10)\<rparr>"
  let ?raw = "\<lparr>dr_name = name, dr_type = dr_type dr, dr_class = dr_class dr, dr_ttl = dr_ttl dr, dr_clen = q - (e + 10),
      dr_place = dr_place dr, dr_content = None\<rparr>"
  let ?dr = "?raw\<lparr>dr_content := Some content\<rparr>"
  let ?s3 = "s\<lparr>is_reader := ?r3\<rparr>"
  have make: "content_make ?raw (h_opcode (mdp_header (is_parser s))) = content_read (record_kind dr) (q - (e + 10))"
    using content_make_kind [OF assms(5), of ?raw dr] by simp
  have 1: "on_reader pr_getName s = (Inr name, s\<lparr>is_reader := r1\<rparr>)" by (simp add: on_reader_def n)
  have 2: "on_reader getDnsrecordheader (s\<lparr>is_reader := r1\<rparr>) =
      (Inr \<lparr>rh_type = dr_type dr, rh_class = dr_class dr, rh_ttl = dr_ttl dr, rh_clen = q - (e + 10)\<rparr>,
       s\<lparr>is_reader := ?r\<lparr>d_pos := e + 10, d_pointerBudget := b, d_startrecordpos := e + 10, d_recordlen := q - (e + 10)\<rparr>\<rparr>)"
    by (simp add: on_reader_def h)
  have 3: "on_reader (content_make ?raw (h_opcode (mdp_header (is_parser s))))
      (s\<lparr>is_reader := ?r\<lparr>d_pos := e + 10, d_pointerBudget := b, d_startrecordpos := e + 10, d_recordlen := q - (e + 10)\<rparr>\<rparr>) = (Inr content, ?s3)"
    by (simp add: on_reader_def make c(1))
  have "init_record False s = check_record ?dr (d_pos ?r) (e + 10) ?s3"
    unfolding init_record_def Let_def
    by (simp add: bindC_step [of "on_reader _", OF 1] bindC_step [of "on_reader _", OF 2] bindC_step [of "on_reader _", OF 3] assms(6) discarded_def getPosition_def)
  then have run: "\<exists>s'. init_record False s = (Inr (), s') \<and> is_reader s' = ?r3 \<and> is_n s' = is_n s \<and> is_seenTSIG s' = is_tsig dr \<and>
      mdp_header (is_parser s') = mdp_header (is_parser s) \<and> mdp_answers (is_parser s') = mdp_answers (is_parser s) @ [?dr] \<and>
      mdp_qname (is_parser s') = mdp_qname (is_parser s) \<and> mdp_qtype (is_parser s') = mdp_qtype (is_parser s) \<and>
      mdp_qclass (is_parser s') = mdp_qclass (is_parser s)"
    using assms(7,8) e(2) by (simp add: check_record_def Let_def is_tsig_def getPosition_def)
  have "reader_at w ?r3 q" using reader_between [OF assms(3) e(2) c(2)] .
  moreover have "same_record ?dr dr" using e(3,4) assms(2) by (auto simp: same_record_def record_ok_def)
  ultimately show ?thesis using run by metis
qed

lemma init_records_reads:
  "records_at w p (length (w_content w)) drs \<Longrightarrow> \<forall>dr \<in> set drs. record_ok dr \<Longrightarrow> reader_at w (is_reader s) p \<Longrightarrow>
   h_opcode (mdp_header (is_parser s)) \<noteq> Opcode_Update \<Longrightarrow>
   map (place_of (mdp_header (is_parser s))) [is_n s..<is_n s + length drs] = map dr_place drs \<Longrightarrow> \<not> is_seenTSIG s \<Longrightarrow> tsig_last drs \<Longrightarrow>
   \<exists>s' drs'. init_records False (length drs) s = (Inr (), s') \<and> mdp_header (is_parser s') = mdp_header (is_parser s) \<and>
     mdp_qname (is_parser s') = mdp_qname (is_parser s) \<and> mdp_qtype (is_parser s') = mdp_qtype (is_parser s) \<and>
     mdp_qclass (is_parser s') = mdp_qclass (is_parser s) \<and>
     mdp_answers (is_parser s') = mdp_answers (is_parser s) @ drs' \<and> list_all2 same_record drs' drs"
proof (induction drs arbitrary: p s)
  case (Cons dr drs)
  obtain m where m: "record_at w p m dr" "records_at w m (length (w_content w)) drs" using Cons.prems(1) by auto
  have le: "m \<le> length (w_content w)" using records_at_le [OF m(2)] .
  have place: "place_of (mdp_header (is_parser s)) (is_n s) = dr_place dr"
    "map (place_of (mdp_header (is_parser s))) [Suc (is_n s)..<Suc (is_n s) + length drs] = map dr_place drs"
    using Cons.prems(5) upt_conv_Cons [of "is_n s" "is_n s + length (dr # drs)"] by (simp_all del: upt_Suc)
  obtain s1 dr' where s1: "init_record False s = (Inr (), s1)" "reader_at w (is_reader s1) m" "is_n s1 = is_n s" "is_seenTSIG s1 = is_tsig dr"
    "mdp_header (is_parser s1) = mdp_header (is_parser s)" "mdp_answers (is_parser s1) = mdp_answers (is_parser s) @ [dr']"
    "mdp_qname (is_parser s1) = mdp_qname (is_parser s)" "mdp_qtype (is_parser s1) = mdp_qtype (is_parser s)"
    "mdp_qclass (is_parser s1) = mdp_qclass (is_parser s)" "same_record dr' dr"
    using init_record_reads [OF m(1) _ Cons.prems(3) le Cons.prems(4) place(1) Cons.prems(6)] Cons.prems(2,7) by auto
  let ?s2 = "s1\<lparr>is_n := is_n s1 + 1\<rparr>"
  have rest: "\<exists>s' drs'. init_records False (length drs) ?s2 = (Inr (), s') \<and> mdp_header (is_parser s') = mdp_header (is_parser ?s2) \<and>
     mdp_qname (is_parser s') = mdp_qname (is_parser ?s2) \<and> mdp_qtype (is_parser s') = mdp_qtype (is_parser ?s2) \<and>
     mdp_qclass (is_parser s') = mdp_qclass (is_parser ?s2) \<and>
     mdp_answers (is_parser s') = mdp_answers (is_parser ?s2) @ drs' \<and> list_all2 same_record drs' drs"
  proof (cases "drs = []")
    case True
    then show ?thesis by simp
  next
    case False
    then have "\<not> is_tsig dr" using Cons.prems(7) by auto
    then show ?thesis using Cons.prems(2,4,7) m(2) s1 place(2) by (intro Cons.IH) auto
  qed
  then obtain s' drs' where s': "init_records False (length drs) ?s2 = (Inr (), s')" "mdp_header (is_parser s') = mdp_header (is_parser s)"
    "mdp_qname (is_parser s') = mdp_qname (is_parser s)" "mdp_qtype (is_parser s') = mdp_qtype (is_parser s)"
    "mdp_qclass (is_parser s') = mdp_qclass (is_parser s)"
    "mdp_answers (is_parser s') = mdp_answers (is_parser s) @ [dr'] @ drs'" "list_all2 same_record drs' drs"
    using s1(5-9) by auto
  have "init_records False (length (dr # drs)) s = (Inr (), s')" using s1(1) s'(1) by (simp add: bindC_def putC_def)
  moreover have "list_all2 same_record (dr' # drs') (dr # drs)" using s1(10) s'(7) by simp
  ultimately show ?case using s' by (intro exI [of _ s'] exI [of _ "dr' # drs'"]) simp
qed simp

end
