(* ===== verification/ParserLaws.thy ===== *)
theory ParserLaws
  imports Parser "HOL-Library.Code_Target_Nat"
begin

text \<open>What holds after \<^verbatim>\<open>MOADNSParser::init\<close>, for any packet: the counts in the header are those of the records that were parsed.\<close>

section \<open>What a round of the loop changes\<close>

lemma on_reader_eq: "on_reader c s = (fst (c (is_reader s)), s\<lparr>is_reader := snd (c (is_reader s))\<rparr>)"
  by (simp add: on_reader_def split: prod.split)

lemma on_reader_keeps:
  "on_reader c s = (x, s') \<Longrightarrow> is_parser s' = is_parser s \<and> is_n s' = is_n s \<and> is_validPacket s' = is_validPacket s \<and> is_seenTSIG s' = is_seenTSIG s"
  by (auto simp: on_reader_eq)

lemma bindC_cases:
  assumes "bindC m f s = (x, s')"
  obtains e where "x = Inl e" "m s = (Inl e, s')" | a s1 where "m s = (Inr a, s1)" "f a s1 = (x, s')"
  using assms by (auto simp: bindC_def split: prod.splits sum.splits)

text \<open>Calls that keep a quantity of the state, whether they throw or not.\<close>

definition keeps :: "('s \<Rightarrow> 'q) \<Rightarrow> ('s, 'a) call \<Rightarrow> bool" where
  "keeps q c \<longleftrightarrow> (\<forall>s. q (snd (c s)) = q s)"

lemma keeps_bind: "keeps q m \<Longrightarrow> (\<And>a. keeps q (f a)) \<Longrightarrow> keeps q (bindC m f)"
  unfolding keeps_def by (auto simp: bindC_def split: prod.split sum.split) (metis snd_conv)+

lemma keepsD: "keeps q c \<Longrightarrow> c s = (x, s') \<Longrightarrow> q s' = q s"
  unfolding keeps_def by (metis snd_conv)

definition questions_frame :: "init_state \<Rightarrow> dnsheader \<times> nat \<times> bool \<times> DNSRecord list \<times> bool \<times> nat" where
  "questions_frame s = (mdp_header (is_parser s), is_n s, is_validPacket s, mdp_answers (is_parser s), is_seenTSIG s, mdp_tsigPos (is_parser s))"

lemma on_reader_frame: "keeps questions_frame (on_reader c)"
  by (simp add: keeps_def on_reader_eq questions_frame_def)

lemma on_parser_frame:
  "(\<And>p. mdp_header (f p) = mdp_header p \<and> mdp_answers (f p) = mdp_answers p \<and> mdp_tsigPos (f p) = mdp_tsigPos p) \<Longrightarrow>
   keeps questions_frame (on_parser f)"
  by (simp add: keeps_def on_parser_def putC_def questions_frame_def)

lemma questions_keeps: "keeps questions_frame (init_questions k)"
proof (induction k)
  case (Suc k)
  then show ?case unfolding init_questions.simps by (intro keeps_bind on_reader_frame on_parser_frame) simp_all
qed (simp add: keeps_def)

lemma init_try_eq:
  "init_try query s =
    (let h = mdp_header (is_parser s) in
     bindC (init_questions (h_qdcount h)) (\<lambda>_. bindC (putC (\<lambda>s. s\<lparr>is_validPacket := True, is_n := 0\<rparr>)) (\<lambda>_.
       init_records query (h_ancount h + h_nscount h + h_arcount h))) (s\<lparr>is_parser := (is_parser s)\<lparr>mdp_qtype := 0, mdp_qclass := 0\<rparr>\<rparr>))"
  by (simp add: init_try_def on_parser_def putC_def bindC_def [of "\<lambda>s. (Inr (), s\<lparr>is_parser := _ s\<rparr>)"] Let_def)

lemma check_record_keeps:
  "check_record dr a b s = (x, s') \<Longrightarrow>
   mdp_header (is_parser s') = mdp_header (is_parser s) \<and> is_n s' = is_n s \<and> is_validPacket s' = is_validPacket s \<and>
   mdp_answers (is_parser s') = mdp_answers (is_parser s) @ (case x of Inl _ \<Rightarrow> [] | Inr _ \<Rightarrow> [dr])"
  by (auto simp: check_record_def Let_def split: if_splits)

lemma init_record_keeps:
  assumes "init_record query s = (x, s')"
  shows "mdp_header (is_parser s') = mdp_header (is_parser s) \<and> is_n s' = is_n s \<and> is_validPacket s' = is_validPacket s \<and>
    map dr_place (mdp_answers (is_parser s')) = map dr_place (mdp_answers (is_parser s)) @
      (case x of Inl _ \<Rightarrow> [] | Inr _ \<Rightarrow> [place_of (mdp_header (is_parser s)) (is_n s)])"
  using assms unfolding init_record_def Let_def
proof (cases rule: bindC_cases)
  case (1 e)
  then show ?thesis using on_reader_keeps [OF 1(2)] by simp
next
  case (2 name s1)
  note s1 = on_reader_keeps [OF 2(1)]
  from 2(2) show ?thesis
  proof (cases rule: bindC_cases)
    case (1 e)
    then show ?thesis using s1 on_reader_keeps [OF 1(2)] by simp
  next
    case (2 ah s2)
    note s2 = on_reader_keeps [OF 2(1)]
    from 2(2) show ?thesis
    proof (cases rule: bindC_cases)
      case (1 e)
      have "is_parser s' = is_parser s2 \<and> is_n s' = is_n s2 \<and> is_validPacket s' = is_validPacket s2"
        using 1(2) unfolding if_distrib [of on_reader, symmetric] by (auto dest: on_reader_keeps)
      then show ?thesis using s1 s2 1(1) by simp
    next
      case (2 content s3)
      have "is_parser s3 = is_parser s2 \<and> is_n s3 = is_n s2 \<and> is_validPacket s3 = is_validPacket s2"
        using 2(1) unfolding if_distrib [of on_reader, symmetric] by (auto dest: on_reader_keeps)
      then show ?thesis using s1 s2 check_record_keeps [OF 2(2)] by (auto split: sum.split)
    qed
  qed
qed

text \<open>The records read so far stand in the sections of their places.\<close>

definition placed :: "dnsheader \<Rightarrow> init_state \<Rightarrow> bool" where
  "placed h s \<longleftrightarrow> mdp_header (is_parser s) = h \<and> map dr_place (mdp_answers (is_parser s)) = map (place_of h) [0..<is_n s]"

lemma init_records_placed:
  "init_records query k s = (x, s') \<Longrightarrow> placed h s \<Longrightarrow>
   placed h s' \<and> is_validPacket s' = is_validPacket s \<and> (case x of Inl _ \<Rightarrow> is_n s' < is_n s + k | Inr _ \<Rightarrow> is_n s' = is_n s + k)"
proof (induction k arbitrary: s)
  case (Suc k)
  from Suc.prems(1) show ?case
    unfolding init_records.simps
  proof (cases rule: bindC_cases)
    case (1 e)
    then show ?thesis using init_record_keeps [OF 1(2)] Suc.prems(2) by (auto simp: placed_def)
  next
    case (2 u s1)
    let ?s = "s1\<lparr>is_n := is_n s1 + 1\<rparr>"
    have rest: "init_records query k ?s = (x, s')" using 2(2) by (simp add: putC_def bindC_def)
    have "placed h ?s" using init_record_keeps [OF 2(1)] Suc.prems(2) by (simp add: placed_def)
    then show ?thesis using Suc.IH [OF rest] init_record_keeps [OF 2(1)] by (auto split: sum.splits)
  qed
qed (auto split: sum.splits)

section \<open>Sections\<close>

definition sections :: "dnsheader \<Rightarrow> Place list" where
  "sections h = replicate (h_ancount h) ANSWER @ replicate (h_nscount h) AUTHORITY @ replicate (h_arcount h) ADDITIONAL"

lemma place_of_take: "n \<le> h_ancount h + h_nscount h + h_arcount h \<Longrightarrow> map (place_of h) [0..<n] = take n (sections h)"
  by (rule nth_equalityI) (auto simp: sections_def place_of_def nth_append)

lemma sections_adjust: "n \<le> h_ancount h + h_nscount h + h_arcount h \<Longrightarrow> take n (sections h) = sections (adjust_counts n h)"
  by (auto simp: sections_def adjust_counts_def min_def)

section \<open>Properties\<close>

lemma init_try_placed:
  assumes "init_try query \<lparr>is_parser = parser_start packet, is_reader = r, is_n = 0, is_seenTSIG = False, is_validPacket = False\<rparr> = (x, s)"
    "h = dnsheader_of packet"
  shows "mdp_header (is_parser s) = h \<and> (is_validPacket s \<or> (\<exists>e. x = Inl e)) \<and> (is_validPacket s \<longrightarrow> placed h s \<and>
    (case x of Inl _ \<Rightarrow> is_n s < h_ancount h + h_nscount h + h_arcount h | Inr _ \<Rightarrow> is_n s = h_ancount h + h_nscount h + h_arcount h))"
proof -
  let ?s0 = "\<lparr>is_parser = parser_start packet, is_reader = r, is_n = 0, is_seenTSIG = False, is_validPacket = False\<rparr>"
  have h: "mdp_header (is_parser ?s0) = h" using assms(2) by (simp add: parser_start_def)
  have "bindC (init_questions (h_qdcount h)) (\<lambda>_. bindC (putC (\<lambda>s. s\<lparr>is_validPacket := True, is_n := 0\<rparr>)) (\<lambda>_.
      init_records query (h_ancount h + h_nscount h + h_arcount h))) ?s0 = (x, s)"
    using assms by (simp add: init_try_eq Let_def parser_start_def)
  then show ?thesis
  proof (cases rule: bindC_cases)
    case (1 e)
    then have "questions_frame s = questions_frame ?s0" by (intro keepsD [OF questions_keeps])
    then show ?thesis using h 1 by (simp add: questions_frame_def)
  next
    case (2 u s1)
    then have "questions_frame s1 = questions_frame ?s0" by (intro keepsD [OF questions_keeps])
    then have p: "placed h (s1\<lparr>is_validPacket := True, is_n := 0\<rparr>)" using h by (simp add: questions_frame_def placed_def parser_start_def)
    have "init_records query (h_ancount h + h_nscount h + h_arcount h) (s1\<lparr>is_validPacket := True, is_n := 0\<rparr>) = (x, s)"
      using 2(2) by (simp add: putC_def bindC_def)
    from init_records_placed [OF this p] show ?thesis by (cases x) (simp_all add: placed_def)
  qed
qed

lemma init_cases:
  assumes "MOADNSParser_init query packet budget = Inr mdp"
  obtains r x s where "init_try query \<lparr>is_parser = parser_start packet, is_reader = r, is_n = 0, is_seenTSIG = False, is_validPacket = False\<rparr> = (x, s)"
    "init_catch x s = Inr mdp"
  using assms by (auto simp: MOADNSParser_init_def Let_def bindR_Inr_iff split: if_splits prod.splits)

text \<open>
  Claim C2 (the header of a parsed message is true): whatever bytes come in, when the parser accepts
  them the records are exactly as many as the counts in its header say, and the first of them
  are those of the answer section, then of the authority section, then of the additional
  section. For a packet that does not have the truncation bit the counts are those of the packet; for a
  truncated packet they are lowered to what could be read.
\<close>

theorem MOADNSParser_counts:
  assumes "MOADNSParser_init query packet budget = Inr mdp"
  shows "map dr_place (mdp_answers mdp) =
      replicate (h_ancount (mdp_header mdp)) ANSWER @ replicate (h_nscount (mdp_header mdp)) AUTHORITY @ replicate (h_arcount (mdp_header mdp)) ADDITIONAL \<and>
    (mdp_header mdp = dnsheader_of packet \<or>
     h_tc (dnsheader_of packet) \<and> (\<exists>n < h_ancount (dnsheader_of packet) + h_nscount (dnsheader_of packet) + h_arcount (dnsheader_of packet).
       n = length (mdp_answers mdp) \<and> mdp_header mdp = adjust_counts n (dnsheader_of packet)))"
proof -
  let ?h = "dnsheader_of packet"
  obtain r x s where run: "init_try query \<lparr>is_parser = parser_start packet, is_reader = r, is_n = 0, is_seenTSIG = False, is_validPacket = False\<rparr> = (x, s)"
    and res: "init_catch x s = Inr mdp"
    by (rule init_cases [OF assms])
  note p = init_try_placed [OF run refl]
  have count: "length (mdp_answers (is_parser s)) = is_n s" if "placed ?h s"
    using that unfolding placed_def by (metis length_map length_upt diff_zero)
  show ?thesis
  proof (cases x)
    case (Inr u)
    then have "mdp = is_parser s" using res by (simp add: init_catch_def)
    then show ?thesis using p Inr place_of_take [of "is_n s" ?h] by (auto simp: placed_def sections_def)
  next
    case (Inl e)
    then have m: "is_validPacket s" "h_tc ?h" "mdp = (is_parser s)\<lparr>mdp_header := adjust_counts (is_n s) ?h\<rparr>"
      using res p by (auto simp: init_catch_def split: exn.splits if_splits)
    then have "placed ?h s" "is_n s < h_ancount ?h + h_nscount ?h + h_arcount ?h" using p Inl by auto
    then show ?thesis using m count place_of_take [of "is_n s" ?h] sections_adjust [of "is_n s" ?h]
      by (auto simp: placed_def sections_def)
  qed
qed

text \<open>Two answers announced, one there, with the truncation bit.\<close>

definition cut_packet :: bytes where
  "cut_packet = [0, 0, 2, 0, 0, 0, 0, 2, 0, 0, 0, 0, 0, 0, 1, 0, 1, 0, 0, 0, 60, 0, 4, 192, 0, 2, 1]"

theorem MOADNSParser_counts_witness:
  "\<exists>mdp. MOADNSParser_init False cut_packet 0 = Inr mdp \<and> h_ancount (mdp_header mdp) = 1 \<and> map dr_place (mdp_answers mdp) = [ANSWER]"
proof -
  have "(case MOADNSParser_init False cut_packet 0 of Inl e \<Rightarrow> False
      | Inr mdp \<Rightarrow> h_ancount (mdp_header mdp) = 1 \<and> h_nscount (mdp_header mdp) = 0 \<and> h_arcount (mdp_header mdp) = 0)" by code_simp
  then obtain mdp where mdp: "MOADNSParser_init False cut_packet 0 = Inr mdp" "h_ancount (mdp_header mdp) = 1"
    "h_nscount (mdp_header mdp) = 0" "h_arcount (mdp_header mdp) = 0"
    by (cases "MOADNSParser_init False cut_packet 0") auto
  from MOADNSParser_counts [OF mdp(1), THEN conjunct1] have "map dr_place (mdp_answers mdp) = [ANSWER]" unfolding mdp(2-4) by simp
  with mdp(1,2) show ?thesis by (intro exI [of _ mdp] conjI)
qed

end
