(* ===== verification/Message.thy ===== *)
theory Message
  imports MessageRead ParserLaws
begin

text \<open>
  A message from end to end: the question and the records that \<^verbatim>\<open>DNSPacketWriter\<close> writes, with compressed names,
  counts and record lengths, are the ones that \<^verbatim>\<open>MOADNSParser\<close> gives for the bytes.
\<close>

section \<open>The question\<close>

definition fresh_reader :: "bytes \<Rightarrow> PacketReader" where
  "fresh_reader packet = \<lparr>d_pointerBudget = length packet * s_MaxPointersPerByte, d_pos = 12, d_startrecordpos = 12,
     d_recordlen = length packet, d_internal = False, d_standalone = False, d_content = packet\<rparr>"

lemma question_read:
  assumes "question_at w ql qtype qclass p" "valid_labels ql" "length ql \<le> s_maxPointersPerName" "length (w_content w) \<le> 65535"
    "is_reader s = fresh_reader (w_content w)"
  shows "\<exists>s' r n. init_questions 1 s = (Inr (), s') \<and> s' = s\<lparr>is_reader := r, is_parser := (is_parser s)\<lparr>mdp_qname := n, mdp_qtype := qtype, mdp_qclass := qclass\<rparr>\<rparr> \<and>
    reader_at w r p \<and> DNSName_eq n (name_of ql)"
proof -
  let ?r = "fresh_reader (w_content w)" let ?len = "length (w_content w)"
  obtain e where e: "name_at w 12 e ql" "bytes_at w e (to_be16 qtype @ to_be16 qclass)" "p = e + 4" "qtype < 65536" "qclass < 65536"
    using assms(1) by (auto simp: question_at_def)
  have end_: "e + 4 \<le> ?len" using bytes_at_end [OF e(2)] by simp
  have "12 < e" using e(1) span_le by (auto simp: name_at_def)
  then have "isWithinRecordBoundaries ?r 12 e True" "11 \<le> d_pointerBudget ?r"
    using end_ by (simp_all add: isWithinRecordBoundaries_def fresh_reader_def Let_def s_MaxPointersPerByte_def)
  then obtain n b where n: "pr_getName ?r = (Inr n, ?r\<lparr>d_pos := e, d_pointerBudget := b\<rparr>)" "DNSName_eq n (name_of ql)" "d_pointerBudget ?r \<le> b + 11"
    using name_read [OF e(1) assms(2,3), of ?r] by (auto simp: fresh_reader_def)
  let ?r1 = "?r\<lparr>d_pos := e, d_pointerBudget := b\<rparr>"
  have a: "ahead ?r1 (to_be16 qtype)" "ahead (skip_to ?r1 2) (to_be16 qclass)"
    using bytes_at_take [OF e(2)] end_ \<open>12 < e\<close> ahead_append [of ?r1 "to_be16 qtype" "to_be16 qclass"] by (simp_all add: ahead_def fresh_reader_def)
  let ?r2 = "?r\<lparr>d_pos := e + 4, d_pointerBudget := b\<rparr>"
  have reads: "pr_get16BitInt ?r1 = (Inr qtype, skip_to ?r1 2)" "pr_get16BitInt (skip_to ?r1 2) = (Inr qclass, ?r2)"
    using ahead_get16 [OF a(1) e(4)] ahead_get16 [OF a(2) e(5)] by (simp_all add: skip_to_def)
  have "init_questions 1 s = (Inr (), s\<lparr>is_reader := ?r2, is_parser := (is_parser s)\<lparr>mdp_qname := n, mdp_qtype := qtype, mdp_qclass := qclass\<rparr>\<rparr>)"
    using n(1) reads assms(5) by (simp add: bindC_def on_reader_def on_parser_def putC_def)
  moreover have "reader_at w ?r2 p"
    using n(3) end_ \<open>12 < e\<close> e(3) assms(4)
    by (auto simp: reader_at_def fresh_reader_def isWithinRecordBoundaries_def Let_def s_MaxPointersPerByte_def)
  ultimately show ?thesis using n(2) by blast
qed

section \<open>Sections and counts\<close>

fun place_rank :: "Place \<Rightarrow> nat" where
  "place_rank QUESTION = 0"
| "place_rank ANSWER = 1"
| "place_rank AUTHORITY = 2"
| "place_rank ADDITIONAL = 3"

definition in_place :: "Place \<Rightarrow> DNSRecord list \<Rightarrow> nat" where
  "in_place place drs = length (filter (\<lambda>dr. dr_place dr = place) drs)"

definition with_counts :: "DNSRecord list \<Rightarrow> dnsheader \<Rightarrow> dnsheader" where
  "with_counts drs h = h\<lparr>h_ancount := in_place ANSWER drs, h_nscount := in_place AUTHORITY drs, h_arcount := in_place ADDITIONAL drs\<rparr>"

lemma count_all_counts:
  assumes "\<forall>dr \<in> set drs. dr_place dr \<noteq> QUESTION"
  shows "h_ancount h + length drs < 65536 \<Longrightarrow> h_nscount h + length drs < 65536 \<Longrightarrow> h_arcount h + length drs < 65536 \<Longrightarrow>
    count_all drs h = h\<lparr>h_ancount := h_ancount h + in_place ANSWER drs, h_nscount := h_nscount h + in_place AUTHORITY drs,
      h_arcount := h_arcount h + in_place ADDITIONAL drs\<rparr>"
  using assms
proof (induction drs arbitrary: h)
  case (Cons dr drs)
  then show ?case by (cases "dr_place dr") (auto simp: count_all_def count_record_def in_place_def)
qed (simp add: count_all_def in_place_def)

lemma sorted_places:
  "sorted (map (place_rank \<circ> dr_place) drs) \<Longrightarrow> \<forall>dr \<in> set drs. dr_place dr \<noteq> QUESTION \<Longrightarrow>
   map dr_place drs = replicate (in_place ANSWER drs) ANSWER @ replicate (in_place AUTHORITY drs) AUTHORITY @ replicate (in_place ADDITIONAL drs) ADDITIONAL"
proof (induction drs)
  case (Cons dr drs)
  have none: "in_place place drs = 0" if "place_rank place < place_rank (dr_place dr)" for place
    using Cons.prems(1) that by (fastforce simp: in_place_def filter_empty_conv)
  show ?case using Cons none [of ANSWER] none [of AUTHORITY] by (cases "dr_place dr") (simp_all add: in_place_def)
qed (simp add: in_place_def)

lemma places_in_sections:
  assumes "sorted (map (place_rank \<circ> dr_place) drs)" "\<forall>dr \<in> set drs. dr_place dr \<noteq> QUESTION"
  shows "map (place_of (with_counts drs h)) [0..<length drs] = map dr_place drs"
    "in_place ANSWER drs + in_place AUTHORITY drs + in_place ADDITIONAL drs = length drs"
proof -
  have "length (map dr_place drs) = in_place ANSWER drs + in_place AUTHORITY drs + in_place ADDITIONAL drs"
    unfolding sorted_places [OF assms] by simp
  then show len: "in_place ANSWER drs + in_place AUTHORITY drs + in_place ADDITIONAL drs = length drs" by simp
  show "map (place_of (with_counts drs h)) [0..<length drs] = map dr_place drs"
    unfolding sorted_places [OF assms] by (rule nth_equalityI) (auto simp: with_counts_def place_of_def nth_append len [symmetric])
qed

lemma record_at_longer: "record_at w p q dr \<Longrightarrow> p + 11 \<le> q"
  by (auto simp: record_at_def head_at_def name_at_def dest!: span_le)

lemma records_at_longer: "records_at w p q drs \<Longrightarrow> p + 11 * length drs \<le> q"
proof (induction drs arbitrary: p)
  case (Cons dr drs)
  then obtain m where "record_at w p m dr" "records_at w m q drs" by auto
  then show ?case using Cons.IH [of m] record_at_longer [of w p m dr] by simp
qed simp

section \<open>The parser on a written message\<close>

lemma written_message_parsed:
  assumes "all_written w h p drs" "question_at w ql qtype qclass p" "valid_labels ql" "length ql \<le> s_maxPointersPerName"
    "length (w_content w) \<le> 65535" "\<forall>dr \<in> set drs. record_ok dr" "sorted (map (place_rank \<circ> dr_place) drs)" "tsig_last drs"
    "h_qdcount h = 1" "h_ancount h = 0" "h_nscount h = 0" "h_arcount h = 0" "h_opcode h \<in> {Opcode_Query, Opcode_Notify}"
  shows "\<exists>mdp. MOADNSParser_init False (w_content w) 0 = Inr mdp \<and> mdp_header mdp = with_counts drs h \<and>
    DNSName_eq (mdp_qname mdp) (name_of ql) \<and> mdp_qtype mdp = qtype \<and> mdp_qclass mdp = qclass \<and> list_all2 same_record (mdp_answers mdp) drs"
proof -
  let ?pk = "w_content w" let ?h = "with_counts drs h"
  have w: "w_inv w" "records_at w p (length ?pk) drs" "header_in w = count_all drs h" using assms(1) by (auto simp: all_written_def)
  have place: "\<forall>dr \<in> set drs. dr_place dr \<noteq> QUESTION" using assms(6) by (auto simp: record_ok_def)
  have "length drs < 65536" using records_at_longer [OF w(2)] assms(5) by linarith
  then have header: "dnsheader_of ?pk = ?h"
    using w(3) count_all_counts [OF place, of h] assms(10-12) by (simp add: header_in_def with_counts_def)
  note secs = places_in_sections [OF assms(7) place]
  let ?s0 = "\<lparr>is_parser = parser_start ?pk, is_reader = fresh_reader ?pk, is_n = 0, is_seenTSIG = False, is_validPacket = False\<rparr>"
  obtain s1 r n where s1: "init_questions 1 ?s0 = (Inr (), s1)"
    "s1 = ?s0\<lparr>is_reader := r, is_parser := (is_parser ?s0)\<lparr>mdp_qname := n, mdp_qtype := qtype, mdp_qclass := qclass\<rparr>\<rparr>"
    "reader_at w r p" "DNSName_eq n (name_of ql)"
    using question_read [OF assms(2,3,4,5), of ?s0] by auto
  let ?s2 = "s1\<lparr>is_validPacket := True, is_n := 0\<rparr>"
  have h2: "mdp_header (is_parser ?s2) = ?h" "mdp_answers (is_parser ?s2) = []" using s1(2) header by (simp_all add: parser_start_def)
  have oc: "h_opcode ?h \<noteq> Opcode_Update" using assms(13) by (auto simp: with_counts_def Opcode_Update_def Opcode_Query_def Opcode_Notify_def)
  obtain s3 drs' where s3: "init_records False (length drs) ?s2 = (Inr (), s3)" "mdp_header (is_parser s3) = ?h"
    "mdp_qname (is_parser s3) = n" "mdp_qtype (is_parser s3) = qtype" "mdp_qclass (is_parser s3) = qclass"
    "mdp_answers (is_parser s3) = drs'" "list_all2 same_record drs' drs"
    using init_records_reads [OF w(2) assms(6), of ?s2] s1(2,3) h2 oc secs(1) assms(8) by auto
  have "init_try False ?s0 = (Inr (), s3)"
    using s1(1) s3(1) header secs(2) assms(9)
    by (simp add: init_try_eq Let_def parser_start_def with_counts_def bindC_def putC_def)
  moreover have "length ?pk \<ge> 12" using w(1) by (simp add: w_inv_def)
  moreover have "PacketReader_init ?pk 12 False False = Inr (fresh_reader ?pk)" using assms(5) by (simp add: PacketReader_init_def fresh_reader_def)
  ultimately have "MOADNSParser_init False ?pk 0 = Inr (is_parser s3)"
    using header assms(13) by (auto simp: MOADNSParser_init_def sizeof_dnsheader_def with_counts_def init_catch_def)
  then show ?thesis using s3 s1(4) by blast
qed

lemma wrapup_records_length:
  "wrapup_records throws optsize maxlen drs w = (Inr False, w') \<Longrightarrow> length (w_content w') + optsize \<le> maxlen \<or> w' = w"
proof (induction drs arbitrary: w)
  case (Cons dr drs)
  obtain w2 where "length (w_content w2) + optsize \<le> maxlen" "wrapup_records throws optsize maxlen drs w2 = (Inr False, w')"
    using wrapup_records_step [OF Cons.prems] by blast
  then show ?case using Cons.IH [of w2] by auto
qed simp

section \<open>Properties\<close>

text \<open>
  Claim C1 (a message survives the wire): take a question, any changes to the header that keep it well
  formed with opcode query or notify, and any records of the registered or of unknown types, ordered by
  section, with a TSIG record only at the end, and with names of at most ten labels, so that they never
  take more pointers than the parser follows. If the record loop of \<^verbatim>\<open>DNSPacket::wrapup\<close> writes them all
  without truncating, under a size limit of at most 16384 bytes apart from the options, then
  \<^verbatim>\<open>MOADNSParser\<close> accepts the packet, the size checks of its contents included: with the header written and the counts of the
  records, the same question, and the same records in the same order, names compared without case.
\<close>

theorem message_roundtrip:
  assumes "pw_init (name_of ql) qtype qclass opcode = Inr w0" "valid_labels ql" "length ql \<le> s_maxPointersPerName"
    "h = f (fresh_header opcode)" "dnsheader_ok h" "h_qdcount h = 1" "h_ancount h = 0" "h_nscount h = 0" "h_arcount h = 0"
    "h_opcode h \<in> {Opcode_Query, Opcode_Notify}"
    "\<forall>dr \<in> set drs. record_ok dr" "sorted (map (place_rank \<circ> dr_place) drs)" "tsig_last drs"
    "wrapup_records throws optsize maxlen drs (snd (pw_header f w0)) = (Inr False, w1)" "maxlen \<le> maxCompressionOffset + optsize"
    "pw_commit w1 = (Inr (), w2)"
  shows "\<exists>mdp. MOADNSParser_init False (w_content w2) 0 = Inr mdp \<and> mdp_header mdp = with_counts drs h \<and>
    DNSName_eq (mdp_qname mdp) (name_of ql) \<and> mdp_qtype mdp = qtype \<and> mdp_qclass mdp = qclass \<and> list_all2 same_record (mdp_answers mdp) drs"
proof -
  let ?w = "snd (pw_header f w0)"
  have q: "w_inv w0" "qname_at w0" "w_sor w0 = 0" "question_at w0 ql qtype qclass (length (w_content w0))" "header_in w0 = fresh_header opcode"
    using question_written [OF assms(1,2)] by blast+
  have small: "length (w_content w0) \<le> 65535" using assms(1) by (auto simp: pw_init_def Let_def split: prod.splits sum.splits if_splits)
  have e: "good_step w0 ?w" "header_in ?w = h" "w_sor ?w = 0" "length (w_content ?w) = length (w_content w0)"
    using header_edit [OF q(1), of f] q(3,5) assms(4,5) by auto
  then have keeps: "keeps_spelling w0 ?w" "w_qname ?w = w_qname w0" "w_inv ?w" by (simp_all add: good_step_def)
  have "written_upto ?w h (length (w_content w0)) []"
    using e keeps qname_at_keeps [OF q(2) keeps(1,2)] by (simp add: written_upto_def)
  from wrapup_records_written [OF assms(14) this assms(11,15)]
  have w1: "written_upto w1 h (length (w_content w0)) drs" "keeps_spelling ?w w1" by simp_all
  have len: "length (w_content w1) \<le> 65535"
    using wrapup_records_length [OF assms(14)] assms(15) e(4) small by (auto simp: maxCompressionOffset_def)
  have w2: "all_written w2 h (length (w_content w0)) drs" "keeps_spelling w1 w2" "length (w_content w2) = length (w_content w1)"
    using commit_upto [OF w1(1) assms(16)] by blast+
  have "question_at w2 ql qtype qclass (length (w_content w0))"
    using question_at_keeps [OF q(4)] keeps_spelling_trans keeps(1) w1(2) w2(2) by blast
  then show ?thesis using written_message_parsed [OF w2(1) _ assms(2,3) _ assms(11,12,13,6,7,8,9,10)] w2(3) len by simp
qed

text \<open>An answer with a delegation and the address of its name server.\<close>

definition example_records :: "DNSRecord list" where
  "example_records =
     [\<lparr>dr_name = name_of [[101, 120]], dr_type = 2, dr_class = 1, dr_ttl = 3600, dr_clen = 0, dr_place = ANSWER,
       dr_content = Some (Content (MConv NS_conv) [VName (name_of [[110, 115], [101, 120]])])\<rparr>,
      \<lparr>dr_name = name_of [[110, 115], [101, 120]], dr_type = 1, dr_class = 1, dr_ttl = 60, dr_clen = 0, dr_place = ADDITIONAL,
       dr_content = Some (Content MA [VBytes [192, 0, 2, 1]])\<rparr>]"

definition example_message :: "(bool result \<times> DNSPacketWriter) result" where
  "example_message =
     bindR (pw_init (name_of [[101, 120]]) 2 1 0) (\<lambda>w0.
       Inr (bindC (wrapup_records False 0 512 example_records) (\<lambda>truncated. bindC pw_commit (\<lambda>_. returnC truncated))
         (snd (pw_header (\<lambda>dh. dh\<lparr>h_qr := True, h_aa := True\<rparr>) w0))))"

lemma example_records_ok: "\<forall>dr \<in> set example_records. record_ok dr"
proof -
  have n: "valid_labels [[101, 120]]" "valid_labels [[110, 115], [101, 120 :: u8]]" by (simp_all add: valid_labels_def valid_label_def encode_def enc_label_def)
  have k: "getTypemap (1, 2) = Some (MConv NS_conv)" "getTypemap (1, 1) = Some MA"
    by (simp_all add: getTypemap_def reportBasicTypes_def report_def)
  have "val_ok (XName True) (VName (name_of [[110, 115], [101, 120]]))"
    unfolding val_ok_def using n(2) by (auto simp: s_maxPointersPerName_def)
  then have "vals_ok NS_conv [VName (name_of [[110, 115], [101, 120]])]" "vals_ok A_conv [VBytes [192, 0, 2, 1]]"
    by (simp_all add: NS_conv_def A_conv_def conv_build) (simp add: val_ok_def)
  moreover have "maker_wf (MConv NS_conv)" "maker_wf MA" using k typemap_wf by blast+
  ultimately have c: "content_fits (Some (MConv NS_conv)) (Content (MConv NS_conv) [VName (name_of [[110, 115], [101, 120]])])"
    "content_fits (Some MA) (Content MA [VBytes [192, 0, 2, 1]])" by simp_all
  have names: "\<exists>nl. name_of [[101, 120]] = name_of nl \<and> valid_labels nl \<and> length nl \<le> s_maxPointersPerName"
    "\<exists>nl. name_of [[110, 115], [101, 120]] = name_of nl \<and> valid_labels nl \<and> length nl \<le> s_maxPointersPerName"
    using n by - (rule exI [of _ "[[101, 120]]"], simp add: s_maxPointersPerName_def, rule exI [of _ "[[110, 115], [101, 120]]"], simp add: s_maxPointersPerName_def)
  show ?thesis using names c k by (simp add: example_records_def record_ok_def record_kind_def searchclass_def del: content_fits.simps)
qed

theorem message_roundtrip_witness:
  "\<exists>w mdp. example_message = Inr (Inr False, w) \<and> MOADNSParser_init False (w_content w) 0 = Inr mdp \<and> list_all2 same_record (mdp_answers mdp) example_records \<and>
     h_ancount (mdp_header mdp) = 1 \<and> h_arcount (mdp_header mdp) = 1"
proof -
  let ?f = "\<lambda>dh. dh\<lparr>h_qr := True, h_aa := True\<rparr>"
  have "(case example_message of Inr (Inr False, w) \<Rightarrow> True | _ \<Rightarrow> False)" by code_simp
  then obtain w2 where m: "example_message = Inr (Inr False, w2)" by (auto split: sum.splits prod.splits bool.splits)
  then obtain w0 where w0: "pw_init (name_of [[101, 120]]) 2 1 0 = Inr w0" and run: "bindC (wrapup_records False 0 512 example_records)
      (\<lambda>truncated. bindC pw_commit (\<lambda>_. returnC truncated)) (snd (pw_header ?f w0)) = (Inr False, w2)"
    unfolding example_message_def bindR_Inr_iff by blast
  from run obtain w1 where w: "wrapup_records False 0 512 example_records (snd (pw_header ?f w0)) = (Inr False, w1)" "pw_commit w1 = (Inr (), w2)"
    unfolding bindC_Inr by auto
  have "\<exists>mdp. MOADNSParser_init False (w_content w2) 0 = Inr mdp \<and> mdp_header mdp = with_counts example_records (?f (fresh_header 0)) \<and>
      DNSName_eq (mdp_qname mdp) (name_of [[101, 120]]) \<and> mdp_qtype mdp = 2 \<and> mdp_qclass mdp = 1 \<and>
      list_all2 same_record (mdp_answers mdp) example_records"
    by (rule message_roundtrip [where h = "?f (fresh_header 0)" and f = ?f, OF w0 _ _ refl _ _ _ _ _ _ example_records_ok _ _ w(1) _ w(2)])
      (simp_all add: valid_labels_def valid_label_def encode_def enc_label_def s_maxPointersPerName_def fresh_header_def dnsheader_ok_def
        Opcode_Query_def example_records_def is_tsig_def maxCompressionOffset_def)
  then obtain mdp where mdp: "MOADNSParser_init False (w_content w2) 0 = Inr mdp" "mdp_header mdp = with_counts example_records (?f (fresh_header 0))"
    "list_all2 same_record (mdp_answers mdp) example_records" by blast
  have "h_ancount (mdp_header mdp) = 1" "h_arcount (mdp_header mdp) = 1" by (simp_all add: mdp(2) with_counts_def in_place_def example_records_def)
  then show ?thesis using m mdp(1,3) by blast
qed

end
