(* ===== verification/ParserSound.thy ===== *)
theory ParserSound
  imports ParserLaws
begin

text \<open>
  What \<^verbatim>\<open>MOADNSParser::init\<close> accepts, for any packet: the records it holds lie one after the other in the packet, with the
  names, headers and lengths that are there.
\<close>

section \<open>Reading contents keeps the packet and the record\<close>

definition reader_frame :: "PacketReader \<Rightarrow> bytes \<times> bool \<times> nat \<times> nat" where
  "reader_frame r = (d_content r, d_standalone r, d_startrecordpos r, d_recordlen r)"

definition framed :: "(PacketReader, 'a) call \<Rightarrow> bool" where
  "framed c \<longleftrightarrow> (\<forall>r a r'. c r = (Inr a, r') \<longrightarrow> reader_frame r' = reader_frame r)"

lemma framedI: "(\<And>r a r'. c r = (Inr a, r') \<Longrightarrow> reader_frame r' = reader_frame r) \<Longrightarrow> framed c"
  by (simp add: framed_def)

lemma framedD: "framed c \<Longrightarrow> c r = (Inr a, r') \<Longrightarrow> reader_frame r' = reader_frame r"
  by (simp add: framed_def)

named_theorems framing \<open>calls that keep the packet and the bounds of the record\<close>

lemma framed_basic [framing]: "framed (returnC a)" "framed (throwC e)" "framed (liftC x)" "framed (getC f)"
  by (auto simp: framed_def)

lemma framed_bind [framing]: "framed m \<Longrightarrow> (\<And>a. framed (f a)) \<Longrightarrow> framed (bindC m f)"
  by (auto simp: framed_def bindC_Inr)

lemma framed_if [framing]: "(b \<Longrightarrow> framed c) \<Longrightarrow> (\<not> b \<Longrightarrow> framed d) \<Longrightarrow> framed (if b then c else d)"
  by simp

lemma framed_moves: "(\<And>r a r'. c r = (Inr a, r') \<Longrightarrow> \<exists>p. r' = r\<lparr>d_pos := p\<rparr>) \<Longrightarrow> framed c"
  by (fastforce simp: framed_def reader_frame_def)

lemma framed_reads [framing]:
  "framed pr_get8BitInt" "framed pr_get16BitInt" "framed pr_get32BitInt" "framed pr_xfr48BitInt" "framed pr_xfrNodeOrLocatorID"
  "framed (copyRecord dest len)" "framed (copyRecord_raw len)" "framed pr_eof" "framed consumeRemaining"
  "framed pr_xfrBlob" "framed (pr_xfrBlob_len n)"
  by (rule framedI; auto simp: reader_frame_def get8_Inr get16_Inr get32_Inr get48_Inr reader_ops copyRecord_def read_bytes_Inr pr_eof_def
      pr_xfrBlob_def Let_def bindC_Inr boundary_Inr split: if_splits sum.splits)+

lemma framed_getName [framing]: "framed pr_getName"
  by (rule framedI) (auto simp: reader_frame_def pr_getName_def Let_def split: sum.splits if_splits)

lemma text_segment_frame: "text_segment lenField r = (Inr t, r') \<Longrightarrow> reader_frame r' = reader_frame r"
  by (cases lenField) (auto simp: text_segment_def bindC_Inr pr_next_Inr reader_frame_def split: if_splits)

lemma getText_loop_frame: "getText_loop multi lenField ret r = (Inr t, r') \<Longrightarrow> reader_frame r' = reader_frame r"
proof (induction multi lenField ret r rule: getText_loop.induct)
  case (1 multi lenField ret r)
  show ?case
  proof (cases "d_pos r < d_startrecordpos r + d_recordlen r")
    case True
    then obtain tx r1 where seg: "text_segment lenField r = (Inr tx, r1)"
      and rest: "(let ret1 = (if ret \<noteq> [] then ret @ [32] else ret) @ tx in if multi then getText_loop multi lenField ret1 r1 else (Inr ret1, r1)) = (Inr t, r')"
      using "1.prems" by (subst (asm) getText_loop.simps) (auto simp: bindC_Inr)
    then show ?thesis using "1.IH" [OF True seg refl] text_segment_frame [OF seg] by (auto simp: Let_def split: if_splits)
  next
    case False
    then show ?thesis using "1.prems" by (subst (asm) getText_loop.simps) simp
  qed
qed

lemma framed_text [framing]: "framed (getText multi lenField)" "framed (getUnquotedText lenField)"
proof -
  show "framed (getText multi lenField)"
    by (rule framedI) (auto simp: getText_def bindC_Inr dest: getText_loop_frame)
  show "framed (getUnquotedText lenField)"
    by (rule framedI) (auto simp: getUnquotedText_def bindC_Inr Let_def reader_frame_def split: if_splits)
qed

lemma framed_svc [framing]: "framed (pr_xfrSvcParamKeyVals kvs)"
proof (rule framedI)
  have "reader_frame r' = reader_frame r" if "svcParams_loop lastKey kvs r = (Inr ps, r')" for lastKey kvs r ps r'
    using that
  proof (induction lastKey kvs r rule: svcParams_loop.induct)
    case (1 lastKey kvs r)
    show ?case
    proof (cases "d_pos r < d_startrecordpos r + d_recordlen r")
      case True
      then obtain k r1 n r2 v r3 where k: "pr_get16BitInt r = (Inr k, r1)" "\<not> int k \<le> lastKey" "pr_get16BitInt r1 = (Inr n, r2)"
        "pr_svcValue k n r2 = (Inr v, r3)" "svcParams_loop (int k) (params_insert v kvs) r3 = (Inr ps, r')" "\<not> d_pos r + 2 > d_startrecordpos r + d_recordlen r"
        using "1.prems" by (subst (asm) svcParams_loop.simps) (auto simp: bindC_Inr Let_def split: if_splits)
      obtain q where "r3 = r2\<lparr>d_pos := q\<rparr>" using pr_svcValue_moved [OF k(4)] by (auto simp: moved_def)
      then have "reader_frame r3 = reader_frame r2" by (simp add: reader_frame_def)
      moreover have "reader_frame r' = reader_frame r3" using "1.IH" [OF refl True k(6,1,2,3,4,5)] .
      ultimately show ?thesis using framedD [OF framed_reads(2) k(1)] framedD [OF framed_reads(2) k(3)] by simp
    next
      case False
      then show ?thesis using "1.prems" by (subst (asm) svcParams_loop.simps) (simp add: Let_def)
    qed
  qed
  then show "pr_xfrSvcParamKeyVals kvs r = (Inr ps, r') \<Longrightarrow> reader_frame r' = reader_frame r" for r ps r'
    by (simp add: pr_xfrSvcParamKeyVals_def)
qed

lemma framed_bitmap [framing]: "framed (nb_fromPacket m)"
  unfolding nb_fromPacket_def by (intro framing)

lemma framed_blobs [framing]: "framed (pr_xfrBlobNoSpaces n)" "framed pr_xfrHexBlob" "framed pr_xfrIP6"
  by (simp_all add: pr_xfrBlobNoSpaces_def pr_xfrHexBlob_def pr_xfrIP6_def framing)

lemma framed_sized [framing]: "framed pr_sizedBlob" "framed pr_8SizedBlob" "framed pr_8SizedHexBlob" "framed pr_xfrIP"
  unfolding pr_sizedBlob_def pr_8SizedBlob_def pr_8SizedHexBlob_def pr_xfrIP_def by (intro framing)+

lemma framed_xfr [framing]: "framed (xfr_read x)"
  unfolding xfr_read_def by (cases x; simp; intro framing)

lemma framed_conv [framing]: "framed (conv_read c)"
proof (induction c)
  case (Xfr x k)
  then show ?case by (simp, intro framing) (rule Xfr, simp)
qed (simp_all add: framed_def)

lemma framed_get8s [framing]: "framed (pr_get8s n)"
proof (induction n)
  case (Suc n)
  then show ?case by (simp, intro framing)
qed (simp add: framed_def)

lemma framed_apl_element [framing]: "framed (apl_element left)"
  unfolding apl_element_def Let_def by (intro framing)

lemma framed_apl_loop [framing]: "framed (apl_loop clen processed)"
proof (induction clen processed rule: apl_loop.induct)
  case (1 clen processed)
  show ?case
  proof (cases "processed < clen \<and> \<not> clen - processed < 4")
    case True
    then show ?thesis using "1.IH" by (subst apl_loop.simps) (simp, intro framing, simp)
  next
    case False
    then show ?thesis by (subst apl_loop.simps) (auto simp: framed_def)
  qed
qed

lemma framed_makers [framing]:
  "framed (xfrPacket_read c)" "framed (A_doRecordCheck clen)" "framed (EUI48_make clen)" "framed (EUI64_make clen)"
  "framed (APL_make clen)" "framed (UnknownRecordContent_make clen)"
  unfolding xfrPacket_read_def A_doRecordCheck_def EUI48_make_def EUI64_make_def APL_make_def UnknownRecordContent_make_def
  by (intro framing)+

lemma framed_maker_make [framing]: "framed (maker_make m clen)"
  unfolding maker_make_def by (cases m; simp only: maker.case; intro framing)

lemma framed_content_make [framing]: "framed (content_make dr oc)"
  unfolding content_make_def Let_def by (auto split: option.split intro!: framing)

section \<open>Records in a packet\<close>

text \<open>
  \<open>record_in query packet p e dr\<close>: the owner name of \<open>dr\<close> starts at \<open>p\<close> and ends at \<open>e\<close>, where the ten bytes of its header are; its data
  follow, inside the packet. Unless the record is one that a query has no use for, its content is made for
  the registered type; the content of an unregistered type is the data, and so is that of an A record, which has
  exactly four bytes.
\<close>

definition record_data :: "bytes \<Rightarrow> nat \<Rightarrow> DNSRecord \<Rightarrow> bytes" where
  "record_data packet e dr = take (dr_clen dr) (drop (e + 10) packet)"

definition record_in :: "bool \<Rightarrow> bytes \<Rightarrow> nat \<Rightarrow> nat \<Rightarrow> DNSRecord \<Rightarrow> bool" where
  "record_in query packet p e dr \<longleftrightarrow>
     p < e \<and> e + 10 + dr_clen dr \<le> length packet \<and>
     (\<exists>b b'. DNSName_from_packet packet p True False False 12 (Some b) = Inr (dr_name dr, e - p, b', None, None)) \<and>
     dnsrecordheader_of (take 10 (drop e packet)) = \<lparr>rh_type = dr_type dr, rh_class = dr_class dr, rh_ttl = dr_ttl dr, rh_clen = dr_clen dr\<rparr> \<and>
     (dr_content dr = Some (UnknownRecordContent (record_data packet e dr)) \<or>
      (\<exists>m vs. getTypemap (if dr_type dr = 41 then 1 else dr_class dr, dr_type dr) = Some m \<and> dr_content dr = Some (Content m vs))) \<and>
     (\<not> query \<and> dr_class dr = 1 \<and> isRegisteredType (dr_type dr) 1 \<longrightarrow> (\<exists>m vs. dr_content dr = Some (Content m vs))) \<and>
     (\<forall>vs. dr_content dr = Some (Content MA vs) \<longrightarrow> dr_clen dr = 4 \<and> vs = [VBytes (record_data packet e dr)])"

fun records_in :: "bool \<Rightarrow> bytes \<Rightarrow> nat \<Rightarrow> DNSRecord list \<Rightarrow> nat \<Rightarrow> bool" where
  "records_in query packet p [] q \<longleftrightarrow> p = q"
| "records_in query packet p (dr # drs) q \<longleftrightarrow> (\<exists>e. record_in query packet p e dr \<and> records_in query packet (e + 10 + dr_clen dr) drs q)"

lemma records_in_snoc:
  "records_in query packet p (drs @ [dr]) q \<longleftrightarrow>
     (\<exists>m e. records_in query packet p drs m \<and> record_in query packet m e dr \<and> q = e + 10 + dr_clen dr)"
  by (induction drs arbitrary: p) auto

text \<open>The questions: \<open>k\<close> names, each with a type and a class, from \<open>p\<close> to \<open>q\<close>.\<close>

fun questions_in :: "bytes \<Rightarrow> nat \<Rightarrow> nat \<Rightarrow> nat \<Rightarrow> bool" where
  "questions_in packet p 0 q \<longleftrightarrow> p = q"
| "questions_in packet p (Suc k) q \<longleftrightarrow>
     (\<exists>e n b b'. DNSName_from_packet packet p True False False 12 (Some b) = Inr (n, e - p, b', None, None) \<and>
        p < e \<and> e + 4 \<le> length packet \<and> questions_in packet (e + 4) k q)"

text \<open>
  At \<open>q\<close> there is an A record with all its data, but not of four bytes; \<open>b\<close> is the number of compression pointers that
  its name may follow.
\<close>

definition wrong_size_A :: "nat \<Rightarrow> bytes \<Rightarrow> nat \<Rightarrow> bool" where
  "wrong_size_A b packet q \<longleftrightarrow>
     (\<exists>n e b'. DNSName_from_packet packet q True False False 12 (Some b) = Inr (n, e - q, b', None, None) \<and> q < e \<and>
       (let ah = dnsrecordheader_of (take 10 (drop e packet)) in
        rh_type ah = 1 \<and> rh_class ah = 1 \<and> rh_clen ah \<noteq> 4 \<and> e + 10 + rh_clen ah \<le> length packet))"

text \<open>The contents that the makers give.\<close>

lemma A_content:
  assumes "maker_make MA clen r = (Inr c, r')"
  shows "clen = 4 \<and> c = Content MA [VBytes (take 4 (drop (d_pos r) (d_content r)))]"
proof -
  obtain v where v: "clen = 4" "c = Content MA [VBytes (to_be32 v)]" "within 4 r"
    "v = be32 (d_content r ! d_pos r) (d_content r ! (d_pos r + 1)) (d_content r ! (d_pos r + 2)) (d_content r ! (d_pos r + 3))"
    using assms by (auto simp: maker_make_def A_doRecordCheck_def xfrPacket_read_def A_conv_def conv_build xfr_read_def pr_xfrIP_def bindC_Inr get32_Inr
        split: if_splits)
  then have "take 4 (drop (d_pos r) (d_content r)) = [d_content r ! d_pos r, d_content r ! (d_pos r + 1), d_content r ! (d_pos r + 2), d_content r ! (d_pos r + 3)]"
    by (intro nth_equalityI) (auto simp: within_def less_Suc_eq numeral_eq_Suc)
  then show ?thesis using v by (simp add: to_be32_be32)
qed

lemma Unknown_content:
  "UnknownRecordContent_make clen r = (Inr c, r') \<Longrightarrow> c = UnknownRecordContent (take clen (drop (d_pos r) (d_content r)))"
  by (auto simp: UnknownRecordContent_make_def bindC_Inr copyRecord_def read_bytes_Inr split: if_splits)

lemma maker_content: "maker_make m clen r = (Inr c, r') \<Longrightarrow> \<exists>vs. c = Content m vs"
  by (auto simp: maker_make_def bindC_Inr)

section \<open>What a round of the loop reads\<close>

lemma on_reader_Inr: "on_reader c s = (Inr a, s') \<longleftrightarrow> (\<exists>r. c (is_reader s) = (Inr a, r) \<and> s' = s\<lparr>is_reader := r\<rparr>)"
  by (auto simp: on_reader_def split: prod.splits)

lemma getName_parsed:
  assumes "pr_getName r = (Inr n, r')" "\<not> d_standalone r"
  shows "d_pos r < d_pos r' \<and> d_pos r' \<le> length (d_content r) \<and>
    (\<exists>b b'. DNSName_from_packet (d_content r) (d_pos r) True False False 12 (Some b) = Inr (n, d_pos r' - d_pos r, b', None, None))"
proof -
  obtain c b' qt qc where c: "DNSName_from_packet (d_content r) (d_pos r) True False False 12 (Some (d_pointerBudget r)) = Inr (n, c, b', qt, qc)"
    "d_pos r' = d_pos r + c"
    using assms by (auto simp: pr_getName_def sizeof_dnsheader_def Let_def split: sum.splits if_splits)
  then have "qt = None" "qc = None" by (auto simp: DNSName_from_packet_def bindR_Inr_iff split: if_splits)
  then show ?thesis using c getName_Inr [OF assms(1)] by auto
qed

text \<open>The reader stands where the name of the next record may start.\<close>

definition at_owner :: "PacketReader \<Rightarrow> bool" where
  "at_owner r \<longleftrightarrow> \<not> d_standalone r \<and> d_startrecordpos r \<le> d_pos r \<and> d_pos r \<le> length (d_content r) \<and>
     (d_startrecordpos r + d_recordlen r \<le> d_pos r \<or> length (d_content r) \<le> d_startrecordpos r + d_recordlen r)"

lemma getName_at_owner:
  assumes "DNSName_from_packet (d_content r) (d_pos r) True False False 12 (Some (d_pointerBudget r)) = Inr (n, e - d_pos r, b', None, None)"
    "d_pos r < e" "e \<le> length (d_content r)" "at_owner r"
  shows "\<exists>b. pr_getName r = (Inr n, r\<lparr>d_pos := e, d_pointerBudget := b\<rparr>)"
  using assms by (auto simp: pr_getName_def at_owner_def isWithinRecordBoundaries_def sizeof_dnsheader_def Let_def)

lemma getDnsrecordheader_fits:
  assumes "ah = dnsrecordheader_of (take 10 (drop (d_pos r) (d_content r)))" "d_pos r + 10 + rh_clen ah \<le> length (d_content r)"
  shows "getDnsrecordheader r = (Inr ah, r\<lparr>d_pos := d_pos r + 10, d_startrecordpos := d_pos r + 10, d_recordlen := rh_clen ah\<rparr>)"
proof -
  have "read_bytes 10 r = (Inr (take 10 (drop (d_pos r) (d_content r))), r\<lparr>d_pos := d_pos r + 10\<rparr>)"
    using assms(2) by (simp add: read_bytes_Inr)
  then show ?thesis using assms by (simp add: getDnsrecordheader_def bindC_def Let_def)
qed

definition record_content :: "bool \<Rightarrow> nat \<Rightarrow> nat \<Rightarrow> DNSRecord \<Rightarrow> (PacketReader, content) call" where
  "record_content query qtype oc dr = (if discarded query qtype dr then UnknownRecordContent_make (dr_clen dr) else content_make dr oc)"

lemma record_content_cases:
  assumes "record_content query qtype oc dr r = (Inr c, r')"
  obtains "c = UnknownRecordContent (take (dr_clen dr) (drop (d_pos r) (d_content r)))" "query \<or> dr_class dr \<noteq> 1 \<or> \<not> isRegisteredType (dr_type dr) 1"
  | m vs where "getTypemap (if dr_type dr = 41 then 1 else dr_class dr, dr_type dr) = Some m" "c = Content m vs"
    "m = MA \<Longrightarrow> dr_clen dr = 4 \<and> vs = [VBytes (take (dr_clen dr) (drop (d_pos r) (d_content r)))]"
proof -
  let ?k = "getTypemap (if dr_type dr = 41 then 1 else dr_class dr, dr_type dr)"
  consider "UnknownRecordContent_make (dr_clen dr) r = (Inr c, r')" "query \<or> dr_class dr \<noteq> 1 \<or> \<not> isRegisteredType (dr_type dr) 1"
    | m where "?k = Some m" "maker_make m (dr_clen dr) r = (Inr c, r')"
    using assms by (cases "dr_class dr = 1") (auto simp: record_content_def content_make_def discarded_def isRegisteredType_def Let_def split: if_splits option.splits)
  then show ?thesis
  proof cases
    case 1
    then show ?thesis using Unknown_content that(1) by blast
  next
    case (2 m)
    then obtain vs where "c = Content m vs" using maker_content by blast
    then show ?thesis using 2 A_content [of "dr_clen dr" r c r'] by (intro that(2) [of m vs]) auto
  qed
qed

lemma framed_record_content: "framed (record_content query qtype oc dr)"
  unfolding record_content_def by (intro framing)

lemma init_record_eq:
  "init_record query s =
     bindC (on_reader pr_getName) (\<lambda>name. bindC (on_reader getDnsrecordheader) (\<lambda>ah t.
       bindC (on_reader (record_content query (mdp_qtype (is_parser t)) (h_opcode (mdp_header (is_parser s)))
           \<lparr>dr_name = name, dr_type = rh_type ah, dr_class = rh_class ah, dr_ttl = rh_ttl ah, dr_clen = rh_clen ah,
            dr_place = place_of (mdp_header (is_parser s)) (is_n s), dr_content = None\<rparr>)) (\<lambda>c.
         check_record \<lparr>dr_name = name, dr_type = rh_type ah, dr_class = rh_class ah, dr_ttl = rh_ttl ah, dr_clen = rh_clen ah,
            dr_place = place_of (mdp_header (is_parser s)) (is_n s), dr_content = Some c\<rparr> (d_pos (is_reader s)) (d_pos (is_reader t))) t)) s"
  unfolding init_record_def Let_def record_content_def getPosition_def if_distrib [of on_reader, symmetric] by simp

lemma init_record_Inr:
  assumes "init_record query s = (Inr u, s')" "d_content (is_reader s) = packet" "at_owner (is_reader s)"
  shows "\<exists>e dr. record_in query packet (d_pos (is_reader s)) e dr \<and> mdp_answers (is_parser s') = mdp_answers (is_parser s) @ [dr] \<and>
    d_pos (is_reader s') = e + 10 + dr_clen dr \<and> d_content (is_reader s') = packet \<and> at_owner (is_reader s')"
proof -
  let ?r = "is_reader s"
  define place where "place = place_of (mdp_header (is_parser s)) (is_n s)"
  let ?oc = "h_opcode (mdp_header (is_parser s))"
  let ?mk = "\<lambda>name ah. \<lparr>dr_name = name, dr_type = rh_type ah, dr_class = rh_class ah, dr_ttl = rh_ttl ah, dr_clen = rh_clen ah, dr_place = place, dr_content = None\<rparr>"
  from assms(1) obtain name r1 ah r2 c r3 where n: "pr_getName ?r = (Inr name, r1)" and h: "getDnsrecordheader r1 = (Inr ah, r2)"
    and c: "record_content query (mdp_qtype (is_parser s)) ?oc (?mk name ah) r2 = (Inr c, r3)"
    and chk: "check_record (?mk name ah\<lparr>dr_content := Some c\<rparr>) (d_pos ?r) (d_pos r2) (s\<lparr>is_reader := r3\<rparr>) = (Inr u, s')"
    unfolding init_record_eq bindC_Inr on_reader_Inr place_def by force
  let ?dr = "?mk name ah\<lparr>dr_content := Some c\<rparr>"
  have std: "\<not> d_standalone ?r" using assms(3) by (simp add: at_owner_def)
  note f1 = framedD [OF framed_getName n] and hd = getDnsrecordheader_Inr [OF h] and f3 = framedD [OF framed_record_content c]
  have s': "is_reader s' = r3" "d_pos r3 = d_pos r2 + rh_clen ah" "mdp_answers (is_parser s') = mdp_answers (is_parser s) @ [?dr]"
    using chk by (auto simp: check_record_def Let_def getPosition_def split: if_splits)
  have pos: "d_pos r2 = d_pos r1 + 10" "d_content r2 = packet" "d_content r1 = packet" "\<not> d_standalone r2"
    "d_startrecordpos r2 = d_pos r2" "d_recordlen r2 = rh_clen ah"
    using hd f1 assms(2) std by (auto simp: reader_frame_def)
  have data: "take (rh_clen ah) (drop (d_pos r2) (d_content r2)) = record_data packet (d_pos r1) ?dr"
    by (simp add: record_data_def pos add.commute)
  have inn: "record_in query packet (d_pos ?r) (d_pos r1) ?dr"
    unfolding record_in_def using getName_parsed [OF n std] hd pos(3) assms(2) data
    by (cases rule: record_content_cases [OF c]) auto
  then have "at_owner r3" using s' pos f3 by (simp add: at_owner_def reader_frame_def record_in_def)
  then show ?thesis using s' pos f3 inn by (intro exI [of _ "d_pos r1"] exI [of _ ?dr]) (auto simp: reader_frame_def)
qed

text \<open>An A record of the wrong size ends the parse with an exception that is not the one a truncated packet may have.\<close>

lemma init_record_wrong_A:
  assumes "wrong_size_A (d_pointerBudget (is_reader s)) packet (d_pos (is_reader s))" "d_content (is_reader s) = packet" "at_owner (is_reader s)"
  shows "\<exists>s'. init_record False s = (Inl (MOADNSException ''Wrong size for A record''), s')"
proof -
  let ?r = "is_reader s"
  obtain n e b' ah where w: "DNSName_from_packet packet (d_pos ?r) True False False 12 (Some (d_pointerBudget ?r)) = Inr (n, e - d_pos ?r, b', None, None)"
    "d_pos ?r < e" "ah = dnsrecordheader_of (take 10 (drop e packet))" "rh_type ah = 1" "rh_class ah = 1" "rh_clen ah \<noteq> 4" "e + 10 + rh_clen ah \<le> length packet"
    using assms(1) by (auto simp: wrong_size_A_def Let_def)
  obtain b where name: "pr_getName ?r = (Inr n, ?r\<lparr>d_pos := e, d_pointerBudget := b\<rparr>)"
    using getName_at_owner [of ?r n e b'] w assms(2,3) by auto
  note header = getDnsrecordheader_fits [of ah "?r\<lparr>d_pos := e, d_pointerBudget := b\<rparr>"]
  have "getTypemap (1, 1) = Some MA" by (simp add: getTypemap_def reportBasicTypes_def report_def)
  then have "record_content False qtype oc dr r = (Inl (MOADNSException ''Wrong size for A record''), r)"
    if "dr_type dr = 1" "dr_class dr = 1" "dr_clen dr = rh_clen ah" for qtype oc dr r
    using w(6) that by (simp add: record_content_def discarded_def content_make_def maker_make_def A_doRecordCheck_def bindC_def)
  then show ?thesis using name header w(3-7) assms(2) by (simp add: init_record_eq bindC_def on_reader_def)
qed

lemma init_record_Inl:
  assumes "init_record query s = (Inl e, s')"
  shows "mdp_answers (is_parser s') = mdp_answers (is_parser s)"
  using assms unfolding init_record_def Let_def
  by (auto elim!: bindC_cases dest!: on_reader_keeps check_record_keeps simp: if_distrib [of on_reader, symmetric] if_distribR split: if_splits)

definition numrecords_in :: "dnsheader \<Rightarrow> nat" where
  "numrecords_in h = h_ancount h + h_nscount h + h_arcount h"

text \<open>The records read so far, and what is not at the place where an exception stopped the loop.\<close>

definition stopped_right :: "bool \<Rightarrow> unit result \<Rightarrow> nat \<Rightarrow> bytes \<Rightarrow> nat \<Rightarrow> bool" where
  "stopped_right query x b packet q \<longleftrightarrow> (\<forall>w. x = Inl (out_of_range w) \<longrightarrow> \<not> query \<longrightarrow> \<not> wrong_size_A b packet q)"

lemma init_records_in:
  "init_records query k s = (x, s') \<Longrightarrow> d_content (is_reader s) = packet \<Longrightarrow> at_owner (is_reader s) \<Longrightarrow>
   records_in query packet p (mdp_answers (is_parser s)) (d_pos (is_reader s)) \<Longrightarrow>
   \<exists>q b. q \<le> length packet \<and> records_in query packet p (mdp_answers (is_parser s')) q \<and> stopped_right query x b packet q"
proof (induction k arbitrary: s)
  case 0
  then show ?case by (auto simp: at_owner_def stopped_right_def)
next
  case (Suc k)
  from Suc.prems(1) show ?case
    unfolding init_records.simps
  proof (cases rule: bindC_cases)
    case (1 e)
    then have "stopped_right query x (d_pointerBudget (is_reader s)) packet (d_pos (is_reader s))"
      using init_record_wrong_A [OF _ Suc.prems(2,3)] by (auto simp: stopped_right_def)
    then show ?thesis using init_record_Inl [OF 1(2)] Suc.prems(2-4) by (auto simp: at_owner_def)
  next
    case (2 u s1)
    let ?s = "s1\<lparr>is_n := is_n s1 + 1\<rparr>"
    have rest: "init_records query k ?s = (x, s')" using 2(2) by (simp add: putC_def bindC_def)
    obtain e dr where s1: "record_in query packet (d_pos (is_reader s)) e dr" "mdp_answers (is_parser s1) = mdp_answers (is_parser s) @ [dr]"
      "d_pos (is_reader s1) = e + 10 + dr_clen dr" "d_content (is_reader s1) = packet" "at_owner (is_reader s1)"
      using init_record_Inr [OF 2(1) Suc.prems(2,3)] by blast
    then have "records_in query packet p (mdp_answers (is_parser ?s)) (d_pos (is_reader ?s))"
      using Suc.prems(4) by (auto simp: records_in_snoc)
    then show ?thesis using Suc.IH [OF rest] s1(4,5) by simp
  qed
qed

lemma init_questions_in:
  "init_questions k s = (Inr u, s') \<Longrightarrow> \<not> d_standalone (is_reader s) \<Longrightarrow> d_pos (is_reader s) \<le> length (d_content (is_reader s)) \<Longrightarrow>
   questions_in (d_content (is_reader s)) (d_pos (is_reader s)) k (d_pos (is_reader s')) \<and> d_pos (is_reader s) \<le> d_pos (is_reader s') \<and>
   d_pos (is_reader s') \<le> length (d_content (is_reader s')) \<and> reader_frame (is_reader s') = reader_frame (is_reader s)"
proof (induction k arbitrary: s)
  case (Suc k)
  obtain n r1 t r2 c r3 s1 where r: "pr_getName (is_reader s) = (Inr n, r1)" "pr_get16BitInt r1 = (Inr t, r2)" "pr_get16BitInt r2 = (Inr c, r3)"
    "init_questions k s1 = (Inr u, s')" "is_reader s1 = r3"
    using Suc.prems(1) by (auto simp: bindC_Inr on_reader_Inr on_parser_def)
  note f = framedD [OF framed_getName r(1)] and g = getName_parsed [OF r(1) Suc.prems(2)]
  have r3: "reader_frame r3 = reader_frame (is_reader s)" "d_pos r3 = d_pos r1 + 4" "d_pos r1 + 4 \<le> length (d_content (is_reader s))"
    using f r(2,3) by (auto simp: reader_frame_def get16_Inr within_def)
  then have "\<not> d_standalone r3" "d_content r3 = d_content (is_reader s)" using Suc.prems(2) by (auto simp: reader_frame_def)
  then show ?case using Suc.IH [OF r(4)] r(5) r3 g by auto
qed auto



end
