(* ===== verification/IpAddress.thy ===== *)
theory IpAddress
  imports Burtle
begin

text \<open>
  Addresses and netmasks: the union \<^verbatim>\<open>ComboAddress\<close>, the class \<^verbatim>\<open>Netmask\<close> and the class \<^verbatim>\<open>AddressAndPortRange\<close> of
  \<^verbatim>\<open>pdns/iputils.hh\<close>. The union of \<^verbatim>\<open>sockaddr_in\<close> and \<^verbatim>\<open>sockaddr_in6\<close> is a record of the parts of both that the
  operations read; \<open>s_addr\<close> and the port are the values that \<^verbatim>\<open>ntohl\<close> and \<^verbatim>\<open>ntohs\<close> give. Where the source
  compares them without this conversion, the host is little-endian. The abstraction of a netmask is the list of
  its network bits, from the most significant one on.
\<close>

unbundle bit_operations_syntax

section \<open>ComboAddress\<close>

definition AF_INET :: nat where "AF_INET = 2"
definition AF_INET6 :: nat where "AF_INET6 = 10"

record ComboAddress =
  sin_family :: nat
  sin_port :: nat
  s_addr :: u32
  s6_addr :: bytes

definition ComboAddress_default :: ComboAddress where
  "ComboAddress_default = \<lparr>sin_family = AF_INET, sin_port = 0, s_addr = 0, s6_addr = replicate 16 0\<rparr>"

definition ca_isIPv4 :: "ComboAddress \<Rightarrow> bool" where
  "ca_isIPv4 a \<longleftrightarrow> sin_family a = AF_INET"

definition ca_isIPv6 :: "ComboAddress \<Rightarrow> bool" where
  "ca_isIPv6 a \<longleftrightarrow> sin_family a = AF_INET6"

definition ComboAddress_eq :: "ComboAddress \<Rightarrow> ComboAddress \<Rightarrow> bool" where
  "ComboAddress_eq a b \<longleftrightarrow>
     (if (sin_family a, sin_port a) \<noteq> (sin_family b, sin_port b) then False
      else if sin_family a = AF_INET then s_addr a = s_addr b
      else s6_addr a = s6_addr b)"

text \<open>The numbers that a little-endian host sees in the network-order fields.\<close>

definition raw_port :: "ComboAddress \<Rightarrow> nat" where
  "raw_port a = (sin_port a mod 256) * 256 + sin_port a div 256"

definition raw_addr :: "ComboAddress \<Rightarrow> nat" where
  "raw_addr a = (case to_be32 (unat (s_addr a)) of [b0, b1, b2, b3] \<Rightarrow> be32 b3 b2 b1 b0)"

fun memcmp_less :: "bytes \<Rightarrow> bytes \<Rightarrow> bool" where
  "memcmp_less (x # xs) (y # ys) \<longleftrightarrow> x < y \<or> x = y \<and> memcmp_less xs ys"
| "memcmp_less _ _ \<longleftrightarrow> False"

definition ComboAddress_less :: "ComboAddress \<Rightarrow> ComboAddress \<Rightarrow> bool" where
  "ComboAddress_less a b \<longleftrightarrow>
     (if sin_family a = 0 then False
      else if sin_family a < sin_family b \<or> sin_family a = sin_family b \<and> raw_port a < raw_port b then True
      else if sin_family b < sin_family a \<or> sin_family a = sin_family b \<and> raw_port b < raw_port a then False
      else if sin_family a = AF_INET then raw_addr a < raw_addr b
      else memcmp_less (s6_addr a) (s6_addr b))"

definition addressOnlyLessThan :: "ComboAddress \<Rightarrow> ComboAddress \<Rightarrow> bool" where
  "addressOnlyLessThan a b \<longleftrightarrow>
     (if sin_family a < sin_family b then True
      else if sin_family a > sin_family b then False
      else if sin_family a = AF_INET then raw_addr a < raw_addr b
      else memcmp_less (s6_addr a) (s6_addr b))"

definition addressOnlyEqual :: "ComboAddress \<Rightarrow> ComboAddress \<Rightarrow> bool" where
  "addressOnlyEqual a b \<longleftrightarrow>
     (if sin_family a \<noteq> sin_family b then False
      else if sin_family a = AF_INET then s_addr a = s_addr b
      else s6_addr a = s6_addr b)"

definition ca_toByteString :: "ComboAddress \<Rightarrow> bytes" where
  "ca_toByteString a = (if ca_isIPv4 a then to_be32 (unat (s_addr a)) else s6_addr a)"

definition addressOnlyHash :: "ComboAddress \<Rightarrow> u32" where
  "addressOnlyHash a = (if sin_family a = AF_INET then burtle (to_be32 (unat (s_addr a))) 0 else burtle (s6_addr a) 0)"

definition addressPortOnlyHash :: "ComboAddress \<Rightarrow> u32" where
  "addressPortOnlyHash a =
     (if sin_family a = AF_INET then burtle (to_be16 (sin_port a)) (burtle (to_be32 (unat (s_addr a))) 0)
      else burtle (to_be16 (sin_port a)) (burtle (s6_addr a) 0))"

definition isMappedIPv4 :: "ComboAddress \<Rightarrow> bool" where
  "isMappedIPv4 a \<longleftrightarrow>
     sin_family a = AF_INET6 \<and> (\<forall>i \<in> set [0..<10]. s6_addr a ! i = 0) \<and> (\<forall>i \<in> set [10..<12]. s6_addr a ! i = 0xff)"

definition mapToIPv4 :: "ComboAddress \<Rightarrow> ComboAddress result" where
  "mapToIPv4 a =
     (if \<not> isMappedIPv4 a then Inl (PDNSException ''ComboAddress can't map non-mapped IPv6 address back to IPv4'')
      else Inr (ComboAddress_default\<lparr>sin_family := AF_INET, sin_port := sin_port a,
             s_addr := of_nat (be32 (s6_addr a ! 12) (s6_addr a ! 13) (s6_addr a ! 14) (s6_addr a ! 15))\<rparr>))"

definition ca_getBits :: "ComboAddress \<Rightarrow> nat" where
  "ca_getBits a = (if ca_isIPv4 a then 32 else if ca_isIPv6 a then 128 else 0)"

definition ca_getBit :: "ComboAddress \<Rightarrow> int \<Rightarrow> bool" where
  "ca_getBit a index =
     (if ca_isIPv4 a then
        if index \<ge> 32 \<or> index < 0 \<and> index < - 32 then False
        else let index = (if index < 0 then 32 + index else index) in
          (s_addr a AND push_bit (nat index) 1) \<noteq> 0
      else if ca_isIPv6 a then
        if index \<ge> 128 \<or> index < 0 \<and> index < - 128 then False
        else let index = (if index < 0 then 128 + index else index); byte_idx = nat index div 8; bit_idx = nat index mod 8 in
          (s6_addr a ! (15 - byte_idx) AND push_bit bit_idx 1) \<noteq> 0
      else False)"

text \<open>\<^verbatim>\<open>ComboAddress::truncate\<close> of \<^verbatim>\<open>pdns/iputils.cc\<close>, on the bytes of the address.\<close>

definition truncate_bytes :: "nat \<Rightarrow> nat \<Rightarrow> bytes \<Rightarrow> bytes" where
  "truncate_bytes len bits start =
     (let tozero = len * 8 - bits;
          cleared = take (len - tozero div 8) start @ replicate (tozero div 8) 0;
          bitsleft = tozero mod 8;
          place = len - 1 - tozero div 8
      in if bitsleft = 0 then cleared
         else cleared[place := cleared ! place AND NOT (push_bit bitsleft 1 - 1)])"

definition ca_truncate :: "nat \<Rightarrow> ComboAddress \<Rightarrow> ComboAddress" where
  "ca_truncate bits a =
     (if sin_family a = AF_INET then
        if bits \<ge> 32 then a
        else a\<lparr>s_addr := (case truncate_bytes 4 bits (to_be32 (unat (s_addr a))) of [b0, b1, b2, b3] \<Rightarrow> of_nat (be32 b0 b1 b2 b3))\<rparr>
      else if bits \<ge> 128 then a
      else a\<lparr>s6_addr := truncate_bytes 16 bits (s6_addr a)\<rparr>)"

definition makeComboAddressFromRaw :: "nat \<Rightarrow> bytes \<Rightarrow> ComboAddress result" where
  "makeComboAddressFromRaw version raw =
     (if version = 4 then
        if length raw \<noteq> 4 then Inl (NetmaskException ''invalid raw address length'')
        else Inr (ComboAddress_default\<lparr>sin_family := AF_INET, s_addr := of_nat (be32 (raw ! 0) (raw ! 1) (raw ! 2) (raw ! 3))\<rparr>)
      else if version = 6 then
        if length raw \<noteq> 16 then Inl (NetmaskException ''invalid raw address length'')
        else Inr (ComboAddress_default\<lparr>sin_family := AF_INET6, s6_addr := raw\<rparr>)
      else Inl (NetmaskException ''invalid address family''))"

section \<open>Netmask\<close>

record Netmask =
  nm_network :: ComboAddress
  nm_mask :: u32
  nm_bits :: nat

definition Netmask_default :: Netmask where
  "Netmask_default = \<lparr>nm_network = ComboAddress_default\<lparr>sin_family := 0, sin_port := 0\<rparr>, nm_mask = 0, nm_bits = 0\<rparr>"

text \<open>The part of \<^verbatim>\<open>setBits\<close> that clears the host bits of an IPv6 address.\<close>

definition mask6 :: "nat \<Rightarrow> bytes \<Rightarrow> bytes" where
  "mask6 d_bits address =
     (let bytes = d_bits div 8; bits = d_bits mod 8; m = NOT (drop_bit bits 0xFF);
          address = (if bytes < 16 then address[bytes := address ! bytes AND m] else address)
      in fold (\<lambda>idx a. a[idx := 0]) [bytes + 1..<16] address)"

definition setBits :: "nat \<Rightarrow> Netmask \<Rightarrow> Netmask" where
  "setBits value nm =
     (let d_bits = (if ca_isIPv4 (nm_network nm) then min value 32 else min value 128);
          d_mask = (if d_bits < 32 then NOT (drop_bit d_bits 0xFFFFFFFF) else 0xFFFFFFFF)
      in nm\<lparr>nm_bits := d_bits, nm_mask := d_mask,
            nm_network := (if ca_isIPv4 (nm_network nm) then (nm_network nm)\<lparr>s_addr := s_addr (nm_network nm) AND d_mask\<rparr>
                           else if ca_isIPv6 (nm_network nm) then (nm_network nm)\<lparr>s6_addr := mask6 d_bits (s6_addr (nm_network nm))\<rparr>
                           else nm_network nm)\<rparr>)"

definition Netmask_of :: "ComboAddress \<Rightarrow> nat \<Rightarrow> Netmask" where
  "Netmask_of network bits = setBits bits \<lparr>nm_network = network\<lparr>sin_port := 0\<rparr>, nm_mask = 0, nm_bits = 0\<rparr>"

definition Netmask_byteString :: "bytes \<Rightarrow> Netmask result" where
  "Netmask_byteString str =
     bindR (at str 0) (\<lambda>afi. let len = (if afi = 4 then 4 else 16) in
     bindR (at str (len + 1)) (\<lambda>bits.
     bindR (makeComboAddressFromRaw (unat afi) (take len (drop 1 str))) (\<lambda>network.
       Inr (setBits (unat bits) \<lparr>nm_network = network, nm_mask = 0, nm_bits = 0\<rparr>))))"

definition match4 :: "Netmask \<Rightarrow> u32 \<Rightarrow> bool" where
  "match4 nm arg \<longleftrightarrow> arg AND nm_mask nm = s_addr (nm_network nm)"

definition match_bytes :: "nat \<Rightarrow> bytes \<Rightarrow> bytes \<Rightarrow> bool" where
  "match_bytes bytes lhs rhs \<longleftrightarrow> (\<forall>index \<in> set [0..<bytes]. lhs ! index = rhs ! index)"

definition nm_match :: "Netmask \<Rightarrow> ComboAddress \<Rightarrow> bool" where
  "nm_match nm address \<longleftrightarrow>
     (if sin_family (nm_network nm) \<noteq> sin_family address then False
      else if sin_family (nm_network nm) = AF_INET then match4 nm (s_addr address)
      else if sin_family (nm_network nm) = AF_INET6 then
        let bytes = nm_bits nm div 8; lhs = s6_addr (nm_network nm); rhs = s6_addr address in
        if \<not> match_bytes bytes lhs rhs then False
        else let bits = nm_bits nm mod 8 in
          if bits = 0 then True
          else lhs ! bytes = rhs ! bytes AND NOT (drop_bit bits 0xFF)
      else False)"

definition nm_toByteString :: "Netmask \<Rightarrow> bytes" where
  "nm_toByteString nm = (if ca_isIPv4 (nm_network nm) then [4] else [6]) @ ca_toByteString (nm_network nm) @ [of_nat (nm_bits nm)]"

definition nm_isIPv4 :: "Netmask \<Rightarrow> bool" where
  "nm_isIPv4 nm \<longleftrightarrow> sin_family (nm_network nm) = AF_INET"

definition nm_isIPv6 :: "Netmask \<Rightarrow> bool" where
  "nm_isIPv6 nm \<longleftrightarrow> sin_family (nm_network nm) = AF_INET6"

definition nm_empty :: "Netmask \<Rightarrow> bool" where
  "nm_empty nm \<longleftrightarrow> sin_family (nm_network nm) = 0"

definition Netmask_less :: "Netmask \<Rightarrow> Netmask \<Rightarrow> bool" where
  "Netmask_less a b \<longleftrightarrow>
     (if nm_empty a \<and> \<not> nm_empty b then False
      else if \<not> nm_empty a \<and> nm_empty b then True
      else if nm_bits a > nm_bits b then True
      else if nm_bits a < nm_bits b then False
      else ComboAddress_less (nm_network a) (nm_network b))"

definition Netmask_eq :: "Netmask \<Rightarrow> Netmask \<Rightarrow> bool" where
  "Netmask_eq a b \<longleftrightarrow> ComboAddress_eq (nm_network a) (nm_network b) \<and> nm_bits a = nm_bits b"

definition nm_getNormalized :: "Netmask \<Rightarrow> Netmask" where
  "nm_getNormalized nm = Netmask_of (nm_network nm) (nm_bits nm)"

definition nm_getSuper :: "Netmask \<Rightarrow> nat \<Rightarrow> Netmask" where
  "nm_getSuper nm bits = Netmask_of (nm_network nm) (min (nm_bits nm) bits)"

definition nm_getFullBits :: "Netmask \<Rightarrow> nat" where
  "nm_getFullBits nm = ca_getBits (nm_network nm)"

definition nm_getBit :: "Netmask \<Rightarrow> int \<Rightarrow> bool" where
  "nm_getBit nm index =
     (if index < - int (nm_bits nm) then False
      else if index \<ge> 0 \<and> nm_isIPv4 nm \<and> (index \<ge> 32 \<or> index < 32 - int (nm_bits nm)) then False
      else if index \<ge> 0 \<and> nm_isIPv6 nm \<and> (index \<ge> 128 \<or> index < 128 - int (nm_bits nm)) then False
      else ca_getBit (nm_network nm) index)"

definition Netmask_Hash :: "Netmask \<Rightarrow> u32" where
  "Netmask_Hash nm = burtle [of_nat (nm_bits nm)] (addressOnlyHash (nm_network nm))"

section \<open>AddressAndPortRange\<close>

record AddressAndPortRange =
  apr_addr :: ComboAddress
  apr_addrMask :: nat
  apr_portMask :: nat

text \<open>
  The constructor: \<open>apr_make\<close> is the object it makes unless it throws. \<^verbatim>\<open>getNormalized\<close> and \<^verbatim>\<open>getSuper\<close> call it with
  the parts of an object that exists, and then it does not.
\<close>

definition apr_make :: "ComboAddress \<Rightarrow> nat \<Rightarrow> nat \<Rightarrow> AddressAndPortRange" where
  "apr_make address addrMask portMask =
     (let d_portMask = (if \<not> ca_isIPv4 address then 0 else portMask);
          port = (if d_portMask < 16 then unat (of_nat (sin_port address) AND NOT (drop_bit d_portMask (0xFFFF :: u16))) else sin_port address);
          d_addr = (if addrMask < ca_getBits address then nm_network (Netmask_of address addrMask) else address)
      in \<lparr>apr_addr = d_addr\<lparr>sin_port := port\<rparr>, apr_addrMask = addrMask, apr_portMask = d_portMask\<rparr>)"

definition AddressAndPortRange_of :: "ComboAddress \<Rightarrow> nat \<Rightarrow> nat \<Rightarrow> AddressAndPortRange result" where
  "AddressAndPortRange_of address addrMask portMask =
     (if addrMask < ca_getBits address \<and> (if \<not> ca_isIPv4 address then 0 else portMask) > 0
      then Inl (runtime_error ''Trying to create a AddressAndPortRange with a reduced address mask and a port range'')
      else Inr (apr_make address addrMask portMask))"

definition apr_getFullBits :: "AddressAndPortRange \<Rightarrow> nat" where
  "apr_getFullBits k = ca_getBits (apr_addr k) + 16"

definition apr_getBits :: "AddressAndPortRange \<Rightarrow> nat" where
  "apr_getBits k =
     (if apr_addrMask k < ca_getBits (apr_addr k) then apr_addrMask k else (ca_getBits (apr_addr k) + apr_portMask k) mod 256)"

definition apr_getBit :: "AddressAndPortRange \<Rightarrow> int \<Rightarrow> bool" where
  "apr_getBit k index =
     (if index \<ge> int (apr_getFullBits k) then False
      else let index = (if index < 0 then int (apr_getFullBits k) + index else index) in
        if index < 16 then (of_nat (sin_port (apr_addr k)) AND push_bit (nat index) (1 :: u16)) \<noteq> 0
        else ca_getBit (apr_addr k) (index - 16))"

definition apr_isIPv4 :: "AddressAndPortRange \<Rightarrow> bool" where
  "apr_isIPv4 k = ca_isIPv4 (apr_addr k)"

definition apr_isIPv6 :: "AddressAndPortRange \<Rightarrow> bool" where
  "apr_isIPv6 k = ca_isIPv6 (apr_addr k)"

definition apr_getNormalized :: "AddressAndPortRange \<Rightarrow> AddressAndPortRange" where
  "apr_getNormalized k = apr_make (apr_addr k) (apr_addrMask k) (apr_portMask k)"

definition apr_getSuper :: "AddressAndPortRange \<Rightarrow> nat \<Rightarrow> AddressAndPortRange" where
  "apr_getSuper k bits =
     (if bits \<le> apr_addrMask k then apr_make (apr_addr k) bits 0
      else if bits \<le> apr_addrMask k + apr_portMask k
      then apr_make (apr_addr k) (apr_addrMask k) (apr_portMask k - (bits - apr_addrMask k))
      else apr_make (apr_addr k) (apr_addrMask k) (apr_portMask k))"

definition apr_empty :: "AddressAndPortRange \<Rightarrow> bool" where
  "apr_empty k \<longleftrightarrow> sin_family (apr_addr k) = 0"

definition AddressAndPortRange_eq :: "AddressAndPortRange \<Rightarrow> AddressAndPortRange \<Rightarrow> bool" where
  "AddressAndPortRange_eq a b \<longleftrightarrow>
     ComboAddress_eq (apr_addr a) (apr_addr b) \<and> apr_addrMask a = apr_addrMask b \<and> apr_portMask a = apr_portMask b"

definition AddressAndPortRange_less :: "AddressAndPortRange \<Rightarrow> AddressAndPortRange \<Rightarrow> bool" where
  "AddressAndPortRange_less a b \<longleftrightarrow>
     (if apr_empty a \<and> \<not> apr_empty b then False
      else if \<not> apr_empty a \<and> apr_empty b then True
      else if apr_addrMask a > apr_addrMask b then True
      else if apr_addrMask a < apr_addrMask b then False
      else if ComboAddress_less (apr_addr a) (apr_addr b) then True
      else if ComboAddress_less (apr_addr b) (apr_addr a) then False
      else if apr_portMask a > apr_portMask b then True
      else if apr_portMask a < apr_portMask b then False
      else sin_port (apr_addr a) < sin_port (apr_addr b))"

definition AddressAndPortRange_hash :: "AddressAndPortRange \<Rightarrow> u32" where
  "AddressAndPortRange_hash k =
     (let port = sin_port (apr_addr k) in burtle [of_nat (port mod 256), of_nat (port div 256)] (addressOnlyHash (apr_addr k)))"

section \<open>The bits of an address\<close>

definition bits_of :: "'a::len word \<Rightarrow> bool list" where
  "bits_of w = map (bit w) (rev [0..<LENGTH('a)])"

definition addr_bits :: "ComboAddress \<Rightarrow> bool list" where
  "addr_bits a = (if ca_isIPv4 a then bits_of (s_addr a) else concat (map bits_of (s6_addr a)))"

definition ca_ok :: "ComboAddress \<Rightarrow> bool" where
  "ca_ok a \<longleftrightarrow> (ca_isIPv4 a \<or> ca_isIPv6 a) \<and> length (s6_addr a) = 16"

definition nm_prefix :: "Netmask \<Rightarrow> bool list" where
  "nm_prefix nm = take (nm_bits nm) (addr_bits (nm_network nm))"

text \<open>A netmask that a constructor made from an address: it is its own normal form.\<close>

definition nm_ok :: "Netmask \<Rightarrow> bool" where
  "nm_ok nm \<longleftrightarrow> ca_ok (nm_network nm) \<and> nm_getNormalized nm = nm"

lemma families [simp]: "AF_INET6 \<noteq> AF_INET" "AF_INET \<noteq> AF_INET6" "AF_INET \<noteq> 0" "AF_INET6 \<noteq> 0"
  by (simp_all add: AF_INET_def AF_INET6_def)

lemma length_bits_of [simp]: "length (bits_of (w :: 'a::len word)) = LENGTH('a)"
  by (simp add: bits_of_def)

lemma bits_of_nth: "i < LENGTH('a) \<Longrightarrow> bits_of (w :: 'a::len word) ! i = bit w (LENGTH('a) - 1 - i)"
  by (simp add: bits_of_def rev_nth)

lemma bits_of_inject: "bits_of (v :: 'a::len word) = bits_of w \<longleftrightarrow> v = w"
proof
  assume eq: "bits_of v = bits_of w"
  have "bit v i = bit w i" if "i < LENGTH('a)" for i
    using arg_cong [OF eq, of "\<lambda>xs. xs ! (LENGTH('a) - 1 - i)"] that by (simp add: bits_of_nth)
  then show "v = w" by (auto intro: bit_word_eqI)
qed simp

lemma concat_nth_8:
  assumes len: "\<And>x. length (f x) = 8" and "i < 8 * length xs"
  shows "concat (map f xs) ! i = f (xs ! (i div 8)) ! (i mod 8)"
  using assms(2)
proof (induction xs arbitrary: i)
  case (Cons x xs)
  show ?case
  proof (cases "i < 8")
    case True
    then show ?thesis by (simp add: nth_append len)
  next
    case False
    then obtain k where k: "i = 8 + k" by (metis le_Suc_ex not_less)
    have "concat (map f xs) ! k = f (xs ! (k div 8)) ! (k mod 8)"
      using Cons.prems k by (intro Cons.IH) simp
    moreover have "(8 + k) div 8 = Suc (k div 8)" by simp
    ultimately show ?thesis by (simp add: nth_append len k)
  qed
qed simp

lemma length_concat_8: "(\<And>x. length (f x) = 8) \<Longrightarrow> length (concat (map f xs)) = 8 * length xs"
  by (induction xs) auto

lemma ca_getBits_cases: "ca_ok a \<Longrightarrow> ca_getBits a = (if ca_isIPv4 a then 32 else 128)"
  by (auto simp: ca_ok_def ca_getBits_def)

lemma length_addr_bits: "ca_ok a \<Longrightarrow> length (addr_bits a) = ca_getBits a"
  by (auto simp: addr_bits_def ca_getBits_def ca_ok_def length_concat_8)

lemma addr_bits_nth:
  "ca_ok a \<Longrightarrow> i < ca_getBits a \<Longrightarrow>
   addr_bits a ! i = (if ca_isIPv4 a then bit (s_addr a) (31 - i) else bit (s6_addr a ! (i div 8)) (7 - i mod 8))"
  by (auto simp: addr_bits_def ca_getBits_def ca_ok_def concat_nth_8 bits_of_nth split: if_splits)

lemma byte_index:
  assumes "(i :: nat) < 128"
  shows "15 - (127 - i) div 8 = i div 8 \<and> (127 - i) mod 8 = 7 - i mod 8"
proof -
  define q r where "q = i div 8" and "r = i mod 8"
  then have i: "i = 8 * q + r" "r < 8" "q < 16" using assms by auto
  define a b where "a = 15 - q" and "b = 7 - r"
  have "127 - i = 8 * a + b" "b < 8" "15 - a = q" using i by (auto simp: a_def b_def)
  then show ?thesis by (simp add: q_def [symmetric] r_def [symmetric] b_def)
qed

lemma ca_getBit_msb:
  assumes "ca_ok a" "i < ca_getBits a"
  shows "ca_getBit a (- 1 - int i) = addr_bits a ! i"
proof (cases "ca_isIPv4 a")
  case True
  with assms have "i < 32" by (simp add: ca_getBits_def)
  moreover then have "nat (32 + (- 1 - int i)) = 31 - i" by simp
  ultimately show ?thesis
    using assms True by (simp add: ca_getBit_def addr_bits_nth bit_iff_and_push_bit_not_eq_0 Let_def)
next
  case False
  with assms have 6: "ca_isIPv6 a" "i < 128" by (auto simp: ca_ok_def ca_getBits_def)
  then have "nat (128 + (- 1 - int i)) = 127 - i" by simp
  moreover have "15 - (127 - i) div 8 = i div 8" "(127 - i) mod 8 = 7 - i mod 8" using byte_index [OF 6(2)] by simp_all
  ultimately show ?thesis
    using assms 6 False by (simp add: ca_getBit_def addr_bits_nth bit_iff_and_push_bit_not_eq_0 Let_def)
qed

lemma addr_bits_eq:
  assumes "ca_ok a" "ca_ok b" "sin_family a = sin_family b"
  shows "addr_bits a = addr_bits b \<longleftrightarrow> (if ca_isIPv4 a then s_addr a = s_addr b else s6_addr a = s6_addr b)"
proof -
  have "xs = ys" if "concat (map bits_of xs) = concat (map bits_of ys)" "length xs = length ys" for xs ys :: bytes
    using that by (induction xs ys rule: list_induct2') (auto simp: bits_of_inject append_eq_append_conv)
  with assms show ?thesis
    by (auto simp: addr_bits_def bits_of_inject ca_ok_def ca_isIPv4_def)
qed

section \<open>Masking\<close>

lemma mask_bit: "i < LENGTH('a) \<Longrightarrow> bit (NOT (drop_bit d (- 1) :: 'a::len word)) i \<longleftrightarrow> LENGTH('a) - d \<le> i"
  by (auto simp: bit_simps)

lemma mask_bit_8: "i < 8 \<Longrightarrow> bit (NOT (drop_bit d 0xFF :: u8)) i \<longleftrightarrow> 8 - d \<le> i"
proof -
  have "(0xFF :: u8) = - 1" by simp
  then show "i < 8 \<Longrightarrow> ?thesis" using mask_bit [where 'a = 8, of i d] by (simp only:) simp
qed

lemma mask_bit_32: "i < 32 \<Longrightarrow> bit (NOT (drop_bit d 0xFFFFFFFF :: u32)) i \<longleftrightarrow> 32 - d \<le> i"
proof -
  have "(0xFFFFFFFF :: u32) = - 1" by simp
  then show "i < 32 \<Longrightarrow> ?thesis" using mask_bit [where 'a = 32, of i d] by (simp only:) simp
qed

lemma all_ones_32: "w AND (0xFFFFFFFF :: u32) = w"
proof -
  have "(0xFFFFFFFF :: u32) = - 1" by simp
  then show ?thesis by (simp only:) simp
qed

lemma fold_zero:
  "length (fold (\<lambda>idx a. a[idx := 0]) ks (xs :: 'b::zero list)) = length xs"
  "j < length xs \<Longrightarrow> fold (\<lambda>idx a. a[idx := 0]) ks xs ! j = (if j \<in> set ks then 0 else xs ! j)"
  by (induction ks arbitrary: xs) (auto simp: nth_list_update)

lemma length_mask6 [simp]: "length (mask6 d address) = length address"
  by (simp add: mask6_def Let_def fold_zero)

lemma mask6_nth:
  "length address = 16 \<Longrightarrow> j < 16 \<Longrightarrow>
   mask6 d address ! j =
     (if d div 8 < j then 0 else if j = d div 8 then address ! j AND NOT (drop_bit (d mod 8) 0xFF) else address ! j)"
  by (auto simp: mask6_def Let_def fold_zero nth_list_update)

lemma mask6_bit:
  assumes "length address = 16" "i < 128"
  shows "bit (mask6 d address ! (i div 8)) (7 - i mod 8) \<longleftrightarrow> i < d \<and> bit (address ! (i div 8)) (7 - i mod 8)"
proof -
  have i: "i div 8 < 16" using assms by simp
  define q where "q = d div 8"
  define r where "r = d mod 8"
  have d: "d = 8 * q + r" "r < 8" by (simp_all add: q_def r_def)
  have "i = 8 * (i div 8) + i mod 8" "i mod 8 < 8" by simp_all
  then have lt: "i div 8 < q \<Longrightarrow> i < d" "i div 8 = q \<Longrightarrow> i < d \<longleftrightarrow> i mod 8 < r" "q < i div 8 \<Longrightarrow> \<not> i < d"
    using d by linarith+
  have m: "bit (NOT (drop_bit r (255 :: u8))) (7 - i mod 8) \<longleftrightarrow> i mod 8 < r"
    by (subst mask_bit_8) (use d in auto)
  note nth = mask6_nth [OF assms(1) i, of d, folded q_def r_def]
  show ?thesis
    by (cases "i div 8" q rule: linorder_cases) (use lt m in \<open>auto simp: nth bit_and_iff\<close>)
qed

lemma Netmask_of_simps [simp]:
  "sin_family (nm_network (Netmask_of a n)) = sin_family a"
  "sin_port (nm_network (Netmask_of a n)) = 0"
  "ca_isIPv4 (nm_network (Netmask_of a n)) = ca_isIPv4 a"
  "ca_isIPv6 (nm_network (Netmask_of a n)) = ca_isIPv6 a"
  "ca_ok (nm_network (Netmask_of a n)) = ca_ok a"
  "ca_getBits (nm_network (Netmask_of a n)) = ca_getBits a"
  by (simp_all add: Netmask_of_def setBits_def Let_def ca_isIPv4_def ca_isIPv6_def ca_ok_def ca_getBits_def)

lemma Netmask_of_bits: "ca_ok a \<Longrightarrow> nm_bits (Netmask_of a n) = min n (ca_getBits a)"
  by (auto simp: Netmask_of_def setBits_def Let_def ca_getBits_def ca_ok_def ca_isIPv4_def ca_isIPv6_def)

text \<open>The network of a netmask: the first bits of the address, then zeros.\<close>

lemma Netmask_of_addr_bits:
  assumes "ca_ok a"
  shows "addr_bits (nm_network (Netmask_of a n)) = take n (addr_bits a) @ replicate (ca_getBits a - n) False"
proof (rule nth_equalityI)
  show "length (addr_bits (nm_network (Netmask_of a n))) = length (take n (addr_bits a) @ replicate (ca_getBits a - n) False)"
    using assms by (simp add: length_addr_bits min_def)
next
  fix i assume "i < length (addr_bits (nm_network (Netmask_of a n)))"
  then have i: "i < ca_getBits a" using assms by (simp add: length_addr_bits)
  have "addr_bits (nm_network (Netmask_of a n)) ! i \<longleftrightarrow> i < n \<and> addr_bits a ! i"
  proof (cases "ca_isIPv4 a")
    case True
    then have "i < 32" using i by (simp add: ca_getBits_def)
    have "s_addr (nm_network (Netmask_of a n)) =
        (if n < 32 then s_addr a AND NOT (drop_bit n 0xFFFFFFFF) else s_addr a)"
      using True by (simp add: Netmask_of_def setBits_def Let_def ca_isIPv4_def all_ones_32)
    then show ?thesis
      using True i assms mask_bit_32 [of "31 - i" n] \<open>i < 32\<close> by (auto simp: addr_bits_nth bit_and_iff)
  next
    case False
    then have 6: "ca_isIPv6 a" "i < 128" "length (s6_addr a) = 16" using assms i by (auto simp: ca_ok_def ca_getBits_def)
    have "s6_addr (nm_network (Netmask_of a n)) = mask6 (min n 128) (s6_addr a)"
      using False 6 by (simp add: Netmask_of_def setBits_def Let_def ca_isIPv4_def ca_isIPv6_def)
    then show ?thesis
      using False 6 i assms mask6_bit [OF 6(3,2), of "min n 128"] by (simp add: addr_bits_nth)
  qed
  then show "addr_bits (nm_network (Netmask_of a n)) ! i = (take n (addr_bits a) @ replicate (ca_getBits a - n) False) ! i"
    using assms i by (auto simp: nth_append length_addr_bits)
qed

lemma Netmask_of_mask:
  "nm_mask (Netmask_of a n) = (if nm_bits (Netmask_of a n) < 32 then NOT (drop_bit (nm_bits (Netmask_of a n)) 0xFFFFFFFF) else 0xFFFFFFFF)"
  by (simp add: Netmask_of_def setBits_def Let_def)

lemma Netmask_of_other:
  "ca_isIPv4 a \<Longrightarrow> s6_addr (nm_network (Netmask_of a n)) = s6_addr a"
  "ca_isIPv6 a \<Longrightarrow> s_addr (nm_network (Netmask_of a n)) = s_addr a"
  by (auto simp: Netmask_of_def setBits_def Let_def ca_isIPv4_def ca_isIPv6_def)

lemma Netmask_of_idem:
  assumes "ca_ok a"
  shows "Netmask_of (nm_network (Netmask_of a n)) (nm_bits (Netmask_of a n)) = Netmask_of a n" (is "?N = ?M")
proof -
  have bits: "nm_bits ?N = nm_bits ?M" using assms by (simp add: Netmask_of_bits)
  have "addr_bits (nm_network ?N) = addr_bits (nm_network ?M)"
    using assms by (simp add: Netmask_of_addr_bits Netmask_of_bits length_addr_bits min_def)
  then have "(if ca_isIPv4 a then s_addr (nm_network ?N) = s_addr (nm_network ?M) else s6_addr (nm_network ?N) = s6_addr (nm_network ?M))"
    using assms by (subst (asm) addr_bits_eq) auto
  then have "nm_network ?N = nm_network ?M"
    using assms by (intro ComboAddress.equality) (auto simp: Netmask_of_other ca_ok_def split: if_splits)
  moreover have "nm_mask ?N = nm_mask ?M" by (simp only: Netmask_of_mask bits)
  ultimately show ?thesis using bits by (intro Netmask.equality) simp_all
qed

lemma nm_ok_Netmask_of [simp]: "nm_ok (Netmask_of a n) \<longleftrightarrow> ca_ok a"
  by (auto simp: nm_ok_def nm_getNormalized_def Netmask_of_idem)

lemma nm_prefix_Netmask_of: "ca_ok a \<Longrightarrow> nm_prefix (Netmask_of a n) = take n (addr_bits a)"
  by (simp add: nm_prefix_def Netmask_of_addr_bits Netmask_of_bits length_addr_bits min_def)

lemma nm_ok_bits: "nm_ok nm \<Longrightarrow> nm_bits nm \<le> nm_getFullBits nm"
  by (metis Netmask_of_bits min.cobounded2 nm_getFullBits_def nm_getNormalized_def nm_ok_def)

lemma length_nm_prefix: "nm_ok nm \<Longrightarrow> length (nm_prefix nm) = nm_bits nm"
  using nm_ok_bits [of nm] by (simp add: nm_prefix_def nm_ok_def length_addr_bits nm_getFullBits_def)

lemma nm_ok_addr_bits: "nm_ok nm \<Longrightarrow> addr_bits (nm_network nm) = nm_prefix nm @ replicate (nm_getFullBits nm - nm_bits nm) False"
  by (metis Netmask_of_addr_bits nm_getFullBits_def nm_getNormalized_def nm_ok_def nm_prefix_def)

lemma nm_getBit_msb: "nm_ok nm \<Longrightarrow> i < nm_bits nm \<Longrightarrow> nm_getBit nm (- 1 - int i) = nm_prefix nm ! i"
  using nm_ok_bits [of nm] by (simp add: nm_getBit_def ca_getBit_msb nm_ok_def nm_prefix_def nm_getFullBits_def)

lemma nm_getSuper_laws:
  "nm_ok nm \<Longrightarrow> nm_ok (nm_getSuper nm n)"
  "nm_ok nm \<Longrightarrow> nm_prefix (nm_getSuper nm n) = take n (nm_prefix nm)"
  "nm_ok nm \<Longrightarrow> nm_isIPv4 (nm_getSuper nm n) = nm_isIPv4 nm"
  "nm_ok nm \<Longrightarrow> nm_isIPv6 (nm_getSuper nm n) = nm_isIPv6 nm"
  by (simp_all add: nm_getSuper_def nm_ok_def [of nm] nm_isIPv4_def nm_isIPv6_def nm_prefix_Netmask_of nm_prefix_def [of nm] min.commute)

lemma nm_family: "nm_ok nm \<Longrightarrow> nm_isIPv6 nm \<longleftrightarrow> \<not> nm_isIPv4 nm"
  by (auto simp: nm_ok_def ca_ok_def nm_isIPv4_def nm_isIPv6_def ca_isIPv4_def ca_isIPv6_def)

lemma nm_full: "nm_ok nm \<Longrightarrow> nm_getFullBits nm = (if nm_isIPv4 nm then 32 else 128)"
  by (auto simp: nm_ok_def ca_ok_def nm_isIPv4_def nm_getFullBits_def ca_getBits_def ca_isIPv4_def ca_isIPv6_def)

lemma Netmask_eq_prefix:
  assumes "nm_ok k" "nm_ok k'"
  shows "Netmask_eq k k' \<longleftrightarrow> nm_isIPv4 k = nm_isIPv4 k' \<and> nm_prefix k = nm_prefix k'"
proof -
  have ok: "ca_ok (nm_network k)" "ca_ok (nm_network k')" using assms by (simp_all add: nm_ok_def)
  have port: "sin_port (nm_network k) = 0" "sin_port (nm_network k') = 0"
    using assms by (metis Netmask_of_simps(2) nm_getNormalized_def nm_ok_def)+
  have fam: "nm_isIPv4 k = nm_isIPv4 k' \<longleftrightarrow> sin_family (nm_network k) = sin_family (nm_network k')"
    using ok by (auto simp: nm_isIPv4_def ca_ok_def ca_isIPv4_def ca_isIPv6_def)
  show ?thesis
  proof (cases "nm_isIPv4 k = nm_isIPv4 k'")
    case True
    with fam have same: "sin_family (nm_network k) = sin_family (nm_network k')" by simp
    have "Netmask_eq k k' \<longleftrightarrow> addr_bits (nm_network k) = addr_bits (nm_network k') \<and> nm_bits k = nm_bits k'"
      using same port by (simp add: addr_bits_eq [OF ok same] Netmask_eq_def ComboAddress_eq_def ca_isIPv4_def)
    also have "\<dots> \<longleftrightarrow> nm_prefix k = nm_prefix k'"
      using assms True length_nm_prefix [of k] length_nm_prefix [of k']
      by (auto simp: nm_ok_addr_bits nm_full)
    finally show ?thesis using True by simp
  qed (use fam in \<open>auto simp: Netmask_eq_def ComboAddress_eq_def\<close>)
qed

section \<open>Matching\<close>

lemma match_bytes_mask6:
  assumes "length lhs = 16" "length rhs = 16" "mask6 d lhs = lhs" "d \<le> 128"
  shows "match_bytes (d div 8) lhs rhs \<and> (d mod 8 = 0 \<or> lhs ! (d div 8) = rhs ! (d div 8) AND NOT (drop_bit (d mod 8) 0xFF))
     \<longleftrightarrow> mask6 d rhs = lhs" (is "?l \<longleftrightarrow> ?r")
proof -
  have nth: "lhs ! j = (if d div 8 < j then 0 else if j = d div 8 then lhs ! j AND NOT (drop_bit (d mod 8) 0xFF) else lhs ! j)" if "j < 16" for j
    using mask6_nth [OF assms(1) that, of d] by (simp only: assms(3))
  have out: "lhs ! j = 0" if "d div 8 < j" "j < 16" for j using nth [OF that(2)] that(1) by simp
  have zero: "NOT (drop_bit 0 (0xFF :: u8)) = 0" by simp
  have "?r \<longleftrightarrow> (\<forall>j < 16. mask6 d rhs ! j = lhs ! j)"
    using assms by (auto simp: list_eq_iff_nth_eq)
  also have "\<dots> \<longleftrightarrow> (\<forall>j < 16. j \<le> d div 8 \<longrightarrow> (if j = d div 8 then rhs ! j AND NOT (drop_bit (d mod 8) 0xFF) else rhs ! j) = lhs ! j)"
    using out assms(2) by (auto simp: mask6_nth not_less)
  also have "\<dots> \<longleftrightarrow> ?l"
  proof -
    have "d div 8 \<le> 16" "d div 8 = 16 \<Longrightarrow> d mod 8 = 0" using assms(4) by presburger+
    moreover have "rhs ! (d div 8) AND NOT (drop_bit (d mod 8) 0xFF) = lhs ! (d div 8)" if "d mod 8 = 0" "d div 8 < 16"
      using nth [OF that(2)] that(1) by (simp only: zero) simp
    moreover have "match_bytes (d div 8) lhs rhs \<longleftrightarrow> (\<forall>j < d div 8. rhs ! j = lhs ! j)"
      by (fastforce simp: match_bytes_def)
    ultimately show ?thesis by (cases "d div 8 = 16") (auto simp: le_less)
  qed
  finally show ?thesis by (rule sym)
qed

lemma nm_match_prefix:
  assumes "nm_ok nm" "ca_ok a"
  shows "nm_match nm a \<longleftrightarrow> nm_isIPv4 nm = ca_isIPv4 a \<and> nm_prefix nm = take (nm_bits nm) (addr_bits a)"
proof (cases "sin_family (nm_network nm) = sin_family a")
  case False
  with assms have "nm_isIPv4 nm \<noteq> ca_isIPv4 a"
    by (auto simp: nm_ok_def ca_ok_def nm_isIPv4_def ca_isIPv4_def ca_isIPv6_def)
  with False show ?thesis by (simp add: nm_match_def)
next
  case True
  have ok: "ca_ok (nm_network nm)" using assms by (simp add: nm_ok_def)
  have norm: "Netmask_of (nm_network nm) (nm_bits nm) = nm" using assms by (simp add: nm_ok_def nm_getNormalized_def)
  define b where "b = nm_network (Netmask_of a (nm_bits nm))"
  have "sin_family b = sin_family (nm_network nm)" "ca_ok b" using True assms by (simp_all add: b_def)
  then have "nm_match nm a \<longleftrightarrow> addr_bits b = addr_bits (nm_network nm)"
  proof (cases "ca_isIPv4 a")
    case 4: True
    have "s_addr b = s_addr a AND nm_mask nm"
      using 4 True norm Netmask_of_mask [of "nm_network nm" "nm_bits nm"] nm_ok_bits [OF assms(1)] nm_full [OF assms(1)]
      by (simp add: b_def Netmask_of_def [of a] setBits_def Let_def ca_isIPv4_def nm_isIPv4_def)
    then show ?thesis
      using 4 True \<open>ca_ok b\<close> ok assms by (simp add: addr_bits_eq nm_match_def match4_def ca_isIPv4_def b_def)
  next
    case False
    then have 6: "sin_family a = AF_INET6" using assms by (simp add: ca_ok_def ca_isIPv6_def)
    have len: "length (s6_addr (nm_network nm)) = 16" "length (s6_addr a) = 16" using ok assms by (simp_all add: ca_ok_def)
    have le: "nm_bits nm \<le> 128" using nm_ok_bits [OF assms(1)] nm_full [OF assms(1)] by (simp split: if_splits)
    have "s6_addr (nm_network nm) = mask6 (nm_bits nm) (s6_addr (nm_network nm))"
      using 6 True le arg_cong [OF norm, of "\<lambda>m. s6_addr (nm_network m)"]
      by (simp add: Netmask_of_def setBits_def Let_def ca_isIPv4_def ca_isIPv6_def min_def)
    moreover have "s6_addr b = mask6 (nm_bits nm) (s6_addr a)"
      using 6 le by (simp add: b_def Netmask_of_def setBits_def Let_def ca_isIPv4_def ca_isIPv6_def min_def)
    ultimately show ?thesis
      using match_bytes_mask6 [OF len, of "nm_bits nm"] le 6 True \<open>ca_ok b\<close> ok assms
      by (auto simp: addr_bits_eq nm_match_def ca_isIPv4_def b_def Let_def)
  qed
  also have "addr_bits b = take (nm_bits nm) (addr_bits a) @ replicate (ca_getBits a - nm_bits nm) False"
    using assms by (simp add: b_def Netmask_of_addr_bits)
  also have "addr_bits (nm_network nm) = nm_prefix nm @ replicate (ca_getBits a - nm_bits nm) False"
    using nm_ok_addr_bits [OF assms(1)] True by (simp add: nm_getFullBits_def ca_getBits_def ca_isIPv4_def ca_isIPv6_def)
  finally show ?thesis
    using True by (auto simp: nm_isIPv4_def ca_isIPv4_def)
qed

section \<open>The byte string of a netmask\<close>

lemma raw_address:
  assumes "ca_ok a"
  shows "\<exists>b. makeComboAddressFromRaw (if ca_isIPv4 a then 4 else 6) (ca_toByteString a) = Inr b \<and>
    ca_ok b \<and> ca_isIPv4 b = ca_isIPv4 a \<and> addr_bits b = addr_bits a \<and> sin_port b = 0"
proof (cases "ca_isIPv4 a")
  case True
  obtain b0 b1 b2 b3 where bs: "to_be32 (unat (s_addr a)) = [b0, b1, b2, b3]" by (simp add: to_be32_def)
  then have "be32 b0 b1 b2 b3 = unat (s_addr a)"
    by (intro be32_to_be32) (use unsigned_less [of "s_addr a"] in simp)
  with True bs show ?thesis
    by (auto simp: ca_toByteString_def makeComboAddressFromRaw_def ComboAddress_default_def addr_bits_def ca_ok_def
        ca_isIPv4_def ca_isIPv6_def)
next
  case False
  with assms show ?thesis
    by (auto simp: ca_toByteString_def makeComboAddressFromRaw_def ComboAddress_default_def addr_bits_def ca_ok_def
        ca_isIPv4_def ca_isIPv6_def)
qed

lemma length_ca_toByteString: "ca_ok a \<Longrightarrow> length (ca_toByteString a) = (if ca_isIPv4 a then 4 else 16)"
  by (simp add: ca_toByteString_def ca_ok_def)

lemma byteString_roundtrip:
  assumes "nm_ok nm"
  shows "\<exists>nm'. Netmask_byteString (nm_toByteString nm) = Inr nm' \<and> nm_ok nm' \<and> Netmask_eq nm' nm"
proof -
  let ?a = "nm_network nm" and ?bs = "ca_toByteString (nm_network nm)"
  have ok: "ca_ok ?a" using assms by (simp add: nm_ok_def)
  have len: "length ?bs = (if ca_isIPv4 ?a then 4 else 16)" by (rule length_ca_toByteString [OF ok])
  obtain b where b: "makeComboAddressFromRaw (if ca_isIPv4 ?a then 4 else 6) ?bs = Inr b" "ca_ok b"
      "ca_isIPv4 b = ca_isIPv4 ?a" "addr_bits b = addr_bits ?a" "sin_port b = 0"
    using raw_address [OF ok] by blast
  have bits: "unat (of_nat (nm_bits nm) :: u8) = nm_bits nm"
    using nm_ok_bits [OF assms] nm_full [OF assms] by (simp add: unat_of_nat take_bit_nat_eq_self split: if_splits)
  have port: "b\<lparr>sin_port := 0\<rparr> = b" using b(5) by simp
  have "Netmask_byteString (nm_toByteString nm) = Inr (Netmask_of b (nm_bits nm))"
    using len b(1) bits port
    by (auto simp: Netmask_byteString_def nm_toByteString_def Let_def nth_append Netmask_of_def split: if_splits)
  moreover have "nm_ok (Netmask_of b (nm_bits nm))" using b(2) by simp
  moreover have "Netmask_eq (Netmask_of b (nm_bits nm)) nm"
    using b assms by (simp add: Netmask_eq_prefix nm_prefix_Netmask_of nm_prefix_def [of nm])
      (simp add: nm_isIPv4_def ca_isIPv4_def)
  ultimately show ?thesis by blast
qed

end
