(* ===== verification/NetmaskTree.thy ===== *)
theory NetmaskTree
  imports IpAddress
begin

text \<open>
  The class template \<^verbatim>\<open>NetmaskTree\<close> of \<^verbatim>\<open>pdns/iputils.hh\<close>, a binary tree of prefixes with path compression, and \<^verbatim>\<open>NetmaskGroup\<close>.
  The template parameter \<^verbatim>\<open>K\<close> is the record of the operations the tree calls on its keys; \<open>dflt\<close> is \<^verbatim>\<open>T()\<close>. The
  pointers to children are the children themselves, and where the source writes through
  a pointer the enclosing nodes are rebuilt. A pointer to the parent is the rest of the path to the root, a list of frames. The pointer
  \<^verbatim>\<open>d_left\<close> outlives the call that sets it: it is the key of its node, which no other node of
  the tree has and which never changes.
\<close>

section \<open>Keys and nodes\<close>

record 'k key_ops =
  k_default :: 'k
  k_isIPv4 :: "'k \<Rightarrow> bool"
  k_isIPv6 :: "'k \<Rightarrow> bool"
  k_getBits :: "'k \<Rightarrow> nat"
  k_getFullBits :: "'k \<Rightarrow> nat"
  k_getBit :: "'k \<Rightarrow> int \<Rightarrow> bool"
  k_getNormalized :: "'k \<Rightarrow> 'k"
  k_getSuper :: "'k \<Rightarrow> nat \<Rightarrow> 'k"
  k_eq :: "'k \<Rightarrow> 'k \<Rightarrow> bool"
  k_make :: "ComboAddress \<Rightarrow> nat \<Rightarrow> 'k"

definition Netmask_ops :: "Netmask key_ops" where
  "Netmask_ops = \<lparr>k_default = Netmask_default, k_isIPv4 = nm_isIPv4, k_isIPv6 = nm_isIPv6, k_getBits = nm_bits,
     k_getFullBits = nm_getFullBits, k_getBit = nm_getBit, k_getNormalized = nm_getNormalized, k_getSuper = nm_getSuper,
     k_eq = Netmask_eq, k_make = Netmask_of\<rparr>"

definition AddressAndPortRange_ops :: "AddressAndPortRange key_ops" where
  "AddressAndPortRange_ops = \<lparr>k_default = \<lparr>apr_addr = ComboAddress_default\<lparr>sin_family := 0, sin_port := 0\<rparr>, apr_addrMask = 0, apr_portMask = 0\<rparr>,
     k_isIPv4 = apr_isIPv4, k_isIPv6 = apr_isIPv6, k_getBits = apr_getBits,
     k_getFullBits = apr_getFullBits, k_getBit = apr_getBit, k_getNormalized = apr_getNormalized, k_getSuper = apr_getSuper,
     k_eq = AddressAndPortRange_eq, k_make = (\<lambda>address bits. apr_make address bits 0)\<rparr>"

datatype ('k, 'v) TreeNode =
    nullptr
  | TreeNode (tn_left: "('k, 'v) TreeNode") (tn_right: "('k, 'v) TreeNode") (tn_first: 'k) (tn_second: 'v) (tn_assigned: bool) (tn_bits: nat)

definition TreeNode_root :: "'k key_ops \<Rightarrow> 'v \<Rightarrow> ('k, 'v) TreeNode" where
  "TreeNode_root K dflt = TreeNode nullptr nullptr (k_default K) dflt False 0"

definition TreeNode_of :: "'k key_ops \<Rightarrow> 'v \<Rightarrow> 'k \<Rightarrow> ('k, 'v) TreeNode" where
  "TreeNode_of K dflt key = TreeNode nullptr nullptr (k_getNormalized K key) dflt False (k_getFullBits K key)"

fun set_left :: "('k, 'v) TreeNode \<Rightarrow> ('k, 'v) TreeNode \<Rightarrow> ('k, 'v) TreeNode" where
  "set_left c (TreeNode l r k v a d) = TreeNode c r k v a d"
| "set_left c nullptr = nullptr"

fun set_right :: "('k, 'v) TreeNode \<Rightarrow> ('k, 'v) TreeNode \<Rightarrow> ('k, 'v) TreeNode" where
  "set_right c (TreeNode l r k v a d) = TreeNode l c k v a d"
| "set_right c nullptr = nullptr"

text \<open>What an insertion tells its caller: \<^verbatim>\<open>is_left\<close>, whether the node was assigned before, and the node.\<close>

type_synonym ('k, 'v) inserted = "('k, 'v) TreeNode \<times> bool \<times> bool \<times> 'k"

fun make_left :: "'k key_ops \<Rightarrow> ('k, 'v) TreeNode \<Rightarrow> ('k, 'v) inserted \<Rightarrow> ('k, 'v) inserted" where
  "make_left K (TreeNode l r k v a d) (child, res) = (TreeNode child r k v a (k_getBits K k), res)"
| "make_left K nullptr res = res"

fun make_right :: "'k key_ops \<Rightarrow> ('k, 'v) TreeNode \<Rightarrow> ('k, 'v) inserted \<Rightarrow> ('k, 'v) inserted" where
  "make_right K (TreeNode l r k v a d) (child, res) = (TreeNode l child k v a (k_getBits K k), res)"
| "make_right K nullptr res = res"

text \<open>\<^verbatim>\<open>split\<close> and \<^verbatim>\<open>fork\<close> give the node that takes the place of \<open>node\<close> below its parent.\<close>

definition tn_split :: "'k key_ops \<Rightarrow> 'v \<Rightarrow> 'k \<Rightarrow> nat \<Rightarrow> ('k, 'v) TreeNode \<Rightarrow> ('k, 'v) TreeNode" where
  "tn_split K dflt key bits node =
     (if k_getBit K (tn_first node) (- 1 - int bits)
      then TreeNode nullptr node (k_getNormalized K key) dflt False bits
      else TreeNode node nullptr (k_getNormalized K key) dflt False bits)"

definition tn_fork :: "'k key_ops \<Rightarrow> 'v \<Rightarrow> nat \<Rightarrow> ('k, 'v) TreeNode \<Rightarrow> ('k, 'v) inserted \<Rightarrow> ('k, 'v) inserted" where
  "tn_fork K dflt bits node new = (case new of (child2, res) \<Rightarrow>
     let branch_key = k_getNormalized K (k_getSuper K (tn_first node) bits) in
     (if k_getBit K (tn_first node) (- 1 - int bits)
      then TreeNode child2 node branch_key dflt False bits
      else TreeNode node child2 branch_key dflt False bits, res))"

section \<open>Insertion\<close>

text \<open>The end of \<^verbatim>\<open>insert\<close>, after its loop has found a node; \<open>f\<close> is what the caller does to the value through the returned reference.\<close>

definition insert_here :: "'k key_ops \<Rightarrow> 'v \<Rightarrow> ('v \<Rightarrow> 'v) \<Rightarrow> 'k \<Rightarrow> bool \<Rightarrow> ('k, 'v) TreeNode \<Rightarrow> ('k, 'v) inserted" where
  "insert_here K dflt f key is_left node =
     (case (if k_getBits K (tn_first node) > k_getBits K key then tn_split K dflt key (k_getBits K key) node else node) of
        TreeNode l r k v a d \<Rightarrow> (TreeNode l r k (f v) True d, (if l \<noteq> nullptr then False else is_left), a, k)
      | nullptr \<Rightarrow> (nullptr, is_left, False, key))"

function insert_loop ::
    "'k key_ops \<Rightarrow> 'v \<Rightarrow> ('v \<Rightarrow> 'v) \<Rightarrow> 'k \<Rightarrow> nat \<Rightarrow> bool \<Rightarrow> ('k, 'v) TreeNode \<Rightarrow> ('k, 'v) inserted" where
  "insert_loop K dflt f key bits is_left node =
     (if bits < k_getBits K key then
        let vall = k_getBit K key (- 1 - int bits) in
        if bits \<ge> tn_bits node then
          (if vall then
             let is_left = (if tn_left node \<noteq> nullptr \<or> tn_assigned node then False else is_left) in
             if tn_right node = nullptr
             then make_right K node (insert_here K dflt f key is_left (TreeNode_of K dflt key))
             else (case insert_loop K dflt f key (bits + 1) is_left (tn_right node) of (c, res) \<Rightarrow> (set_right c node, res))
           else
             if tn_left node = nullptr
             then make_left K node (insert_here K dflt f key is_left (TreeNode_of K dflt key))
             else (case insert_loop K dflt f key (bits + 1) is_left (tn_left node) of (c, res) \<Rightarrow> (set_left c node, res)))
        else if bits \<ge> k_getBits K (tn_first node) then
          (if vall
           then make_right K node (insert_here K dflt f key (if tn_assigned node then False else is_left) (TreeNode_of K dflt key))
           else make_left K node (insert_here K dflt f key is_left (TreeNode_of K dflt key)))
        else
          let valr = k_getBit K (tn_first node) (- 1 - int bits) in
          if vall \<noteq> valr
          then tn_fork K dflt bits node (insert_here K dflt f key (if vall then False else is_left) (TreeNode_of K dflt key))
          else insert_loop K dflt f key (bits + 1) is_left node
      else insert_here K dflt f key is_left node)"
  by pat_completeness auto
termination
  by (relation "measure (\<lambda>(K, dflt, f, key, bits, is_left, node). k_getBits K key - bits)") auto

declare insert_loop.simps [simp del]

record ('k, 'v) NetmaskTree =
  d_root :: "('k, 'v) TreeNode"
  d_left :: "'k option"
  d_size :: nat

definition NetmaskTree_new :: "'k key_ops \<Rightarrow> 'v \<Rightarrow> ('k, 'v) NetmaskTree" where
  "NetmaskTree_new K dflt = \<lparr>d_root = TreeNode_root K dflt, d_left = None, d_size = 0\<rparr>"

text \<open>The first node of a family, and the end of \<^verbatim>\<open>insert\<close> where the tree is updated.\<close>

definition first_node :: "'k key_ops \<Rightarrow> 'v \<Rightarrow> ('v \<Rightarrow> 'v) \<Rightarrow> 'k \<Rightarrow> ('k, 'v) TreeNode" where
  "first_node K dflt f key = TreeNode nullptr nullptr (k_getNormalized K key) (f dflt) True (k_getFullBits K key)"

definition insert_end :: "('k, 'v) NetmaskTree \<Rightarrow> (('k, 'v) TreeNode \<Rightarrow> ('k, 'v) TreeNode) \<Rightarrow> ('k, 'v) inserted \<Rightarrow> ('k, 'v) NetmaskTree result" where
  "insert_end t set_child res = (case res of (node, is_left, was_assigned, ptr) \<Rightarrow>
     if \<not> was_assigned
     then Inr (t\<lparr>d_root := set_child node, d_size := d_size t + 1, d_left := (if is_left then Some ptr else d_left t)\<rparr>)
     else if is_left \<and> d_left t \<noteq> Some ptr
     then Inl (logic_error ''NetmaskTree::insert(): lost track of left-most node in tree'')
     else Inr (t\<lparr>d_root := set_child node\<rparr>))"

definition nt_insert :: "'k key_ops \<Rightarrow> 'v \<Rightarrow> ('v \<Rightarrow> 'v) \<Rightarrow> 'k \<Rightarrow> ('k, 'v) NetmaskTree \<Rightarrow> ('k, 'v) NetmaskTree result" where
  "nt_insert K dflt f key t =
     (if k_isIPv4 K key then
        if tn_left (d_root t) = nullptr
        then let node = first_node K dflt f key in
          Inr (t\<lparr>d_root := set_left node (d_root t), d_size := d_size t + 1, d_left := Some (tn_first node)\<rparr>)
        else insert_end t (\<lambda>node. set_left node (d_root t)) (insert_loop K dflt f key 0 True (tn_left (d_root t)))
      else if k_isIPv6 K key then
        if tn_right (d_root t) = nullptr
        then let node = first_node K dflt f key in
          Inr (t\<lparr>d_root := set_right node (d_root t), d_size := d_size t + 1,
                 d_left := (if tn_left (d_root t) = nullptr then Some (tn_first node) else d_left t)\<rparr>)
        else insert_end t (\<lambda>node. set_right node (d_root t))
               (insert_loop K dflt f key 0 (tn_left (d_root t) = nullptr) (tn_right (d_root t)))
      else Inl (NetmaskException ''invalid address family''))"

definition insert_or_assign :: "'k key_ops \<Rightarrow> 'v \<Rightarrow> 'k \<Rightarrow> 'v \<Rightarrow> ('k, 'v) NetmaskTree \<Rightarrow> ('k, 'v) NetmaskTree result" where
  "insert_or_assign K dflt key value t = nt_insert K dflt (\<lambda>_. value) key t"

section \<open>Lookup\<close>

definition nt_empty :: "('k, 'v) NetmaskTree \<Rightarrow> bool" where
  "nt_empty t \<longleftrightarrow> d_size t = 0"

definition lookup_end :: "'k key_ops \<Rightarrow> nat \<Rightarrow> ('k, 'v) TreeNode \<Rightarrow> ('k \<times> 'v) option \<Rightarrow> ('k \<times> 'v) option" where
  "lookup_end K bits node ret =
     (if tn_assigned node \<and> bits = k_getBits K (tn_first node) then Some (tn_first node, tn_second node) else ret)"

function lookup_loop ::
    "'k key_ops \<Rightarrow> 'k \<Rightarrow> nat \<Rightarrow> nat \<Rightarrow> ('k, 'v) TreeNode \<Rightarrow> ('k \<times> 'v) option \<Rightarrow> ('k \<times> 'v) option" where
  "lookup_loop K key max_bits bits node ret =
     (if bits < max_bits then
        let vall = k_getBit K key (- 1 - int bits) in
        if bits \<ge> tn_bits node then
          let ret = lookup_end K bits node ret; child = (if vall then tn_right node else tn_left node) in
          if child = nullptr then lookup_end K bits node ret else lookup_loop K key max_bits (bits + 1) child ret
        else if bits \<ge> k_getBits K (tn_first node) then lookup_end K bits node ret
        else if vall \<noteq> k_getBit K (tn_first node) (- 1 - int bits) then lookup_end K bits node ret
        else lookup_loop K key max_bits (bits + 1) node ret
      else lookup_end K bits node ret)"
  by pat_completeness auto
termination
  by (relation "measure (\<lambda>(K, key, max_bits, bits, node, ret). max_bits - bits)") auto

declare lookup_loop.simps [simp del]

definition lookupImpl :: "'k key_ops \<Rightarrow> 'k \<Rightarrow> nat \<Rightarrow> ('k, 'v) NetmaskTree \<Rightarrow> ('k \<times> 'v) option result" where
  "lookupImpl K key max_bits t =
     (let run = (\<lambda>node. Inr (if node = nullptr then None else lookup_loop K key max_bits 0 node None)) in
      if k_isIPv4 K key then run (tn_left (d_root t))
      else if k_isIPv6 K key then run (tn_right (d_root t))
      else Inl (NetmaskException ''invalid address family''))"

definition nt_lookup :: "'k key_ops \<Rightarrow> 'k \<Rightarrow> ('k, 'v) NetmaskTree \<Rightarrow> ('k \<times> 'v) option result" where
  "nt_lookup K key t = (if nt_empty t then Inr None else lookupImpl K key (k_getBits K key) t)"

definition nt_lookup_address :: "'k key_ops \<Rightarrow> ComboAddress \<Rightarrow> int \<Rightarrow> ('k, 'v) NetmaskTree \<Rightarrow> ('k \<times> 'v) option result" where
  "nt_lookup_address K address max_bits t =
     (if nt_empty t then Inr None
      else let addr_bits = ca_getBits address;
               bits = (if max_bits < 0 \<or> max_bits > int addr_bits then addr_bits else nat max_bits)
           in lookupImpl K (k_make K address bits) bits t)"

definition nt_has_key :: "'k key_ops \<Rightarrow> 'k \<Rightarrow> ('k, 'v) NetmaskTree \<Rightarrow> bool result" where
  "nt_has_key K key t = bindR (nt_lookup K key t) (\<lambda>ptr. Inr (case ptr of None \<Rightarrow> False | Some (first, second) \<Rightarrow> k_eq K first key))"

definition nt_match :: "'k key_ops \<Rightarrow> ComboAddress \<Rightarrow> ('k, 'v) NetmaskTree \<Rightarrow> bool result" where
  "nt_match K address t = bindR (nt_lookup_address K address 128 t) (\<lambda>ptr. Inr (ptr \<noteq> None))"

section \<open>Traversal\<close>

text \<open>A frame is a parent node without the child that the path goes through.\<close>

datatype ('k, 'v) frame =
    FromLeft "('k, 'v) TreeNode" 'k 'v bool nat
  | FromRight "('k, 'v) TreeNode" 'k 'v bool nat

type_synonym ('k, 'v) position = "('k, 'v) TreeNode \<times> ('k, 'v) frame list"

fun parent :: "('k, 'v) TreeNode \<Rightarrow> ('k, 'v) frame \<Rightarrow> ('k, 'v) TreeNode" where
  "parent c (FromLeft r k v a d) = TreeNode c r k v a d"
| "parent c (FromRight l k v a d) = TreeNode l c k v a d"

fun traverse_l :: "('k, 'v) TreeNode \<Rightarrow> ('k, 'v) frame list \<Rightarrow> ('k, 'v) position" where
  "traverse_l (TreeNode l r k v a d) fs =
     (if l \<noteq> nullptr then traverse_l l (FromLeft r k v a d # fs) else (TreeNode l r k v a d, fs))"
| "traverse_l nullptr fs = (nullptr, fs)"

fun ascend :: "('k, 'v) TreeNode \<Rightarrow> ('k, 'v) frame list \<Rightarrow> ('k, 'v) position option" where
  "ascend tnode [] = None"
| "ascend tnode (FromLeft r k v a d # fs) = Some (TreeNode tnode r k v a d, fs)"
| "ascend tnode (FromRight l k v a d # fs) = ascend (TreeNode l tnode k v a d) fs"

fun traverse_lnr :: "('k, 'v) position \<Rightarrow> ('k, 'v) position option" where
  "traverse_lnr (TreeNode l r k v a d, fs) =
     (if r \<noteq> nullptr then Some (traverse_l r (FromRight l k v a d # fs)) else ascend (TreeNode l r k v a d) fs)"
| "traverse_lnr (nullptr, fs) = None"

text \<open>The nodes of a tree from left to right, and those that come after a position.\<close>

fun nodes :: "('k, 'v) TreeNode \<Rightarrow> ('k \<times> 'v \<times> bool) list" where
  "nodes nullptr = []"
| "nodes (TreeNode l r k v a d) = nodes l @ (k, v, a) # nodes r"

fun nodes_above :: "('k, 'v) frame list \<Rightarrow> ('k \<times> 'v \<times> bool) list" where
  "nodes_above [] = []"
| "nodes_above (FromLeft r k v a d # fs) = (k, v, a) # nodes r @ nodes_above fs"
| "nodes_above (FromRight l k v a d # fs) = nodes_above fs"

fun nodes_after :: "('k, 'v) position \<Rightarrow> ('k \<times> 'v \<times> bool) list" where
  "nodes_after (TreeNode l r k v a d, fs) = nodes r @ nodes_above fs"
| "nodes_after (nullptr, fs) = []"

fun node_at :: "('k, 'v) position \<Rightarrow> 'k \<times> 'v \<times> bool" where
  "node_at (tnode, fs) = (tn_first tnode, tn_second tnode, tn_assigned tnode)"

lemma traverse_l_nodes:
  "tnode \<noteq> nullptr \<Longrightarrow> node_at (traverse_l tnode fs) # nodes_after (traverse_l tnode fs) = nodes tnode @ nodes_above fs"
  by (induction tnode fs rule: traverse_l.induct) auto

lemma ascend_nodes:
  "ascend tnode fs = None \<Longrightarrow> nodes_above fs = []"
  "ascend tnode fs = Some p \<Longrightarrow> nodes_above fs = node_at p # nodes_after p"
  by (induction tnode fs rule: ascend.induct) auto

lemma traverse_lnr_None: "fst p \<noteq> nullptr \<Longrightarrow> traverse_lnr p = None \<Longrightarrow> nodes_after p = []"
  by (cases p rule: traverse_lnr.cases) (auto simp: ascend_nodes split: if_splits)

lemma traverse_lnr_Some: "traverse_lnr p = Some q \<Longrightarrow> nodes_after p = node_at q # nodes_after q"
  by (cases p rule: traverse_lnr.cases) (auto simp: ascend_nodes traverse_l_nodes split: if_splits)

lemma traverse_l_not_null: "tnode \<noteq> nullptr \<Longrightarrow> fst (traverse_l tnode fs) \<noteq> nullptr"
  by (induction tnode fs rule: traverse_l.induct) auto

lemma ascend_not_null: "ascend tnode fs = Some p \<Longrightarrow> fst p \<noteq> nullptr"
  by (induction tnode fs rule: ascend.induct) auto

lemma traverse_lnr_not_null: "traverse_lnr p = Some q \<Longrightarrow> fst q \<noteq> nullptr"
  by (cases p rule: traverse_lnr.cases) (auto simp: ascend_not_null traverse_l_not_null split: if_splits)

function traverse_lnr_assigned :: "('k, 'v) position \<Rightarrow> ('k, 'v) position option" where
  "traverse_lnr_assigned p =
     (case traverse_lnr p of
        None \<Rightarrow> None
      | Some q \<Rightarrow> if tn_assigned (fst q) then Some q else traverse_lnr_assigned q)"
  by pat_completeness auto
termination
  by (relation "measure (length \<circ> nodes_after)") (auto dest: traverse_lnr_Some)

declare traverse_lnr_assigned.simps [simp del]

lemma traverse_lnr_assigned_not_null: "traverse_lnr_assigned p = Some q \<Longrightarrow> fst q \<noteq> nullptr"
  by (induction p rule: traverse_lnr_assigned.induct)
    (subst (asm) (2) traverse_lnr_assigned.simps, auto dest: traverse_lnr_not_null split: option.splits if_splits)

lemma traverse_lnr_assigned_nodes:
  "traverse_lnr_assigned p = Some q \<Longrightarrow>
   tn_assigned (fst q) \<and> (\<exists>skip. nodes_after p = skip @ node_at q # nodes_after q \<and> (\<forall>(k, v, a) \<in> set skip. \<not> a))"
proof (induction p rule: traverse_lnr_assigned.induct)
  case (1 p)
  from "1.prems" obtain p' where p': "traverse_lnr p = Some p'"
    by (subst (asm) traverse_lnr_assigned.simps) (auto split: option.splits)
  show ?case
  proof (cases "tn_assigned (fst p')")
    case True
    with "1.prems" p' have "q = p'" by (subst (asm) traverse_lnr_assigned.simps) simp
    then show ?thesis using True traverse_lnr_Some [OF p'] by (auto intro: exI [of _ "[]"])
  next
    case False
    with "1.prems" p' have "traverse_lnr_assigned p' = Some q" by (subst (asm) traverse_lnr_assigned.simps) simp
    from "1.IH" [OF p' False this] obtain skip where
      "tn_assigned (fst q)" "nodes_after p' = skip @ node_at q # nodes_after q" "\<forall>(k, v, a) \<in> set skip. \<not> a" by blast
    then show ?thesis
      using False traverse_lnr_Some [OF p'] by (cases p') (auto intro!: exI [of _ "node_at p' # skip"])
  qed
qed

lemma traverse_lnr_assigned_None:
  "fst p \<noteq> nullptr \<Longrightarrow> traverse_lnr_assigned p = None \<Longrightarrow> \<forall>(k, v, a) \<in> set (nodes_after p). \<not> a"
proof (induction p rule: traverse_lnr_assigned.induct)
  case (1 p)
  show ?case
  proof (cases "traverse_lnr p")
    case None
    then show ?thesis using "1.prems" by (simp add: traverse_lnr_None)
  next
    case (Some p')
    with "1.prems" have "\<not> tn_assigned (fst p')" "traverse_lnr_assigned p' = None"
      by (auto simp: traverse_lnr_assigned.simps [of p] split: if_splits)
    with "1.IH" [OF Some] traverse_lnr_not_null [OF Some] traverse_lnr_Some [OF Some] show ?thesis
      by (cases p') auto
  qed
qed

text \<open>The entries of the assigned nodes, and what an iterator that starts at an assigned node visits.\<close>

definition assigned_nodes :: "('k \<times> 'v \<times> bool) list \<Rightarrow> ('k \<times> 'v) list" where
  "assigned_nodes ns = map (\<lambda>(k, v, a). (k, v)) (filter (\<lambda>(k, v, a). a) ns)"

lemma assigned_nodes_simps [simp]:
  "assigned_nodes [] = []"
  "assigned_nodes ((k, v, a) # ns) = (if a then [(k, v)] else []) @ assigned_nodes ns"
  "assigned_nodes (ns @ ms) = assigned_nodes ns @ assigned_nodes ms"
  by (simp_all add: assigned_nodes_def)

lemma assigned_nodes_none: "\<forall>(k, v, a) \<in> set ns. \<not> a \<Longrightarrow> assigned_nodes ns = []"
  by (auto simp: assigned_nodes_def filter_empty_conv)

function iterate :: "('k, 'v) position \<Rightarrow> ('k \<times> 'v) list" where
  "iterate p =
     (tn_first (fst p), tn_second (fst p)) # (case traverse_lnr_assigned p of None \<Rightarrow> [] | Some q \<Rightarrow> iterate q)"
  by pat_completeness auto
termination
  by (relation "measure (length \<circ> nodes_after)") (auto dest!: traverse_lnr_assigned_nodes)

declare iterate.simps [simp del]

lemma iterate_nodes:
  "fst p \<noteq> nullptr \<Longrightarrow> iterate p = (tn_first (fst p), tn_second (fst p)) # assigned_nodes (nodes_after p)"
proof (induction p rule: iterate.induct)
  case (1 p)
  show ?case
  proof (cases "traverse_lnr_assigned p")
    case None
    then show ?thesis
      using "1.prems" by (simp add: iterate.simps [of p] assigned_nodes_none [OF traverse_lnr_assigned_None])
  next
    case (Some q)
    from traverse_lnr_assigned_nodes [OF Some] obtain skip where
      "tn_assigned (fst q)" "nodes_after p = skip @ node_at q # nodes_after q" "\<forall>(k, v, a) \<in> set skip. \<not> a" by blast
    then show ?thesis
      using "1.IH" [OF Some traverse_lnr_assigned_not_null [OF Some]] Some
      by (cases q) (simp add: iterate.simps [of p] assigned_nodes_none)
  qed
qed

text \<open>The node that a stored pointer points to, with its path.\<close>

fun find_node :: "'k \<Rightarrow> ('k, 'v) TreeNode \<Rightarrow> ('k, 'v) frame list \<Rightarrow> ('k, 'v) position option" where
  "find_node ptr nullptr fs = None"
| "find_node ptr (TreeNode l r k v a d) fs =
     (if k = ptr then Some (TreeNode l r k v a d, fs)
      else case find_node ptr l (FromLeft r k v a d # fs) of
        Some p \<Rightarrow> Some p
      | None \<Rightarrow> find_node ptr r (FromRight l k v a d # fs))"

text \<open>A loop from \<^verbatim>\<open>begin()\<close> to \<^verbatim>\<open>end()\<close>.\<close>

definition nt_list :: "('k, 'v) NetmaskTree \<Rightarrow> ('k \<times> 'v) list" where
  "nt_list t =
     (case d_left t of
        None \<Rightarrow> []
      | Some ptr \<Rightarrow> (case find_node ptr (d_root t) [] of None \<Rightarrow> [] | Some p \<Rightarrow> iterate p))"

section \<open>Removal and copies\<close>

definition cleanup_tree :: "('k, 'v) TreeNode \<Rightarrow> ('k, 'v) TreeNode" where
  "cleanup_tree node =
     (if \<not> (tn_left node \<noteq> nullptr \<or> tn_right node \<noteq> nullptr \<or> tn_assigned node) then nullptr else node)"

fun unassign :: "'v \<Rightarrow> ('k, 'v) TreeNode \<Rightarrow> ('k, 'v) TreeNode" where
  "unassign dflt (TreeNode l r k v a d) = TreeNode l r k dflt False d"
| "unassign dflt nullptr = nullptr"

text \<open>The loop of \<^verbatim>\<open>erase\<close>; when it finds a node, the result holds what is left in its place and the node.\<close>

function erase_loop :: "'k key_ops \<Rightarrow> 'v \<Rightarrow> 'k \<Rightarrow> nat \<Rightarrow> ('k, 'v) TreeNode \<Rightarrow> (('k, 'v) TreeNode \<times> 'k) option" where
  "erase_loop K dflt key bits node =
     (if node = nullptr then None
      else if bits < k_getBits K key then
        let vall = k_getBit K key (- 1 - int bits) in
        if bits \<ge> tn_bits node then
          (if vall
           then map_option (\<lambda>(c, ptr). (cleanup_tree (set_right c node), ptr)) (erase_loop K dflt key (bits + 1) (tn_right node))
           else map_option (\<lambda>(c, ptr). (cleanup_tree (set_left c node), ptr)) (erase_loop K dflt key (bits + 1) (tn_left node)))
        else if bits \<ge> k_getBits K (tn_first node) then
          (if k_getBits K key \<noteq> k_getBits K (tn_first node) then None
           else Some (cleanup_tree (unassign dflt node), tn_first node))
        else if vall \<noteq> k_getBit K (tn_first node) (- 1 - int bits) then None
        else erase_loop K dflt key (bits + 1) node
      else Some (cleanup_tree (unassign dflt node), tn_first node))"
  by pat_completeness auto
termination
  by (relation "measure (\<lambda>(K, dflt, key, bits, node). k_getBits K key - bits)") auto

declare erase_loop.simps [simp del]

text \<open>
  The end of \<^verbatim>\<open>erase\<close>. The step from \<^verbatim>\<open>d_left\<close> to the next assigned node does not look at the node it starts
  from, so it is taken in the tree as it was.
\<close>

definition erase_end ::
    "('k, 'v) NetmaskTree \<Rightarrow> (('k, 'v) TreeNode \<Rightarrow> ('k, 'v) TreeNode) \<Rightarrow> (('k, 'v) TreeNode \<times> 'k) option \<Rightarrow> ('k, 'v) NetmaskTree result" where
  "erase_end t set_child res =
     (case res of
        None \<Rightarrow> Inr t
      | Some (c, ptr) \<Rightarrow>
          if d_size t = 0 then Inl (logic_error ''NetmaskTree::erase(): size of tree is zero before erase'')
          else Inr (t\<lparr>d_size := d_size t - 1,
                      d_left := (if d_left t = Some ptr
                                 then (case find_node ptr (d_root t) [] of
                                         None \<Rightarrow> None
                                       | Some p \<Rightarrow> map_option (tn_first \<circ> fst) (traverse_lnr_assigned p))
                                 else d_left t),
                      d_root := set_child c\<rparr>))"

definition nt_erase :: "'k key_ops \<Rightarrow> 'v \<Rightarrow> 'k \<Rightarrow> ('k, 'v) NetmaskTree \<Rightarrow> ('k, 'v) NetmaskTree result" where
  "nt_erase K dflt key t =
     (if k_isIPv4 K key
      then erase_end t (\<lambda>c. set_left c (d_root t)) (erase_loop K dflt key 0 (tn_left (d_root t)))
      else if k_isIPv6 K key
      then erase_end t (\<lambda>c. set_right c (d_root t)) (erase_loop K dflt key 0 (tn_right (d_root t)))
      else Inl (NetmaskException ''invalid address family''))"

definition nt_clear :: "'k key_ops \<Rightarrow> 'v \<Rightarrow> ('k, 'v) NetmaskTree \<Rightarrow> ('k, 'v) NetmaskTree" where
  "nt_clear K dflt t = t\<lparr>d_root := TreeNode_root K dflt, d_left := None, d_size := 0\<rparr>"

text \<open>\<^verbatim>\<open>copyTree\<close>; an exception makes the source abort.\<close>

function copy_loop :: "'k key_ops \<Rightarrow> 'v \<Rightarrow> ('k, 'v) position \<Rightarrow> ('k, 'v) NetmaskTree \<Rightarrow> ('k, 'v) NetmaskTree result" where
  "copy_loop K dflt p t =
     bindR (if tn_assigned (fst p) then nt_insert K dflt (\<lambda>_. tn_second (fst p)) (tn_first (fst p)) t else Inr t) (\<lambda>t.
       case traverse_lnr p of None \<Rightarrow> Inr t | Some q \<Rightarrow> copy_loop K dflt q t)"
  by pat_completeness auto
termination
  by (relation "measure (\<lambda>(K, dflt, p, t). length (nodes_after p))") (auto dest: traverse_lnr_Some)

declare copy_loop.simps [simp del]

definition copyTree :: "'k key_ops \<Rightarrow> 'v \<Rightarrow> ('k, 'v) NetmaskTree \<Rightarrow> ('k, 'v) NetmaskTree \<Rightarrow> ('k, 'v) NetmaskTree result" where
  "copyTree K dflt rhs t = (if d_root rhs = nullptr then Inr t else copy_loop K dflt (traverse_l (d_root rhs) []) t)"

definition NetmaskTree_copy :: "'k key_ops \<Rightarrow> 'v \<Rightarrow> ('k, 'v) NetmaskTree \<Rightarrow> ('k, 'v) NetmaskTree result" where
  "NetmaskTree_copy K dflt rhs = copyTree K dflt rhs (NetmaskTree_new K dflt)"

section \<open>Groups\<close>

type_synonym NetmaskGroup = "(Netmask, bool) NetmaskTree"

definition NetmaskGroup_new :: NetmaskGroup where
  "NetmaskGroup_new = NetmaskTree_new Netmask_ops False"

definition nmg_match :: "ComboAddress \<Rightarrow> NetmaskGroup \<Rightarrow> bool result" where
  "nmg_match address g =
     bindR (nt_lookup_address Netmask_ops address 128 g) (\<lambda>ret. Inr (case ret of Some (first, second) \<Rightarrow> second | None \<Rightarrow> False))"

definition nmg_lookup :: "ComboAddress \<Rightarrow> NetmaskGroup \<Rightarrow> (bool \<times> Netmask option) result" where
  "nmg_lookup address g =
     bindR (nt_lookup_address Netmask_ops address 128 g)
       (\<lambda>ret. Inr (case ret of Some (first, second) \<Rightarrow> (second, Some first) | None \<Rightarrow> (False, None)))"

definition addMask :: "Netmask \<Rightarrow> bool \<Rightarrow> NetmaskGroup \<Rightarrow> NetmaskGroup result" where
  "addMask netmask positive g = nt_insert Netmask_ops False (\<lambda>_. positive) netmask g"

fun addMasks_loop :: "(Netmask \<times> bool) list \<Rightarrow> bool option \<Rightarrow> NetmaskGroup \<Rightarrow> NetmaskGroup result" where
  "addMasks_loop [] positive g = Inr g"
| "addMasks_loop ((first, second) # entries) positive g =
     bindR (addMask first (case positive of Some p \<Rightarrow> p | None \<Rightarrow> second) g) (addMasks_loop entries positive)"

definition addMasks :: "NetmaskGroup \<Rightarrow> bool option \<Rightarrow> NetmaskGroup \<Rightarrow> NetmaskGroup result" where
  "addMasks other positive g = addMasks_loop (nt_list other) positive g"

definition deleteMask :: "Netmask \<Rightarrow> NetmaskGroup \<Rightarrow> NetmaskGroup result" where
  "deleteMask netmask g = nt_erase Netmask_ops False netmask g"

fun deleteMasks_loop :: "(Netmask \<times> bool) list \<Rightarrow> NetmaskGroup \<Rightarrow> NetmaskGroup result" where
  "deleteMasks_loop [] g = Inr g"
| "deleteMasks_loop ((first, second) # entries) g = bindR (deleteMask first g) (deleteMasks_loop entries)"

definition deleteMasks :: "NetmaskGroup \<Rightarrow> NetmaskGroup \<Rightarrow> NetmaskGroup result" where
  "deleteMasks other g = deleteMasks_loop (nt_list other) g"

end
