(* ===== verification/NetmaskTreeLaws.thy ===== *)
theory NetmaskTreeLaws
  imports NetmaskTree
begin

text \<open>
  What the prefix tree promises. The locale \<open>prefix_key\<close> is what the tree needs of its keys: each valid key
  has a list of bits, and the operations on keys read, cut and compare this list. Under it the tree
  is a finite map from prefixes, a lookup finds the longest stored prefix, and the iterators visit the
  entries from left to right. Netmasks satisfy the interface; ranges of ports do not.
\<close>

section \<open>The invariant\<close>

fun tn_wf :: "'k key_ops \<Rightarrow> ('k \<Rightarrow> bool) \<Rightarrow> ('k \<Rightarrow> bool list) \<Rightarrow> 'v \<Rightarrow> bool \<Rightarrow> bool list \<Rightarrow> ('k, 'v) TreeNode \<Rightarrow> bool" where
  "tn_wf K valid pf dflt v4 p nullptr \<longleftrightarrow> True"
| "tn_wf K valid pf dflt v4 p (TreeNode l r k v a d) \<longleftrightarrow>
     valid k \<and> k_isIPv4 K k = v4 \<and> prefix p (pf k) \<and>
     (d = length (pf k) \<or> d = k_getFullBits K k \<and> l = nullptr \<and> r = nullptr) \<and>
     (a \<or> v = dflt \<and> (l \<noteq> nullptr \<or> r \<noteq> nullptr)) \<and>
     tn_wf K valid pf dflt v4 (pf k @ [False]) l \<and> tn_wf K valid pf dflt v4 (pf k @ [True]) r"

definition tn_entries :: "('k, 'v) TreeNode \<Rightarrow> ('k \<times> 'v) list" where
  "tn_entries node = assigned_nodes (nodes node)"

lemma tn_entries_simps [simp]:
  "tn_entries nullptr = []"
  "tn_entries (TreeNode l r k v a d) = tn_entries l @ (if a then [(k, v)] else []) @ tn_entries r"
  by (simp_all add: tn_entries_def)

text \<open>How an insertion changes the entries.\<close>

definition inserted_into ::
    "('k \<Rightarrow> 'id) \<Rightarrow> 'v \<Rightarrow> ('v \<Rightarrow> 'v) \<Rightarrow> 'k \<Rightarrow> bool \<Rightarrow> ('k \<times> 'v) list \<Rightarrow> ('k \<times> 'v) list \<Rightarrow> bool \<times> bool \<times> 'k \<Rightarrow> bool" where
  "inserted_into pf dflt f key is_left es es' res = (case res of (il, was, ptr) \<Rightarrow>
     pf ptr = pf key \<and> (\<exists>xs v ys. es' = xs @ (ptr, f v) # ys \<and> es = xs @ (if was then [(ptr, v)] else []) @ ys \<and>
       (\<not> was \<longrightarrow> v = dflt) \<and> (il \<longleftrightarrow> is_left \<and> xs = [])))"

lemma inserted_intoI:
  "pf ptr = pf key \<Longrightarrow> es' = xs @ (ptr, f v) # ys \<Longrightarrow> es = xs @ (if was then [(ptr, v)] else []) @ ys \<Longrightarrow>
   (\<not> was \<longrightarrow> v = dflt) \<Longrightarrow> (il \<longleftrightarrow> is_left \<and> xs = []) \<Longrightarrow> inserted_into pf dflt f key is_left es es' (il, was, ptr)"
  unfolding inserted_into_def prod.case by blast

lemma inserted_intoE:
  assumes "inserted_into pf dflt f key is_left es es' (il, was, ptr)"
  obtains xs v ys where "pf ptr = pf key" "es' = xs @ (ptr, f v) # ys" "es = xs @ (if was then [(ptr, v)] else []) @ ys"
    "\<not> was \<longrightarrow> v = dflt" "il \<longleftrightarrow> is_left \<and> xs = []"
  using assms unfolding inserted_into_def prod.case by blast

lemma inserted_into_within:
  assumes "inserted_into pf dflt f key (il \<and> zs = []) es es' res"
  shows "inserted_into pf dflt f key il (zs @ es @ ws) (zs @ es' @ ws) res"
proof -
  obtain il' was ptr where res: "res = (il', was, ptr)" by (cases res)
  obtain xs v ys where "pf ptr = pf key" "es' = xs @ (ptr, f v) # ys" "es = xs @ (if was then [(ptr, v)] else []) @ ys"
      "\<not> was \<longrightarrow> v = dflt" "il' \<longleftrightarrow> (il \<and> zs = []) \<and> xs = []"
    using assms unfolding res by (rule inserted_intoE)
  then show ?thesis
    unfolding res by (intro inserted_intoI [where xs = "zs @ xs" and ys = "ys @ ws" and v = v]) auto
qed

lemma inserted_into_new:
  "il = (is_left \<and> xs = []) \<Longrightarrow> inserted_into pf dflt f key is_left (xs @ ys) (xs @ (key, f dflt) # ys) (il, False, key)"
  by (rule inserted_intoI [where xs = xs and ys = ys and v = dflt]) auto

lemma take_extend: "take n xs = take n ys \<Longrightarrow> n < length xs \<Longrightarrow> n < length ys \<Longrightarrow> xs ! n = ys ! n \<Longrightarrow> take (Suc n) xs = take (Suc n) ys"
  by (simp add: take_Suc_conv_app_nth)

lemma prefix_common: "prefix q xs \<Longrightarrow> prefix q ys \<Longrightarrow> take (length q) xs = take (length q) ys \<and> length q \<le> length xs"
  by (auto simp: prefix_def)

lemma take_branch: "n < length xs \<Longrightarrow> prefix (take n xs @ [xs ! n]) xs"
  by (simp add: take_Suc_conv_app_nth [symmetric] take_is_prefix)

lemma prefix_take_le: "prefix p xs \<Longrightarrow> length p \<le> n \<Longrightarrow> prefix p (take n xs)"
  by (auto simp: prefix_def)

text \<open>The longest stored prefix of a list of bits, or \<open>ret\<close> when there is none.\<close>

definition longest_match :: "('k \<Rightarrow> bool list) \<Rightarrow> bool list \<Rightarrow> ('k \<times> 'v) set \<Rightarrow> ('k \<times> 'v) option \<Rightarrow> ('k \<times> 'v) option \<Rightarrow> bool" where
  "longest_match pf q es ret r \<longleftrightarrow>
     (if \<exists>e \<in> es. prefix (pf (fst e)) q
      then \<exists>e \<in> es. r = Some e \<and> prefix (pf (fst e)) q \<and> (\<forall>e' \<in> es. prefix (pf (fst e')) q \<longrightarrow> length (pf (fst e')) \<le> length (pf (fst e)))
      else r = ret)"

lemma longest_match_none: "(\<And>e. e \<in> es \<Longrightarrow> \<not> prefix (pf (fst e)) q) \<Longrightarrow> longest_match pf q es ret ret"
  by (auto simp: longest_match_def)

lemma longest_match_only:
  "(\<And>e. e \<in> es \<Longrightarrow> \<not> prefix (pf (fst e)) q) \<Longrightarrow> prefix (pf (fst e)) q \<Longrightarrow> longest_match pf q (insert e es) ret (Some e)"
  by (auto simp: longest_match_def)

lemma longest_match_below:
  assumes "longest_match pf q es (if a then Some e else ret) r" and e: "prefix (pf (fst e)) q"
    and "\<And>e'. e' \<in> es \<Longrightarrow> length (pf (fst e)) \<le> length (pf (fst e'))" and "\<And>e'. e' \<in> others \<Longrightarrow> \<not> prefix (pf (fst e')) q"
  shows "longest_match pf q (others \<union> (if a then {e} else {}) \<union> es) ret r"
proof (cases "\<exists>e' \<in> es. prefix (pf (fst e')) q")
  case True
  with assms obtain m where "m \<in> es" "r = Some m" "prefix (pf (fst m)) q"
      "\<forall>e' \<in> es. prefix (pf (fst e')) q \<longrightarrow> length (pf (fst e')) \<le> length (pf (fst m))"
    by (auto simp: longest_match_def)
  with assms(3,4) show ?thesis by (fastforce simp: longest_match_def)
next
  case False
  with assms show ?thesis by (auto simp: longest_match_def)
qed

section \<open>Keys\<close>

locale prefix_key =
  fixes K :: "'k key_ops" and valid :: "'k \<Rightarrow> bool" and pf :: "'k \<Rightarrow> bool list" and full :: "bool \<Rightarrow> nat"
  assumes length_pf: "valid k \<Longrightarrow> k_getBits K k = length (pf k)"
    and full_bits: "valid k \<Longrightarrow> k_getFullBits K k = full (k_isIPv4 K k)"
    and pf_full: "valid k \<Longrightarrow> length (pf k) \<le> full (k_isIPv4 K k)"
    and getBit: "valid k \<Longrightarrow> i < length (pf k) \<Longrightarrow> k_getBit K k (- 1 - int i) = pf k ! i"
    and normalized: "valid k \<Longrightarrow> k_getNormalized K k = k"
    and super_valid: "valid k \<Longrightarrow> valid (k_getSuper K k n)"
    and super_pf: "valid k \<Longrightarrow> pf (k_getSuper K k n) = take n (pf k)"
    and super_family: "valid k \<Longrightarrow> k_isIPv4 K (k_getSuper K k n) = k_isIPv4 K k"
    and family: "valid k \<Longrightarrow> k_isIPv6 K k \<longleftrightarrow> \<not> k_isIPv4 K k"
    and key_eq: "valid k \<Longrightarrow> valid k' \<Longrightarrow> k_eq K k k' \<longleftrightarrow> k_isIPv4 K k = k_isIPv4 K k' \<and> pf k = pf k'"
begin

lemma wf_entries:
  "tn_wf K valid pf dflt v4 p node \<Longrightarrow> (k, v) \<in> set (tn_entries node) \<Longrightarrow> valid k \<and> k_isIPv4 K k = v4 \<and> prefix p (pf k)"
  by (induction K valid pf dflt v4 p node rule: tn_wf.induct) (auto split: if_splits intro: prefix_order.trans append_prefixD)

lemma wf_nonempty: "tn_wf K valid pf dflt v4 p node \<Longrightarrow> node \<noteq> nullptr \<Longrightarrow> tn_entries node \<noteq> []"
  by (induction K valid pf dflt v4 p node rule: tn_wf.induct) auto

lemma wf_weaken: "tn_wf K valid pf dflt v4 p node \<Longrightarrow> prefix q p \<Longrightarrow> tn_wf K valid pf dflt v4 q node"
  by (cases node) (auto intro: prefix_order.trans)

lemma wf_key: "tn_wf K valid pf dflt v4 p node \<Longrightarrow> node \<noteq> nullptr \<Longrightarrow> valid (tn_first node) \<and> prefix p (pf (tn_first node))"
  by (cases node) auto

lemma wf_distinct: "tn_wf K valid pf dflt v4 p node \<Longrightarrow> distinct (map (pf \<circ> fst) (tn_entries node))"
proof (induction node arbitrary: p)
  case (TreeNode l r k v a d)
  then have wf: "tn_wf K valid pf dflt v4 (pf k @ [False]) l" "tn_wf K valid pf dflt v4 (pf k @ [True]) r" by simp_all
  have l: "prefix (pf k @ [False]) (pf (fst e))" if "e \<in> set (tn_entries l)" for e
    using wf_entries [OF wf(1), of "fst e" "snd e"] that by simp
  have r: "prefix (pf k @ [True]) (pf (fst e))" if "e \<in> set (tn_entries r)" for e
    using wf_entries [OF wf(2), of "fst e" "snd e"] that by simp
  have "pf k \<notin> (pf \<circ> fst) ` set (tn_entries l)" "pf k \<notin> (pf \<circ> fst) ` set (tn_entries r)"
    using l r prefix_length_le by fastforce+
  moreover have "(pf \<circ> fst) ` set (tn_entries l) \<inter> (pf \<circ> fst) ` set (tn_entries r) = {}"
  proof -
    have "\<not> (prefix (pf k @ [False]) q \<and> prefix (pf k @ [True]) q)" for q by (auto simp: prefix_def)
    with l r show ?thesis by (auto simp: image_iff) metis
  qed
  moreover note TreeNode.IH(1) [OF wf(1)] TreeNode.IH(2) [OF wf(2)]
  ultimately show ?case by auto
qed simp

lemma new_leaf:
  "valid key \<Longrightarrow> insert_here K dflt f key il (TreeNode_of K dflt key) =
     (TreeNode nullptr nullptr key (f dflt) True (k_getFullBits K key), il, False, key)"
  by (simp add: insert_here_def TreeNode_of_def normalized)

lemma wf_leaf:
  "valid key \<Longrightarrow> prefix p (pf key) \<Longrightarrow>
   tn_wf K valid pf dflt (k_isIPv4 K key) p (TreeNode nullptr nullptr key w True (k_getFullBits K key))"
  by simp

text \<open>The node of an insertion: a new leaf beside or below \<open>node\<close>, a new node above it, or \<open>node\<close> itself.\<close>

lemma fork_ok:
  assumes "tn_wf K valid pf dflt v4 p node" "node \<noteq> nullptr" "valid key" "k_isIPv4 K key = v4" "length p \<le> n"
    and n: "n < length (pf (tn_first node))" "n < length (pf key)" "take n (pf (tn_first node)) = take n (pf key)"
    and ne: "pf key ! n \<noteq> pf (tn_first node) ! n"
  shows "case tn_fork K dflt n node (TreeNode nullptr nullptr key (f dflt) True (k_getFullBits K key), (if pf key ! n then False else is_left), False, key) of
    (node', res) \<Rightarrow> node' \<noteq> nullptr \<and> tn_wf K valid pf dflt v4 p node' \<and> inserted_into pf dflt f key is_left (tn_entries node) (tn_entries node') res"
proof -
  obtain l r k v a d where node: "node = TreeNode l r k v a d" using assms(2) by (cases node) auto
  have k: "valid k" "k_isIPv4 K k = v4" "prefix p (pf k)" using assms(1) node by simp_all
  let ?b = "k_getNormalized K (k_getSuper K k n)"
  have b: "valid ?b" "pf ?b = take n (pf k)" "k_isIPv4 K ?b = v4"
    using k by (simp_all add: normalized super_valid super_pf super_family)
  have len: "length (take n (pf k)) = n" using n(1) node by simp
  have p: "prefix p (take n (pf k))" using k(3) assms(5) by (rule prefix_take_le)
  have node': "tn_wf K valid pf dflt v4 (take n (pf k) @ [pf k ! n]) node"
    using assms(1) n(1) node by (auto simp: take_branch)
  have leaf: "tn_wf K valid pf dflt v4 (take n (pf k) @ [\<not> pf k ! n]) (TreeNode nullptr nullptr key (f dflt) True (k_getFullBits K key))"
    using wf_leaf [OF assms(3), of "take n (pf key) @ [pf key ! n]"] take_branch [OF n(2)] assms(4) n(3) ne node by (cases "pf key ! n") auto
  have bit: "k_getBit K k (- 1 - int n) = pf k ! n" using k(1) n(1) node by (simp add: getBit)
  have old: "tn_entries node \<noteq> []" using assms(1,2) by (rule wf_nonempty)
  show ?thesis
  proof (cases "pf k ! n")
    case True
    then show ?thesis
      using node' leaf b len p ne bit node old inserted_into_new [of is_left is_left "[]" pf dflt f key "tn_entries node"]
      by (auto simp: tn_fork_def Let_def)
  next
    case False
    then show ?thesis
      using node' leaf b len p ne bit node old inserted_into_new [of False is_left "tn_entries node" pf dflt f key "[]"]
      by (auto simp: tn_fork_def Let_def)
  qed
qed

lemma insert_here_ok:
  assumes "tn_wf K valid pf dflt v4 p node" "node \<noteq> nullptr" "valid key" "k_isIPv4 K key = v4" "length p \<le> length (pf key)"
    and le: "length (pf key) \<le> length (pf (tn_first node))" and eq: "take (length (pf key)) (pf (tn_first node)) = pf key"
  shows "case insert_here K dflt f key is_left node of
    (node', res) \<Rightarrow> node' \<noteq> nullptr \<and> tn_wf K valid pf dflt v4 p node' \<and> inserted_into pf dflt f key is_left (tn_entries node) (tn_entries node') res"
proof -
  obtain l r k v a d where node: "node = TreeNode l r k v a d" using assms(2) by (cases node) auto
  have k: "valid k" "k_isIPv4 K k = v4" "prefix p (pf k)" using assms(1) node by simp_all
  let ?n = "length (pf key)"
  show ?thesis
  proof (cases "?n < length (pf k)")
    case True
    have p: "prefix p (pf key)" using prefix_take_le [OF k(3) assms(5)] eq node by simp
    have below: "tn_wf K valid pf dflt v4 (pf key @ [pf k ! ?n]) node"
      using assms(1) take_branch [OF True] eq node by auto
    have bit: "k_getBit K k (- 1 - int ?n) = pf k ! ?n" using k(1) True by (simp add: getBit)
    have old: "tn_entries node \<noteq> []" using assms(1,2) by (rule wf_nonempty)
    have above: "k_getBits K (tn_first node) > k_getBits K key" using True k(1) assms(3) node by (simp add: length_pf)
    show ?thesis
    proof (cases "pf k ! ?n")
      case True
      have "insert_here K dflt f key is_left node = (TreeNode nullptr node key (f dflt) True ?n, is_left, False, key)"
        using above bit True assms(3) by (simp add: insert_here_def tn_split_def normalized length_pf node)
      then show ?thesis
        using below p True assms(3,4) inserted_into_new [of is_left is_left "[]" pf dflt f key "tn_entries node"] by simp
    next
      case False
      have "insert_here K dflt f key is_left node = (TreeNode node nullptr key (f dflt) True ?n, False, False, key)"
        using above bit False assms(3) by (simp add: insert_here_def tn_split_def normalized length_pf node)
      moreover have "inserted_into pf dflt f key is_left (tn_entries node @ []) (tn_entries node @ [(key, f dflt)]) (False, False, key)"
        by (rule inserted_into_new) (simp add: old)
      moreover have "tn_wf K valid pf dflt v4 p (TreeNode node nullptr key (f dflt) True ?n)"
        using below p False assms(3,4) by simp
      ultimately show ?thesis by simp
    qed
  next
    case False
    then have "take ?n (pf k) = pf k" by simp
    then have same: "pf k = pf key" using eq by (simp only: node TreeNode.sel)
    have left: "l = nullptr \<longleftrightarrow> tn_entries l = []" using assms(1) node wf_nonempty [of dflt v4 "pf k @ [False]" l] by auto
    have here: "insert_here K dflt f key is_left node = (TreeNode l r k (f v) True d, (if l \<noteq> nullptr then False else is_left), a, k)"
      using same k(1) assms(3) by (simp add: insert_here_def length_pf node)
    have "inserted_into pf dflt f key is_left (tn_entries node) (tn_entries l @ (k, f v) # tn_entries r)
        (if l \<noteq> nullptr then False else is_left, a, k)"
      by (rule inserted_intoI [where xs = "tn_entries l" and ys = "tn_entries r" and v = v])
        (use same left assms(1) node in auto)
    then show ?thesis using assms(1) node here by simp
  qed
qed

lemma insert_right_ok:
  assumes wf: "tn_wf K valid pf dflt v4 p (TreeNode l r k v a d)" and key: "valid key" "k_isIPv4 K key = v4"
    and pre: "prefix (pf k @ [True]) (pf key)" and zs: "zs = tn_entries l @ (if a then [(k, v)] else [])"
  shows "r = nullptr \<Longrightarrow> tn_wf K valid pf dflt v4 p (TreeNode l (TreeNode nullptr nullptr key (f dflt) True (k_getFullBits K key)) k v a (length (pf k))) \<and>
      inserted_into pf dflt f key is_left (tn_entries (TreeNode l r k v a d))
        (tn_entries (TreeNode l (TreeNode nullptr nullptr key (f dflt) True d') k v a (length (pf k)))) (is_left \<and> zs = [], False, key)"
    and "r \<noteq> nullptr \<Longrightarrow> c \<noteq> nullptr \<Longrightarrow> tn_wf K valid pf dflt v4 (pf k @ [True]) c \<Longrightarrow>
      inserted_into pf dflt f key (is_left \<and> zs = []) (tn_entries r) (tn_entries c) res \<Longrightarrow>
      tn_wf K valid pf dflt v4 p (TreeNode l c k v a d) \<and>
      inserted_into pf dflt f key is_left (tn_entries (TreeNode l r k v a d)) (tn_entries (TreeNode l c k v a d)) res"
proof -
  assume "r = nullptr"
  moreover have "inserted_into pf dflt f key is_left (zs @ []) (zs @ [(key, f dflt)]) (is_left \<and> zs = [], False, key)"
    by (rule inserted_into_new) simp
  ultimately show "tn_wf K valid pf dflt v4 p (TreeNode l (TreeNode nullptr nullptr key (f dflt) True (k_getFullBits K key)) k v a (length (pf k))) \<and>
      inserted_into pf dflt f key is_left (tn_entries (TreeNode l r k v a d))
        (tn_entries (TreeNode l (TreeNode nullptr nullptr key (f dflt) True d') k v a (length (pf k)))) (is_left \<and> zs = [], False, key)"
    using wf key pre zs by auto
next
  assume "r \<noteq> nullptr" "c \<noteq> nullptr" "tn_wf K valid pf dflt v4 (pf k @ [True]) c"
    "inserted_into pf dflt f key (is_left \<and> zs = []) (tn_entries r) (tn_entries c) res"
  with inserted_into_within [OF this(4), of "[]"]
  show "tn_wf K valid pf dflt v4 p (TreeNode l c k v a d) \<and>
      inserted_into pf dflt f key is_left (tn_entries (TreeNode l r k v a d)) (tn_entries (TreeNode l c k v a d)) res"
    using wf zs by auto
qed

lemma insert_left_ok:
  assumes wf: "tn_wf K valid pf dflt v4 p (TreeNode l r k v a d)" and key: "valid key" "k_isIPv4 K key = v4"
    and pre: "prefix (pf k @ [False]) (pf key)"
  shows "l = nullptr \<Longrightarrow> tn_wf K valid pf dflt v4 p (TreeNode (TreeNode nullptr nullptr key (f dflt) True (k_getFullBits K key)) r k v a (length (pf k))) \<and>
      inserted_into pf dflt f key is_left (tn_entries (TreeNode l r k v a d))
        (tn_entries (TreeNode (TreeNode nullptr nullptr key (f dflt) True d') r k v a (length (pf k)))) (is_left, False, key)"
    and "l \<noteq> nullptr \<Longrightarrow> c \<noteq> nullptr \<Longrightarrow> tn_wf K valid pf dflt v4 (pf k @ [False]) c \<Longrightarrow>
      inserted_into pf dflt f key is_left (tn_entries l) (tn_entries c) res \<Longrightarrow>
      tn_wf K valid pf dflt v4 p (TreeNode c r k v a d) \<and>
      inserted_into pf dflt f key is_left (tn_entries (TreeNode l r k v a d)) (tn_entries (TreeNode c r k v a d)) res"
proof -
  let ?ws = "(if a then [(k, v)] else []) @ tn_entries r"
  assume "l = nullptr"
  moreover have "inserted_into pf dflt f key is_left ([] @ ?ws) ([] @ (key, f dflt) # ?ws) (is_left, False, key)"
    by (rule inserted_into_new) simp
  ultimately show "tn_wf K valid pf dflt v4 p (TreeNode (TreeNode nullptr nullptr key (f dflt) True (k_getFullBits K key)) r k v a (length (pf k))) \<and>
      inserted_into pf dflt f key is_left (tn_entries (TreeNode l r k v a d))
        (tn_entries (TreeNode (TreeNode nullptr nullptr key (f dflt) True d') r k v a (length (pf k)))) (is_left, False, key)"
    using wf key pre by auto
next
  assume a: "l \<noteq> nullptr" "c \<noteq> nullptr" "tn_wf K valid pf dflt v4 (pf k @ [False]) c"
    "inserted_into pf dflt f key is_left (tn_entries l) (tn_entries c) res"
  then show "tn_wf K valid pf dflt v4 p (TreeNode c r k v a d) \<and>
      inserted_into pf dflt f key is_left (tn_entries (TreeNode l r k v a d)) (tn_entries (TreeNode c r k v a d)) res"
    using wf inserted_into_within [of pf dflt f key is_left "[]" "tn_entries l" "tn_entries c" res "(if a then [(k, v)] else []) @ tn_entries r"]
    by auto
qed

lemma insert_loop_ok:
  assumes key: "valid key" "k_isIPv4 K key = v4"
  shows "tn_wf K valid pf dflt v4 p node \<Longrightarrow> node \<noteq> nullptr \<Longrightarrow> length p \<le> bits \<Longrightarrow> bits \<le> length (pf key) \<Longrightarrow>
    bits \<le> length (pf (tn_first node)) \<Longrightarrow> take bits (pf (tn_first node)) = take bits (pf key) \<Longrightarrow>
    case insert_loop K dflt f key bits is_left node of
      (node', res) \<Rightarrow> node' \<noteq> nullptr \<and> tn_wf K valid pf dflt v4 p node' \<and> inserted_into pf dflt f key is_left (tn_entries node) (tn_entries node') res"
proof (induction "length (pf key) - bits" arbitrary: bits is_left node p rule: less_induct)
  case less
  note wf = less.prems(1) and agree = less.prems(6)
  obtain l r k v a d where node: "node = TreeNode l r k v a d" using less.prems(2) by (cases node) auto
  have k: "valid k" using wf node by simp
  note bits = length_pf [OF key(1)] length_pf [OF k]
  have full: "k_getFullBits K k \<ge> length (pf key)" using wf node key pf_full [OF key(1)] by (simp add: full_bits)
  show ?case
  proof (cases "bits < length (pf key)")
    case False
    then have len: "bits = length (pf key)" using less.prems by simp
    have "insert_loop K dflt f key bits is_left node = insert_here K dflt f key is_left node"
      using False bits by (simp add: insert_loop.simps [of _ _ _ _ bits])
    then show ?thesis using insert_here_ok [OF wf less.prems(2) key, of f is_left] less.prems len by simp
  next
    case True
    have vall: "k_getBit K key (- 1 - int bits) = pf key ! bits" using True key by (simp add: getBit)
    show ?thesis
    proof (cases "bits = length (pf k)")
      case at_end: True
      have pfk: "pf k = take bits (pf key)" using agree at_end node by simp
      then have pre: "prefix (pf k @ [pf key ! bits]) (pf key)" using take_branch [OF True] by simp
      have d: "d \<le> bits \<or> l = nullptr \<and> r = nullptr" using wf node at_end by auto
      have ge: "length (pf k) \<le> bits" using at_end by simp
      define zs where "zs = tn_entries l @ (if a then [(k, v)] else [])"
      have l: "l = nullptr \<longleftrightarrow> tn_entries l = []" using wf node wf_nonempty [of dflt v4 "pf k @ [False]" l] by auto
      show ?thesis
      proof (cases "pf key ! bits")
        case one: True
        have il: "(if l \<noteq> nullptr \<or> a then False else is_left) = (is_left \<and> zs = [])"
            "l = nullptr \<Longrightarrow> (if a then False else is_left) = (is_left \<and> zs = [])"
          using l by (auto simp: zs_def)
        have wf1: "tn_wf K valid pf dflt v4 p (TreeNode l r k v a d)" and pre1: "prefix (pf k @ [True]) (pf key)"
          using wf node pre one by simp_all
        note right = insert_right_ok [OF wf1 key pre1 zs_def]
        show ?thesis
        proof (cases "r = nullptr")
          case null: True
          have "insert_loop K dflt f key bits is_left node =
              (TreeNode l (TreeNode nullptr nullptr key (f dflt) True (k_getFullBits K key)) k v a (length (pf k)), is_left \<and> zs = [], False, key)"
            using d
          proof
            assume "d \<le> bits"
            then show ?thesis using True one null il(1) by (simp add: insert_loop.simps [of _ _ _ _ bits] vall bits new_leaf key node)
          next
            assume "l = nullptr \<and> r = nullptr"
            then show ?thesis
              using True one ge il by (cases "d \<le> bits") (simp_all add: insert_loop.simps [of _ _ _ _ bits] vall bits new_leaf key node)
          qed
          with right(1) [OF null, of f is_left "k_getFullBits K key"] node show ?thesis by simp
        next
          case child: False
          have "tn_wf K valid pf dflt v4 (pf k @ [True]) r" using wf node by simp
          moreover note wf_key [OF this child]
          moreover have "take (bits + 1) (pf (tn_first r)) = take (bits + 1) (pf key)"
            using calculation(2) pre1 at_end by (auto simp: prefix_def)
          ultimately have IH: "case insert_loop K dflt f key (bits + 1) (is_left \<and> zs = []) r of
              (node', res) \<Rightarrow> node' \<noteq> nullptr \<and> tn_wf K valid pf dflt v4 (pf k @ [True]) node' \<and>
                inserted_into pf dflt f key (is_left \<and> zs = []) (tn_entries r) (tn_entries node') res"
            using True child at_end by (intro less.hyps) (auto dest: prefix_length_le)
          obtain c res where c: "insert_loop K dflt f key (bits + 1) (is_left \<and> zs = []) r = (c, res)" by (rule prod.exhaust)
          have "insert_loop K dflt f key bits is_left node = (TreeNode l c k v a d, res)"
            using True one child d c il by (simp add: insert_loop.simps [of _ _ _ _ bits] vall bits node)
          then show ?thesis using right(2) [OF child, of c f is_left res] IH c node by simp
        qed
      next
        case zero: False
        have wf1: "tn_wf K valid pf dflt v4 p (TreeNode l r k v a d)" and pre1: "prefix (pf k @ [False]) (pf key)"
          using wf node pre zero by simp_all
        note left = insert_left_ok [OF wf1 key pre1]
        show ?thesis
        proof (cases "l = nullptr")
          case null: True
          have "insert_loop K dflt f key bits is_left node =
              (TreeNode (TreeNode nullptr nullptr key (f dflt) True (k_getFullBits K key)) r k v a (length (pf k)), is_left, False, key)"
            using True zero null ge by (simp add: insert_loop.simps [of _ _ _ _ bits] vall bits new_leaf key node)
          with left(1) [OF null, of f is_left "k_getFullBits K key"] node show ?thesis by simp
        next
          case child: False
          have "tn_wf K valid pf dflt v4 (pf k @ [False]) l" using wf node by simp
          moreover note wf_key [OF this child]
          moreover have "take (bits + 1) (pf (tn_first l)) = take (bits + 1) (pf key)"
            using calculation(2) pre1 at_end by (auto simp: prefix_def)
          ultimately have IH: "case insert_loop K dflt f key (bits + 1) is_left l of
              (node', res) \<Rightarrow> node' \<noteq> nullptr \<and> tn_wf K valid pf dflt v4 (pf k @ [False]) node' \<and>
                inserted_into pf dflt f key is_left (tn_entries l) (tn_entries node') res"
            using True child at_end by (intro less.hyps) (auto dest: prefix_length_le)
          obtain c res where c: "insert_loop K dflt f key (bits + 1) is_left l = (c, res)" by (rule prod.exhaust)
          have "insert_loop K dflt f key bits is_left node = (TreeNode c r k v a d, res)"
            using True zero child d c by (simp add: insert_loop.simps [of _ _ _ _ bits] vall bits node)
          then show ?thesis using left(2) [OF child, of c f is_left res] IH c node by simp
        qed
      qed
    next
      case False
      then have inside: "bits < length (pf k)" using less.prems(5) node by simp
      have d: "\<not> d \<le> bits" using wf node inside True full by auto
      have valr: "k_getBit K k (- 1 - int bits) = pf k ! bits" using inside k by (simp add: getBit)
      show ?thesis
      proof (cases "pf key ! bits = pf k ! bits")
        case same: True
        have "insert_loop K dflt f key bits is_left node = insert_loop K dflt f key (bits + 1) is_left node"
          using True inside d same by (simp add: insert_loop.simps [of _ _ _ _ bits] vall valr bits node)
        moreover have "take (bits + 1) (pf k) = take (bits + 1) (pf key)"
          using take_extend [OF agree] inside True same node by simp
        ultimately show ?thesis using less.hyps [of "bits + 1" p node is_left] True inside wf less.prems node by simp
      next
        case differ: False
        have "insert_loop K dflt f key bits is_left node =
            tn_fork K dflt bits node (TreeNode nullptr nullptr key (f dflt) True (k_getFullBits K key), (if pf key ! bits then False else is_left), False, key)"
          using True inside d differ by (simp add: insert_loop.simps [of _ _ _ _ bits] vall valr bits new_leaf key node)
        then show ?thesis
          using fork_ok [OF wf less.prems(2) key less.prems(3), of f is_left] inside True agree differ node by simp
      qed
    qed
  qed
qed

lemma wf_entries_below: "tn_wf K valid pf dflt v4 p node \<Longrightarrow> e \<in> set (tn_entries node) \<Longrightarrow> prefix (pf (tn_first node)) (pf (fst e))"
proof -
  assume wf: "tn_wf K valid pf dflt v4 p node" and e: "e \<in> set (tn_entries node)"
  then obtain l r k v a d where node: "node = TreeNode l r k v a d" by (cases node) auto
  have "prefix (pf k @ [False]) (pf (fst e))" if "e \<in> set (tn_entries l)"
    using wf node wf_entries [of dflt v4 "pf k @ [False]" l "fst e" "snd e"] that by simp
  moreover have "prefix (pf k @ [True]) (pf (fst e))" if "e \<in> set (tn_entries r)"
    using wf node wf_entries [of dflt v4 "pf k @ [True]" r "fst e" "snd e"] that by simp
  ultimately show ?thesis using e node by (auto split: if_splits dest: append_prefixD)
qed

lemma wf_entries_child:
  assumes "tn_wf K valid pf dflt v4 p (TreeNode l r k v a d)"
  shows "e \<in> set (tn_entries l) \<Longrightarrow> prefix (pf k @ [False]) (pf (fst e))"
    and "e \<in> set (tn_entries r) \<Longrightarrow> prefix (pf k @ [True]) (pf (fst e))"
  using assms wf_entries [of dflt v4 "pf k @ [False]" l "fst e" "snd e"] wf_entries [of dflt v4 "pf k @ [True]" r "fst e" "snd e"] by simp_all

lemma lookup_loop_ok:
  assumes key: "valid key" "k_isIPv4 K key = v4"
  shows "tn_wf K valid pf dflt v4 p node \<Longrightarrow> node \<noteq> nullptr \<Longrightarrow> length p \<le> bits \<Longrightarrow> bits \<le> length (pf key) \<Longrightarrow>
    bits \<le> length (pf (tn_first node)) \<Longrightarrow> take bits (pf (tn_first node)) = take bits (pf key) \<Longrightarrow>
    longest_match pf (pf key) (set (tn_entries node)) ret (lookup_loop K key (length (pf key)) bits node ret)"
proof (induction "length (pf key) - bits" arbitrary: bits ret node p rule: less_induct)
  case less
  note wf = less.prems(1) and agree = less.prems(6)
  obtain l r k v a d where node: "node = TreeNode l r k v a d" using less.prems(2) by (cases node) auto
  have k: "valid k" using wf node by simp
  note wf1 = wf [unfolded node] and child = wf_entries_child [OF wf [unfolded node]]
  note bits = length_pf [OF key(1)] length_pf [OF k]
  have full: "k_getFullBits K k \<ge> length (pf key)" using wf node key pf_full [OF key(1)] by (simp add: full_bits)
  have es: "set (tn_entries node) = set (tn_entries l) \<union> (if a then {(k, v)} else {}) \<union> set (tn_entries r)" using node by auto
  show ?case
  proof (cases "bits < length (pf k)")
    case inside: True
    show ?thesis
    proof (cases "bits < length (pf key) \<and> pf key ! bits = pf k ! bits")
      case True
      have "lookup_loop K key (length (pf key)) bits node ret = lookup_loop K key (length (pf key)) (bits + 1) node ret"
        using True inside wf1 full getBit [OF key(1), of bits] getBit [OF k, of bits]
        by (auto simp: lookup_loop.simps [of _ _ _ bits] bits node)
      moreover have "take (bits + 1) (pf k) = take (bits + 1) (pf key)"
        using take_extend [OF agree] inside True node by simp
      moreover have "length (pf key) - (bits + 1) < length (pf key) - bits" using conjunct1 [OF True] by linarith
      note less.hyps [OF this wf less.prems(2), of ret]
      ultimately show ?thesis using True inside less.prems(3) node by simp
    next
      case False
      have "lookup_loop K key (length (pf key)) bits node ret = ret"
        using False inside wf1 full getBit [OF key(1), of bits] getBit [OF k, of bits]
        by (auto simp: lookup_loop.simps [of _ _ _ bits] lookup_end_def bits node)
      moreover have "\<not> prefix (pf k) (pf key)"
        using False inside less.prems(4) by (auto simp: prefix_def nth_append)
      then have "\<not> prefix (pf (fst e)) (pf key)" if "e \<in> set (tn_entries node)" for e
        using wf_entries_below [OF wf that] node by (auto dest: prefix_order.trans)
      ultimately show ?thesis by (simp add: longest_match_none)
    qed
  next
    case False
    then have at_end: "bits = length (pf k)" using less.prems(5) node by simp
    have pfk: "pf k = take bits (pf key)" using agree at_end node by simp
    then have here: "prefix (pf k) (pf key)" by (metis take_is_prefix)
    show ?thesis
    proof (cases "bits < length (pf key)")
      case True
      define vall where "vall = pf key ! bits"
      have vall: "k_getBit K key (- 1 - int bits) = vall" using True key by (simp add: getBit vall_def)
      have pre: "prefix (pf k @ [vall]) (pf key)" using take_branch [OF True] pfk by (simp add: vall_def)
      define c where "c = (if vall then r else l)"
      define others where "others = (if vall then l else r)"
      let ?ret = "if a then Some (k, v) else ret"
      have wfc: "tn_wf K valid pf dflt v4 (pf k @ [vall]) c" using wf1 by (simp add: c_def)
      have other: "\<not> prefix (pf (fst e)) (pf key)" if "e \<in> set (tn_entries others)" for e
      proof
        assume "prefix (pf (fst e)) (pf key)"
        moreover have "prefix (pf k @ [\<not> vall]) (pf (fst e))" using that child by (cases vall) (auto simp: others_def)
        ultimately have "prefix (pf k @ [\<not> vall]) (pf key)" by (rule prefix_order.trans [rotated])
        with pre show False by (auto simp: prefix_def)
      qed
      have longer: "length (pf k) \<le> length (pf (fst e))" if "e \<in> set (tn_entries c)" for e
        using that child prefix_length_le by (fastforce simp: c_def split: if_splits)
      have es': "set (tn_entries node) = set (tn_entries others) \<union> (if a then {(k, v)} else {}) \<union> set (tn_entries c)"
        unfolding es c_def others_def by (cases vall) auto
      have "longest_match pf (pf key) (set (tn_entries c)) ?ret (lookup_loop K key (length (pf key)) bits node ret)"
      proof (cases "d \<le> bits \<and> c \<noteq> nullptr")
        case down: True
        have "lookup_loop K key (length (pf key)) bits node ret = lookup_loop K key (length (pf key)) (bits + 1) c ?ret"
          using True down by (cases vall) (simp_all add: lookup_loop.simps [of _ _ _ bits] lookup_end_def bits node vall c_def Let_def at_end [symmetric])
        moreover have "length (pf key) - (bits + 1) < length (pf key) - bits" using True by simp
        moreover note wf_key [OF wfc]
        moreover have "take (bits + 1) (pf (tn_first c)) = take (bits + 1) (pf key)"
          using wf_key [OF wfc] down pre at_end by (auto simp: prefix_def)
        ultimately show ?thesis
          using less.hyps [OF _ wfc, of "bits + 1" ?ret] True down at_end by (auto dest: prefix_length_le)
      next
        case False
        then have "c = nullptr" using wf1 at_end by (auto simp: c_def)
        then have "lookup_loop K key (length (pf key)) bits node ret = ?ret"
          using True False \<open>c = nullptr\<close>
          by (cases vall) (simp_all add: lookup_loop.simps [of _ _ _ bits] lookup_end_def bits node vall c_def Let_def at_end [symmetric])
        then show ?thesis using \<open>c = nullptr\<close> by (simp add: longest_match_def)
      qed
      then show ?thesis
        unfolding es' by (rule longest_match_below) (use here other longer in auto)
    next
      case False
      then have "take bits (pf key) = pf key" by simp
      then have same: "pf k = pf key" using pfk by (rule trans [rotated])
      have "lookup_loop K key (length (pf key)) bits node ret = (if a then Some (k, v) else ret)"
        using False by (simp add: lookup_loop.simps [of _ _ _ bits] lookup_end_def bits node at_end [symmetric])
      moreover have "\<not> prefix (pf (fst e)) (pf key)" if "e \<in> set (tn_entries l) \<union> set (tn_entries r)" for e
        using child [of e] that same by (auto dest!: prefix_length_le)
      moreover have "longest_match pf (pf key) {} (if a then Some (k, v) else ret) (if a then Some (k, v) else ret)"
        by (simp add: longest_match_def)
      ultimately have "longest_match pf (pf key) (set (tn_entries l) \<union> set (tn_entries r) \<union> (if a then {(k, v)} else {}) \<union> {}) ret
          (lookup_loop K key (length (pf key)) bits node ret)"
        using same by (simp only:) (rule longest_match_below, auto)
      moreover have "set (tn_entries l) \<union> set (tn_entries r) \<union> (if a then {(k, v)} else {}) \<union> {} = set (tn_entries node)"
        unfolding es by blast
      ultimately show ?thesis by (simp only:)
    qed
  qed
qed

lemma cleanup_entries: "tn_entries (cleanup_tree (TreeNode l r k v a d)) = tn_entries (TreeNode l r k v a d)"
  by (simp add: cleanup_tree_def)

lemma cleanup_wf:
  "valid k \<Longrightarrow> k_isIPv4 K k = v4 \<Longrightarrow> prefix p (pf k) \<Longrightarrow> d = length (pf k) \<or> d = k_getFullBits K k \<and> l = nullptr \<and> r = nullptr \<Longrightarrow>
   a \<or> v = dflt \<Longrightarrow> tn_wf K valid pf dflt v4 (pf k @ [False]) l \<Longrightarrow> tn_wf K valid pf dflt v4 (pf k @ [True]) r \<Longrightarrow>
   tn_wf K valid pf dflt v4 p (cleanup_tree (TreeNode l r k v a d))"
  by (auto simp: cleanup_tree_def)

lemma erase_loop_ok:
  assumes key: "valid key" "k_isIPv4 K key = v4"
  shows "tn_wf K valid pf dflt v4 p node \<Longrightarrow> length p \<le> bits \<Longrightarrow> bits \<le> length (pf key) \<Longrightarrow>
    (node \<noteq> nullptr \<Longrightarrow> bits \<le> length (pf (tn_first node)) \<and> take bits (pf (tn_first node)) = take bits (pf key)) \<Longrightarrow>
    e \<in> set (tn_entries node) \<Longrightarrow> pf (fst e) = pf key \<Longrightarrow>
    \<exists>c xs ys. erase_loop K dflt key bits node = Some (c, fst e) \<and> tn_wf K valid pf dflt v4 p c \<and>
      tn_entries node = xs @ e # ys \<and> tn_entries c = xs @ ys"
proof (induction "length (pf key) - bits" arbitrary: bits node p rule: less_induct)
  case less
  note wf = less.prems(1)
  obtain l r k v a d where node: "node = TreeNode l r k v a d" using less.prems(5) by (cases node) auto
  have agree: "bits \<le> length (pf k)" "take bits (pf k) = take bits (pf key)" using less.prems(4) node by simp_all
  have k: "valid k" "k_isIPv4 K k = v4" "prefix p (pf k)" using wf node by simp_all
  note wf1 = wf [unfolded node] and child = wf_entries_child [OF wf [unfolded node]]
  note bits = length_pf [OF key(1)] length_pf [OF k(1)]
  have full: "k_getFullBits K k \<ge> length (pf key)" using wf node key pf_full [OF key(1)] by (simp add: full_bits)
  have below: "prefix (pf k) (pf key)" using wf_entries_below [OF wf less.prems(5)] node less.prems(6) by simp
  show ?case
  proof (cases "bits < length (pf key)")
    case False
    then have "bits = length (pf key)" using less.prems(3) by simp
    then have same: "pf k = pf key" using below agree(1) by (auto simp: prefix_def)
    have "e \<notin> set (tn_entries l)" "e \<notin> set (tn_entries r)"
      using child [of e] less.prems(6) same by (auto dest!: prefix_length_le)
    then have e: "e = (k, v)" "a" using less.prems(5) node by (auto split: if_splits)
    have "erase_loop K dflt key bits node = Some (cleanup_tree (TreeNode l r k dflt False d), k)"
      using False bits by (simp add: erase_loop.simps [of _ _ _ bits] node)
    moreover have "tn_wf K valid pf dflt v4 p (cleanup_tree (TreeNode l r k dflt False d))"
      by (rule cleanup_wf) (use wf1 in auto)
    ultimately show ?thesis using e node by (auto simp: cleanup_entries)
  next
    case True
    have vall: "k_getBit K key (- 1 - int bits) = pf key ! bits" using True key by (simp add: getBit)
    show ?thesis
    proof (cases "bits < length (pf k)")
      case inside: True
      then have "pf key ! bits = pf k ! bits" using below by (auto simp: prefix_def nth_append)
      moreover have d: "\<not> d \<le> bits" using wf1 inside True full by auto
      ultimately have "erase_loop K dflt key bits node = erase_loop K dflt key (bits + 1) node"
        using True inside getBit [OF k(1) inside] by (simp add: erase_loop.simps [of _ _ _ bits] vall bits node)
      moreover have "take (bits + 1) (pf k) = take (bits + 1) (pf key)"
        using take_extend [OF agree(2) inside True] \<open>pf key ! bits = pf k ! bits\<close> by simp
      moreover have "length (pf key) - (bits + 1) < length (pf key) - bits" using True by linarith
      note less.hyps [OF this wf]
      ultimately show ?thesis using True inside less.prems node by simp
    next
      case False
      then have at_end: "bits = length (pf k)" using agree(1) by simp
      have pre: "prefix (pf k @ [pf key ! bits]) (pf key)"
        using below True at_end by (auto simp: prefix_def nth_append neq_Nil_conv)
      have lt: "length (pf key) - (bits + 1) < length (pf key) - bits" using True by linarith
      have notk: "e \<notin> set (if a then [(k, v)] else [])" using less.prems(6) True at_end by (auto split: if_splits)
      show ?thesis
      proof (cases "pf key ! bits")
        case one: True
        then have "e \<notin> set (tn_entries l)" using child(1) [of e] pre less.prems(6) by (auto simp: prefix_def)
        then have e: "e \<in> set (tn_entries r)" using less.prems(5) notk node by auto
        have wfr: "tn_wf K valid pf dflt v4 (pf k @ [True]) r" using wf1 by simp
        have "r \<noteq> nullptr" using e by auto
        then have d: "d = length (pf k)" "d \<le> bits" using wf1 at_end by auto
        have "take (bits + 1) (pf (tn_first r)) = take (bits + 1) (pf key)" "bits + 1 \<le> length (pf (tn_first r))"
          using wf_key [OF wfr \<open>r \<noteq> nullptr\<close>] pre one at_end by (auto simp: prefix_def)
        then obtain c xs ys where c: "erase_loop K dflt key (bits + 1) r = Some (c, fst e)" "tn_wf K valid pf dflt v4 (pf k @ [True]) c"
            "tn_entries r = xs @ e # ys" "tn_entries c = xs @ ys"
          using less.hyps [OF lt wfr] True at_end e less.prems(6) by auto
        have "erase_loop K dflt key bits node = Some (cleanup_tree (TreeNode l c k v a d), fst e)"
          using True d(2) one c(1) by (simp add: erase_loop.simps [of _ _ _ bits] vall bits node)
        moreover have "tn_wf K valid pf dflt v4 p (cleanup_tree (TreeNode l c k v a d))"
          by (rule cleanup_wf) (use wf1 c(2) d in auto)
        moreover have "tn_entries node = (tn_entries l @ (if a then [(k, v)] else []) @ xs) @ e # ys" using c node by simp
        moreover have "tn_entries (cleanup_tree (TreeNode l c k v a d)) = (tn_entries l @ (if a then [(k, v)] else []) @ xs) @ ys"
          using c by (simp add: cleanup_entries)
        ultimately show ?thesis by blast
      next
        case zero: False
        then have "e \<notin> set (tn_entries r)" using child(2) [of e] pre less.prems(6) by (auto simp: prefix_def)
        then have e: "e \<in> set (tn_entries l)" using less.prems(5) notk node by auto
        have wfl: "tn_wf K valid pf dflt v4 (pf k @ [False]) l" using wf1 by simp
        have "l \<noteq> nullptr" using e by auto
        then have d: "d = length (pf k)" "d \<le> bits" using wf1 at_end by auto
        have "take (bits + 1) (pf (tn_first l)) = take (bits + 1) (pf key)" "bits + 1 \<le> length (pf (tn_first l))"
          using wf_key [OF wfl \<open>l \<noteq> nullptr\<close>] pre zero at_end by (auto simp: prefix_def)
        then obtain c xs ys where c: "erase_loop K dflt key (bits + 1) l = Some (c, fst e)" "tn_wf K valid pf dflt v4 (pf k @ [False]) c"
            "tn_entries l = xs @ e # ys" "tn_entries c = xs @ ys"
          using less.hyps [OF lt wfl] True at_end e less.prems(6) by auto
        have "erase_loop K dflt key bits node = Some (cleanup_tree (TreeNode c r k v a d), fst e)"
          using True d(2) zero c(1) by (simp add: erase_loop.simps [of _ _ _ bits] vall bits node)
        moreover have "tn_wf K valid pf dflt v4 p (cleanup_tree (TreeNode c r k v a d))"
          by (rule cleanup_wf) (use wf1 c(2) d in auto)
        moreover have "tn_entries node = xs @ e # (ys @ (if a then [(k, v)] else []) @ tn_entries r)" using c node by simp
        moreover have "tn_entries (cleanup_tree (TreeNode c r k v a d)) = xs @ (ys @ (if a then [(k, v)] else []) @ tn_entries r)"
          using c by (simp add: cleanup_entries)
        ultimately show ?thesis by blast
      qed
    qed
  qed
qed

lemma erase_loop_none:
  assumes key: "valid key" "k_isIPv4 K key = v4"
  shows "tn_wf K valid pf dflt v4 p node \<Longrightarrow> length p \<le> bits \<Longrightarrow> bits \<le> length (pf key) \<Longrightarrow>
    (node \<noteq> nullptr \<Longrightarrow> bits \<le> length (pf (tn_first node)) \<and> take bits (pf (tn_first node)) = take bits (pf key)) \<Longrightarrow>
    (\<And>e. e \<in> set (tn_entries node) \<Longrightarrow> \<not> prefix (pf key) (pf (fst e))) \<Longrightarrow>
    erase_loop K dflt key bits node = None"
proof (induction "length (pf key) - bits" arbitrary: bits node p rule: less_induct)
  case less
  note wf = less.prems(1)
  show ?case
  proof (cases node)
    case nullptr
    then show ?thesis by (simp add: erase_loop.simps)
  next
    case node: (TreeNode l r k v a d)
    have agree: "bits \<le> length (pf k)" "take bits (pf k) = take bits (pf key)" using less.prems(4) node by simp_all
    have k: "valid k" using wf node by simp
    note bits = length_pf [OF key(1)] length_pf [OF k]
    obtain e where e: "e \<in> set (tn_entries node)" using wf_nonempty [OF wf] node by (metis TreeNode.distinct(1) list.set_sel(1))
    have "\<not> prefix (pf key) (pf k)"
      using less.prems(5) [OF e] wf_entries_below [OF wf e] node by (auto dest: prefix_order.trans)
    then have lt: "bits < length (pf key)"
      using agree less.prems(3) by (metis le_neq_implies_less take_all_iff order_refl take_is_prefix)
    have vall: "k_getBit K key (- 1 - int bits) = pf key ! bits" using lt key by (simp add: getBit)
    have less1: "length (pf key) - (bits + 1) < length (pf key) - bits" using lt by linarith
    show ?thesis
    proof (cases "bits < length (pf k)")
      case inside: True
      have d: "\<not> d \<le> bits" using wf node inside lt key pf_full [OF key(1)] by (auto simp: full_bits)
      show ?thesis
      proof (cases "pf key ! bits = pf k ! bits")
        case True
        then have "take (bits + 1) (pf k) = take (bits + 1) (pf key)" using take_extend [OF agree(2) inside lt] by simp
        then have "erase_loop K dflt key (bits + 1) node = None"
          using less.hyps [OF less1 wf] less.prems(2,5) lt inside node by simp
        then show ?thesis
          using True lt inside d getBit [OF k inside] by (simp add: erase_loop.simps [of _ _ _ bits] vall bits node)
      next
        case False
        then show ?thesis
          using lt inside d getBit [OF k inside] by (simp add: erase_loop.simps [of _ _ _ bits] vall bits node)
      qed
    next
      case False
      then have at_end: "length (pf k) = bits" using agree(1) by simp
      have pre: "prefix (pf k @ [pf key ! bits]) (pf key)" using take_branch [OF lt] agree(2) at_end by simp
      define c where "c = (if pf key ! bits then r else l)"
      have wfc: "tn_wf K valid pf dflt v4 (pf k @ [pf key ! bits]) c" using wf node by (auto simp: c_def)
      have "take (bits + 1) (pf (tn_first c)) = take (bits + 1) (pf key) \<and> bits + 1 \<le> length (pf (tn_first c))" if "c \<noteq> nullptr"
        using prefix_common [OF _ pre] wf_key [OF wfc that] at_end by simp
      moreover have "\<not> prefix (pf key) (pf (fst e))" if "e \<in> set (tn_entries c)" for e
        using less.prems(5) [of e] that node by (auto simp: c_def split: if_splits)
      ultimately have "erase_loop K dflt key (bits + 1) c = None"
        using less.hyps [OF less1 wfc] lt at_end by simp
      then show ?thesis
        using lt at_end by (cases "pf key ! bits") (simp_all add: erase_loop.simps [of _ _ _ bits] vall bits node c_def)
    qed
  qed
qed

end

end
