(* ===== verification/NetmaskMap.thy ===== *)
theory NetmaskMap
  imports NetmaskTreeLaws
begin

text \<open>
  The whole tree: the invariant with its size and its left-most node, insertion and removal as updates of
  a map, lookup as longest match, iteration and copies, and the interpretation for netmasks.
\<close>

section \<open>Entries and the map\<close>

definition nt_entries :: "('k, 'v) NetmaskTree \<Rightarrow> ('k \<times> 'v) list" where
  "nt_entries t = tn_entries (tn_left (d_root t)) @ tn_entries (tn_right (d_root t))"

definition first_key :: "('k \<times> 'v) list \<Rightarrow> 'k option" where
  "first_key es = (case es of [] \<Rightarrow> None | (k, v) # _ \<Rightarrow> Some k)"

text \<open>IPv4 networks are to the left of the root and IPv6 networks to the right; \<^verbatim>\<open>d_size\<close> and \<^verbatim>\<open>d_left\<close> agree with the entries.\<close>

definition nt_wf :: "'k key_ops \<Rightarrow> ('k \<Rightarrow> bool) \<Rightarrow> ('k \<Rightarrow> bool list) \<Rightarrow> 'v \<Rightarrow> ('k, 'v) NetmaskTree \<Rightarrow> bool" where
  "nt_wf K valid pf dflt t \<longleftrightarrow>
     d_root t \<noteq> nullptr \<and> \<not> tn_assigned (d_root t) \<and> \<not> valid (tn_first (d_root t)) \<and>
     tn_wf K valid pf dflt True [] (tn_left (d_root t)) \<and> tn_wf K valid pf dflt False [] (tn_right (d_root t)) \<and>
     d_size t = length (nt_entries t) \<and> d_left t = first_key (nt_entries t)"

text \<open>The family and the prefix of a key identify it; the tree is a map from these.\<close>

definition key_id :: "'k key_ops \<Rightarrow> ('k \<Rightarrow> bool list) \<Rightarrow> 'k \<Rightarrow> bool \<times> bool list" where
  "key_id K pf k = (k_isIPv4 K k, pf k)"

definition nt_map :: "'k key_ops \<Rightarrow> ('k \<Rightarrow> bool list) \<Rightarrow> ('k, 'v) NetmaskTree \<Rightarrow> bool \<times> bool list \<Rightarrow> 'v option" where
  "nt_map K pf t = map_of (map (\<lambda>(k, v). (key_id K pf k, v)) (nt_entries t))"

lemma first_key_simps [simp]:
  "first_key [] = None" "first_key (e # es) = Some (fst e)" "xs \<noteq> [] \<Longrightarrow> first_key (xs @ ys) = first_key xs"
  by (auto simp: first_key_def split: list.splits prod.splits)

lemma insert_end_ok:
  assumes "d_size t = length (A @ E @ B)" "d_left t = first_key (A @ E @ B)"
    and "inserted_into pf dflt f key (A = []) E E' (il, was, ptr)"
  shows "\<exists>t'. insert_end t set_child (node, il, was, ptr) = Inr t' \<and> d_root t' = set_child node \<and>
    d_size t' = length (A @ E' @ B) \<and> d_left t' = first_key (A @ E' @ B)"
proof -
  obtain xs v ys where ins: "E' = xs @ (ptr, f v) # ys" "E = xs @ (if was then [(ptr, v)] else []) @ ys" "il \<longleftrightarrow> A = [] \<and> xs = []"
    using assms(3) by (rule inserted_intoE)
  have il: "il \<Longrightarrow> A @ E' @ B = (ptr, f v) # ys @ B" "\<not> il \<Longrightarrow> first_key (A @ E' @ B) = first_key (A @ E @ B)"
  proof -
    show "il \<Longrightarrow> A @ E' @ B = (ptr, f v) # ys @ B" using ins by simp
    assume "\<not> il"
    then have "A @ xs \<noteq> []" using ins by auto
    then have "first_key ((A @ xs) @ zs) = first_key (A @ xs)" for zs by (rule first_key_simps(3))
    from this [of "(ptr, f v) # ys @ B"] this [of "(if was then [(ptr, v)] else []) @ ys @ B"]
    show "first_key (A @ E' @ B) = first_key (A @ E @ B)" unfolding ins by simp
  qed
  show ?thesis
  proof (cases was)
    case False
    then show ?thesis using assms(1,2) ins(1,2) il by (auto simp: insert_end_def)
  next
    case True
    then have "il \<Longrightarrow> d_left t = Some ptr" using assms(2) ins by simp
    moreover have "il \<Longrightarrow> first_key (A @ E' @ B) = Some ptr" by (subst il(1)) simp_all
    ultimately show ?thesis using True assms(1,2) ins(1,2) il(2) by (cases il) (auto simp: insert_end_def)
  qed
qed

lemma distinct_middle: "distinct (map fst (P @ (k, v) # Q)) \<Longrightarrow> k \<notin> fst ` set P \<and> k \<notin> fst ` set Q"
  by auto

lemma map_of_middle: "k \<notin> fst ` set P \<Longrightarrow> map_of (P @ (k, v) # Q) = (map_of (P @ Q))(k \<mapsto> v)"
  by (induction P) auto

lemma find_node_Some:
  "distinct (map fst (nodes tnode)) \<Longrightarrow> (k, v, a) \<in> set (nodes tnode) \<Longrightarrow>
   \<exists>p us. find_node k tnode fs = Some p \<and> fst p \<noteq> nullptr \<and> node_at p = (k, v, a) \<and>
     nodes tnode @ nodes_above fs = us @ node_at p # nodes_after p"
proof (induction k tnode fs rule: find_node.induct)
  case (2 ptr l r k' v' a' d fs)
  have none: "find_node ptr tnode fs = None" if "ptr \<notin> fst ` set (nodes tnode)" for tnode :: "('a, 'b) TreeNode" and fs
    using that by (induction ptr tnode fs rule: find_node.induct) (auto simp: image_Un)
  show ?case
  proof (cases "k' = ptr")
    case True
    then have "(ptr, v, a) \<notin> set (nodes l)" "(ptr, v, a) \<notin> set (nodes r)" using "2.prems"(1) by (auto simp: rev_image_eqI)
    with True "2.prems"(2) show ?thesis by auto
  next
    case other: False
    show ?thesis
    proof (cases "ptr \<in> fst ` set (nodes l)")
      case True
      then have "(ptr, v, a) \<notin> set (nodes r)" using "2.prems"(1) by (auto simp: rev_image_eqI)
      then have "(ptr, v, a) \<in> set (nodes l)" using "2.prems"(2) other by auto
      with "2.IH"(1) other "2.prems" obtain p us where p: "find_node ptr l (FromLeft r k' v' a' d # fs) = Some p" "fst p \<noteq> nullptr"
          "node_at p = (ptr, v, a)" "nodes l @ nodes_above (FromLeft r k' v' a' d # fs) = us @ node_at p # nodes_after p"
        by auto
      then have "find_node ptr (TreeNode l r k' v' a' d) fs = Some p" "nodes (TreeNode l r k' v' a' d) @ nodes_above fs = us @ node_at p # nodes_after p"
        using other by simp_all
      with p show ?thesis by blast
    next
      case False
      with none have l: "find_node ptr l (FromLeft r k' v' a' d # fs) = None" by blast
      have "(ptr, v, a) \<in> set (nodes r)" using "2.prems"(2) other False by (auto simp: rev_image_eqI)
      with "2.IH"(2) other l "2.prems" obtain p us where p: "find_node ptr r (FromRight l k' v' a' d # fs) = Some p" "fst p \<noteq> nullptr"
          "node_at p = (ptr, v, a)" "nodes r @ nodes_above (FromRight l k' v' a' d # fs) = us @ node_at p # nodes_after p"
        by auto
      then have "find_node ptr (TreeNode l r k' v' a' d) fs = Some p"
          "nodes (TreeNode l r k' v' a' d) @ nodes_above fs = (nodes l @ (k', v', a') # us) @ node_at p # nodes_after p"
        using other l by simp_all
      with p show ?thesis by blast
    qed
  qed
qed simp

section \<open>The tree\<close>

context prefix_key
begin

lemma nt_wf_new: "\<not> valid (k_default K) \<Longrightarrow> nt_wf K valid pf dflt (NetmaskTree_new K dflt)"
  by (simp add: nt_wf_def NetmaskTree_new_def TreeNode_root_def nt_entries_def)

lemma inserted_into_id:
  assumes "tn_wf K valid pf dflt v4 p node" "valid key" "k_isIPv4 K key = v4"
    and "inserted_into pf dflt f key il E (tn_entries node) (il', was, ptr)"
  shows "inserted_into (key_id K pf) dflt f key il E (tn_entries node) (il', was, ptr)"
proof -
  obtain xs v ys where ins: "pf ptr = pf key" "tn_entries node = xs @ (ptr, f v) # ys"
      "E = xs @ (if was then [(ptr, v)] else []) @ ys" "\<not> was \<longrightarrow> v = dflt" "il' \<longleftrightarrow> il \<and> xs = []"
    using assms(4) by (rule inserted_intoE)
  have "k_isIPv4 K ptr = v4" using wf_entries [OF assms(1), of ptr "f v"] ins(2) by simp
  then show ?thesis using ins assms(3) by (intro inserted_intoI [of _ ptr key _ xs f v ys]) (simp_all add: key_id_def)
qed

lemma nt_insert_ok:
  assumes wf: "nt_wf K valid pf dflt t" and key: "valid key"
  shows "\<exists>t' A E E' B res. nt_insert K dflt f key t = Inr t' \<and> nt_wf K valid pf dflt t' \<and>
    nt_entries t = A @ E @ B \<and> nt_entries t' = A @ E' @ B \<and> inserted_into (key_id K pf) dflt f key (A = []) E E' res"
proof -
  obtain L R k v d where root: "d_root t = TreeNode L R k v False d" using wf by (cases "d_root t") (auto simp: nt_wf_def)
  have parts: "tn_wf K valid pf dflt True [] L" "tn_wf K valid pf dflt False [] R" "\<not> valid k"
      "d_size t = length (tn_entries L @ tn_entries R)" "d_left t = first_key (tn_entries L @ tn_entries R)"
    using wf root by (simp_all add: nt_wf_def nt_entries_def)
  have es: "nt_entries t = tn_entries L @ tn_entries R" using root by (simp add: nt_entries_def)
  have L: "L = nullptr \<longleftrightarrow> tn_entries L = []" using wf_nonempty [OF parts(1)] by auto
  show ?thesis
  proof (cases "k_isIPv4 K key")
    case True
    show ?thesis
    proof (cases "L = nullptr")
      case null: True
      have "inserted_into (key_id K pf) dflt f key ([] = ([] :: ('a \<times> 'b) list)) ([] @ []) ([] @ [(key, f dflt)]) (True, False, key)"
        by (rule inserted_into_new) simp
      moreover let ?t = "t\<lparr>d_root := set_left (first_node K dflt f key) (d_root t), d_size := d_size t + 1, d_left := Some key\<rparr>"
      have "nt_insert K dflt f key t = Inr ?t" using True null root key by (simp add: nt_insert_def first_node_def normalized)
      moreover have "nt_entries ?t = [] @ [(key, f dflt)] @ tn_entries R" "nt_wf K valid pf dflt ?t"
        using parts root True null key by (simp_all add: nt_entries_def nt_wf_def first_node_def normalized)
      ultimately show ?thesis using es null
        by (intro exI [of _ ?t] exI [of _ "[]"] exI [of _ "[]"] exI [of _ "[(key, f dflt)]"] exI [of _ "tn_entries R"] exI [of _ "(True, False, key)"]) simp
    next
      case False
      obtain node il was ptr where loop: "insert_loop K dflt f key 0 True L = (node, il, was, ptr)" by (metis prod_cases4)
      have ok: "node \<noteq> nullptr" "tn_wf K valid pf dflt True [] node" "inserted_into pf dflt f key True (tn_entries L) (tn_entries node) (il, was, ptr)"
        using insert_loop_ok [OF key, of True dflt "[]" L 0 f True] parts(1) False True loop by simp_all
      have "nt_insert K dflt f key t = insert_end t (\<lambda>node. set_left node (d_root t)) (node, il, was, ptr)"
        using True False root loop by (simp add: nt_insert_def)
      with insert_end_ok [of t "[]" "tn_entries L" "tn_entries R" pf dflt f key "tn_entries node" il was ptr, where set_child = "\<lambda>node. set_left node (d_root t)" and node = node] parts(4,5) ok(3)
      obtain t' where t': "nt_insert K dflt f key t = Inr t'" "d_root t' = set_left node (d_root t)"
          "d_size t' = length ([] @ tn_entries node @ tn_entries R)" "d_left t' = first_key ([] @ tn_entries node @ tn_entries R)"
        by auto
      moreover have "nt_entries t' = [] @ tn_entries node @ tn_entries R" "nt_wf K valid pf dflt t'"
        using t' parts root ok by (simp_all add: nt_entries_def nt_wf_def)
      moreover have "inserted_into (key_id K pf) dflt f key True (tn_entries L) (tn_entries node) (il, was, ptr)"
        using ok(3) inserted_into_id [OF ok(2) key] True by simp
      ultimately show ?thesis using es
        by (intro exI [of _ t'] exI [of _ "[]"] exI [of _ "tn_entries L"] exI [of _ "tn_entries node"] exI [of _ "tn_entries R"] exI [of _ "(il, was, ptr)"]) simp
    qed
  next
    case False
    then have 6: "k_isIPv6 K key" using family [OF key] by simp
    show ?thesis
    proof (cases "R = nullptr")
      case null: True
      have "inserted_into (key_id K pf) dflt f key (tn_entries L = []) ([] @ []) ([] @ [(key, f dflt)]) (tn_entries L = [], False, key)"
        by (rule inserted_into_new) simp
      moreover let ?t = "t\<lparr>d_root := set_right (first_node K dflt f key) (d_root t), d_size := d_size t + 1,
          d_left := (if L = nullptr then Some key else d_left t)\<rparr>"
      have "nt_insert K dflt f key t = Inr ?t" using False 6 null root key by (simp add: nt_insert_def first_node_def normalized)
      moreover have "nt_entries ?t = tn_entries L @ [(key, f dflt)] @ []" "nt_wf K valid pf dflt ?t"
        using parts root False null key L by (auto simp: nt_entries_def nt_wf_def first_node_def normalized)
      ultimately show ?thesis using es null
        by (intro exI [of _ ?t] exI [of _ "tn_entries L"] exI [of _ "[]"] exI [of _ "[(key, f dflt)]"] exI [of _ "[]"]
            exI [of _ "(tn_entries L = [], False, key)"]) simp
    next
      case child: False
      obtain node il was ptr where loop: "insert_loop K dflt f key 0 (L = nullptr) R = (node, il, was, ptr)" by (metis prod_cases4)
      have ok: "node \<noteq> nullptr" "tn_wf K valid pf dflt False [] node"
          "inserted_into pf dflt f key (tn_entries L = []) (tn_entries R) (tn_entries node) (il, was, ptr)"
        using insert_loop_ok [OF key, of False dflt "[]" R 0 f "L = nullptr"] parts(2) False child loop L by simp_all
      have "nt_insert K dflt f key t = insert_end t (\<lambda>node. set_right node (d_root t)) (node, il, was, ptr)"
        using False 6 child root loop by (simp add: nt_insert_def)
      with insert_end_ok [of t "tn_entries L" "tn_entries R" "[]" pf dflt f key "tn_entries node" il was ptr, where set_child = "\<lambda>node. set_right node (d_root t)" and node = node] parts(4,5) ok(3)
      obtain t' where t': "nt_insert K dflt f key t = Inr t'" "d_root t' = set_right node (d_root t)"
          "d_size t' = length (tn_entries L @ tn_entries node @ [])" "d_left t' = first_key (tn_entries L @ tn_entries node @ [])"
        by auto
      moreover have "nt_entries t' = tn_entries L @ tn_entries node @ []" "nt_wf K valid pf dflt t'"
        using t' parts root ok by (simp_all add: nt_entries_def nt_wf_def)
      moreover have "inserted_into (key_id K pf) dflt f key (tn_entries L = []) (tn_entries R) (tn_entries node) (il, was, ptr)"
        using ok(3) inserted_into_id [OF ok(2) key] False by simp
      ultimately show ?thesis using es
        by (intro exI [of _ t'] exI [of _ "tn_entries L"] exI [of _ "tn_entries R"] exI [of _ "tn_entries node"] exI [of _ "[]"] exI [of _ "(il, was, ptr)"]) simp
    qed
  qed
qed

lemma wf_nodes:
  "tn_wf K valid pf dflt v4 p node \<Longrightarrow> n \<in> set (nodes node) \<Longrightarrow> valid (fst n) \<and> k_isIPv4 K (fst n) = v4 \<and> prefix p (pf (fst n))"
  by (induction K valid pf dflt v4 p node rule: tn_wf.induct) (auto intro: prefix_order.trans append_prefixD)

lemma wf_nodes_distinct: "tn_wf K valid pf dflt v4 p node \<Longrightarrow> distinct (map fst (nodes node))"
proof (induction node arbitrary: p)
  case (TreeNode l r k v a d)
  then have wf: "tn_wf K valid pf dflt v4 (pf k @ [False]) l" "tn_wf K valid pf dflt v4 (pf k @ [True]) r" by simp_all
  have l: "prefix (pf k @ [False]) (pf (fst n))" if "n \<in> set (nodes l)" for n using wf_nodes [OF wf(1) that] by simp
  have r: "prefix (pf k @ [True]) (pf (fst n))" if "n \<in> set (nodes r)" for n using wf_nodes [OF wf(2) that] by simp
  have "k \<notin> fst ` set (nodes l)" "k \<notin> fst ` set (nodes r)" using l r prefix_length_le by fastforce+
  moreover have "fst ` set (nodes l) \<inter> fst ` set (nodes r) = {}"
  proof -
    have "\<not> (prefix (pf k @ [False]) q \<and> prefix (pf k @ [True]) q)" for q by (auto simp: prefix_def)
    with l r show ?thesis by (auto simp: image_iff) (metis fst_conv)
  qed
  ultimately show ?case using TreeNode.IH(1) [OF wf(1)] TreeNode.IH(2) [OF wf(2)] by auto
qed simp

lemma nt_cases:
  assumes "nt_wf K valid pf dflt t"
  obtains L R k v d where "d_root t = TreeNode L R k v False d" "tn_wf K valid pf dflt True [] L" "tn_wf K valid pf dflt False [] R"
    "\<not> valid k" "nt_entries t = tn_entries L @ tn_entries R" "d_size t = length (nt_entries t)" "d_left t = first_key (nt_entries t)"
  using assms by (cases "d_root t") (auto simp: nt_wf_def nt_entries_def)

lemma nt_entries_valid: "nt_wf K valid pf dflt t \<Longrightarrow> e \<in> set (nt_entries t) \<Longrightarrow> valid (fst e)"
  by (erule nt_cases, cases e) (auto dest: wf_entries)

lemma nt_nodes:
  assumes "nt_wf K valid pf dflt t"
  shows "assigned_nodes (nodes (d_root t)) = nt_entries t" "distinct (map fst (nodes (d_root t)))"
proof -
  obtain L R k v d where t: "d_root t = TreeNode L R k v False d" "tn_wf K valid pf dflt True [] L" "tn_wf K valid pf dflt False [] R"
      "\<not> valid k" "nt_entries t = tn_entries L @ tn_entries R"
    using assms by (rule nt_cases)
  show "assigned_nodes (nodes (d_root t)) = nt_entries t" using t by (simp add: tn_entries_def)
  have "k \<notin> fst ` set (nodes L)" "k \<notin> fst ` set (nodes R)" "fst ` set (nodes L) \<inter> fst ` set (nodes R) = {}"
    using t(4) wf_nodes [OF t(2)] wf_nodes [OF t(3)] by fastforce+
  then show "distinct (map fst (nodes (d_root t)))"
    using t(1) wf_nodes_distinct [OF t(2)] wf_nodes_distinct [OF t(3)] by auto
qed

lemma nt_distinct: "nt_wf K valid pf (dflt :: 'v) t \<Longrightarrow> distinct (map (key_id K pf \<circ> fst) (nt_entries t))"
proof (erule nt_cases)
  fix L R k v d
  assume L: "tn_wf K valid pf dflt True [] L" and R: "tn_wf K valid pf dflt False [] R" and es: "nt_entries t = tn_entries L @ tn_entries R"
  have inj: "distinct (map (key_id K pf \<circ> fst) xs)" if "distinct (map (pf \<circ> fst) xs)" for xs :: "('k \<times> 'v) list"
    using that by (induction xs) (auto simp: key_id_def)
  have "k_isIPv4 K (fst e)" if "e \<in> set (tn_entries L)" for e using wf_entries [OF L, of "fst e" "snd e"] that by simp
  moreover have "\<not> k_isIPv4 K (fst e)" if "e \<in> set (tn_entries R)" for e using wf_entries [OF R, of "fst e" "snd e"] that by simp
  ultimately show "distinct (map (key_id K pf \<circ> fst) (nt_entries t))"
    using inj [OF wf_distinct [OF L]] inj [OF wf_distinct [OF R]] by (auto simp: es key_id_def)
qed

lemma nt_insert_map:
  assumes wf: "nt_wf K valid pf (dflt :: 'v) t" and key: "valid key"
  shows "\<exists>t'. nt_insert K dflt f key t = Inr t' \<and> nt_wf K valid pf dflt t' \<and>
    nt_map K pf t' = (nt_map K pf t)(key_id K pf key \<mapsto> f (case nt_map K pf t (key_id K pf key) of Some v \<Rightarrow> v | None \<Rightarrow> dflt))"
proof -
  obtain t' A E E' B res where t': "nt_insert K dflt f key t = Inr t'" "nt_wf K valid pf dflt t'"
      "nt_entries t = A @ E @ B" "nt_entries t' = A @ E' @ B" "inserted_into (key_id K pf) dflt f key (A = []) E E' res"
    using nt_insert_ok [OF assms, of f] by blast
  obtain il was ptr where res: "res = (il, was, ptr)" by (cases res)
  obtain xs v ys where ins: "key_id K pf ptr = key_id K pf key" "E' = xs @ (ptr, f v) # ys"
      "E = xs @ (if was then [(ptr, v)] else []) @ ys" "\<not> was \<longrightarrow> v = dflt"
    using t'(5) unfolding res by (rule inserted_intoE)
  let ?g = "\<lambda>(k, v). (key_id K pf k, v)"
  let ?id = "key_id K pf key"
  define P where "P = map ?g (A @ xs)"
  define Q where "Q = map ?g (ys @ B)"
  have new: "map ?g (nt_entries t') = P @ (?id, f v) # Q" using t'(4) ins by (simp add: P_def Q_def)
  have old: "map ?g (nt_entries t) = (if was then P @ (?id, v) # Q else P @ Q)" using t'(3) ins(1,3) by (simp add: P_def Q_def)
  have "map fst (map ?g es) = map (key_id K pf \<circ> fst) es" for es :: "('k \<times> 'v) list" by (simp add: case_prod_beta comp_def)
  then have "distinct (map fst (map ?g (nt_entries t')))" using nt_distinct [OF t'(2)] by (simp only:)
  then have notin: "?id \<notin> fst ` set P" "?id \<notin> fst ` set Q" unfolding new by (blast dest: distinct_middle)+
  then have "map_of (P @ Q) ?id = None" by (simp add: map_of_eq_None_iff)
  moreover have "map_of (P @ (?id, w) # Q) = (map_of (P @ Q))(?id \<mapsto> w)" for w by (rule map_of_middle [OF notin(1)])
  ultimately have "nt_map K pf t' = (nt_map K pf t)(?id \<mapsto> f v) \<and> (case nt_map K pf t ?id of Some v \<Rightarrow> v | None \<Rightarrow> dflt) = v"
    using ins(4) unfolding nt_map_def new old by (simp del: map_of_append)
  then show ?thesis using t'(1,2) by (intro exI [of _ t']) simp
qed

lemma nt_family_entries:
  assumes "tn_wf K valid pf dflt True [] L" "tn_wf K valid pf dflt False [] R"
  shows "{e \<in> set (tn_entries L @ tn_entries R). k_isIPv4 K (fst e) = v4} = set (if v4 then tn_entries L else tn_entries R)"
proof -
  have "k_isIPv4 K (fst e)" if "e \<in> set (tn_entries L)" for e using wf_entries [OF assms(1), of "fst e" "snd e"] that by simp
  moreover have "\<not> k_isIPv4 K (fst e)" if "e \<in> set (tn_entries R)" for e using wf_entries [OF assms(2), of "fst e" "snd e"] that by simp
  ultimately show ?thesis by auto
qed

lemma lookupImpl_ok:
  assumes wf: "nt_wf K valid pf dflt t" and key: "valid key"
  shows "\<exists>r. lookupImpl K key (k_getBits K key) t = Inr r \<and>
    longest_match pf (pf key) {e \<in> set (nt_entries t). k_isIPv4 K (fst e) = k_isIPv4 K key} None r"
proof -
  obtain L R k v d where t: "d_root t = TreeNode L R k v False d" "tn_wf K valid pf dflt True [] L" "tn_wf K valid pf dflt False [] R"
      "nt_entries t = tn_entries L @ tn_entries R"
    using wf by (rule nt_cases)
  define N where "N = (if k_isIPv4 K key then L else R)"
  have N: "tn_wf K valid pf dflt (k_isIPv4 K key) [] N" using t by (simp add: N_def)
  have "lookupImpl K key (k_getBits K key) t = Inr (if N = nullptr then None else lookup_loop K key (length (pf key)) 0 N None)"
    using family [OF key] t(1) by (simp add: lookupImpl_def N_def length_pf [OF key])
  moreover have "longest_match pf (pf key) (set (tn_entries N)) None (if N = nullptr then None else lookup_loop K key (length (pf key)) 0 N None)"
    using lookup_loop_ok [OF key refl N] by (simp add: longest_match_def)
  moreover have "{e \<in> set (nt_entries t). k_isIPv4 K (fst e) = k_isIPv4 K key} = set (tn_entries N)"
    unfolding t(4) nt_family_entries [OF t(2,3)] N_def by simp
  ultimately show ?thesis by simp
qed

lemma nt_lookup_ok:
  assumes wf: "nt_wf K valid pf dflt t" and key: "valid key"
  shows "\<exists>r. nt_lookup K key t = Inr r \<and>
    longest_match pf (pf key) {e \<in> set (nt_entries t). k_isIPv4 K (fst e) = k_isIPv4 K key} None r"
proof (cases "nt_empty t")
  case True
  then have "nt_entries t = []" using wf by (simp add: nt_empty_def nt_wf_def)
  then show ?thesis using True by (simp add: nt_lookup_def longest_match_def)
next
  case False
  then show ?thesis using lookupImpl_ok [OF assms] by (simp add: nt_lookup_def)
qed

text \<open>The left-most assigned node, and the one after it.\<close>

lemma nt_find:
  assumes "nt_wf K valid pf dflt t" "nt_entries t = e # es"
  shows "\<exists>p. find_node (fst e) (d_root t) [] = Some p \<and> fst p \<noteq> nullptr \<and> node_at p = (fst e, snd e, True) \<and> assigned_nodes (nodes_after p) = es"
proof -
  have all: "assigned_nodes (nodes (d_root t)) = e # es" using nt_nodes(1) [OF assms(1)] assms(2) by simp
  then have "e \<in> set (assigned_nodes (nodes (d_root t)))" by simp
  then have "(fst e, snd e, True) \<in> set (nodes (d_root t))" by (auto simp: assigned_nodes_def)
  from find_node_Some [OF nt_nodes(2) [OF assms(1)] this, of "[]"] obtain p us where
    p: "find_node (fst e) (d_root t) [] = Some p" "fst p \<noteq> nullptr" "node_at p = (fst e, snd e, True)"
      "nodes (d_root t) = us @ node_at p # nodes_after p" by auto
  have "distinct (map fst (nodes (d_root t)))" by (rule nt_nodes(2) [OF assms(1)])
  then have "fst e \<notin> fst ` set us" using p(3,4) by auto
  moreover have "fst ` set (assigned_nodes us) \<subseteq> fst ` set us" by (force simp: assigned_nodes_def)
  moreover have "assigned_nodes us @ e # assigned_nodes (nodes_after p) = e # es" using all p(3,4) by simp
  ultimately have "assigned_nodes us = []" by (cases "assigned_nodes us") auto
  then show ?thesis using p \<open>assigned_nodes us @ e # assigned_nodes (nodes_after p) = e # es\<close> by simp
qed

lemma next_assigned:
  assumes "fst p \<noteq> nullptr" "assigned_nodes (nodes_after p) = es"
  shows "map_option (tn_first \<circ> fst) (traverse_lnr_assigned p) = first_key es"
proof (cases "traverse_lnr_assigned p")
  case None
  then show ?thesis using traverse_lnr_assigned_None [OF assms(1)] assms(2) by (simp add: assigned_nodes_none)
next
  case (Some q)
  from traverse_lnr_assigned_nodes [OF Some] obtain skip where
    "tn_assigned (fst q)" "nodes_after p = skip @ node_at q # nodes_after q" "\<forall>(k, v, a) \<in> set skip. \<not> a" by blast
  then have "es = (tn_first (fst q), tn_second (fst q)) # assigned_nodes (nodes_after q)"
    using assms(2) by (cases q) (simp add: assigned_nodes_none)
  then show ?thesis using Some by simp
qed

lemma nt_list_ok: "nt_wf K valid pf dflt t \<Longrightarrow> nt_list t = nt_entries t"
proof (cases "nt_entries t")
  case Nil
  assume "nt_wf K valid pf dflt t"
  then show ?thesis using Nil by (simp add: nt_list_def nt_wf_def)
next
  case (Cons e es)
  assume wf: "nt_wf K valid pf dflt t"
  obtain p where p: "find_node (fst e) (d_root t) [] = Some p" "fst p \<noteq> nullptr" "node_at p = (fst e, snd e, True)"
      "assigned_nodes (nodes_after p) = es"
    using nt_find [OF wf Cons] by blast
  have "d_left t = Some (fst e)" using wf Cons by (simp add: nt_wf_def)
  moreover have "tn_first (fst p) = fst e" "tn_second (fst p) = snd e" using p(3) by (cases p, simp)+
  ultimately show ?thesis using p(1,2,4) Cons by (simp add: nt_list_def iterate_nodes)
qed

lemma erase_end_ok:
  assumes wf: "nt_wf K valid pf dflt t" and es: "nt_entries t = xs @ e # ys"
  shows "\<exists>t'. erase_end t set_child (Some (c, fst e)) = Inr t' \<and> d_root t' = set_child c \<and>
    d_size t' = length (xs @ ys) \<and> d_left t' = first_key (xs @ ys)"
proof -
  have t: "d_size t = length (xs @ e # ys)" "d_left t = first_key (xs @ e # ys)" using wf es by (simp_all add: nt_wf_def)
  show ?thesis
  proof (cases "xs = []")
    case True
    then have "nt_entries t = e # ys" using es by simp
    then obtain p where "find_node (fst e) (d_root t) [] = Some p" "fst p \<noteq> nullptr" "assigned_nodes (nodes_after p) = ys"
      using nt_find [OF wf] by blast
    then show ?thesis using True t next_assigned by (simp add: erase_end_def)
  next
    case False
    then have "first_key (xs @ zs) = Some (fst (hd xs))" for zs by (cases xs) simp_all
    moreover have "fst (hd xs) \<noteq> fst e"
      using nt_distinct [OF wf] es False by (cases xs) auto
    ultimately show ?thesis using t False by (simp add: erase_end_def)
  qed
qed

lemma nt_erase_ok:
  assumes wf: "nt_wf K valid pf dflt t" and key: "valid key" and e: "e \<in> set (nt_entries t)" "key_id K pf (fst e) = key_id K pf key"
  shows "\<exists>t' xs ys. nt_erase K dflt key t = Inr t' \<and> nt_wf K valid pf dflt t' \<and> nt_entries t = xs @ e # ys \<and> nt_entries t' = xs @ ys"
proof -
  obtain L R k v d where t: "d_root t = TreeNode L R k v False d" "tn_wf K valid pf dflt True [] L" "tn_wf K valid pf dflt False [] R"
      "\<not> valid k" "nt_entries t = tn_entries L @ tn_entries R"
    using wf by (rule nt_cases)
  note fam = nt_family_entries [OF t(2,3), of "k_isIPv4 K key"]
  have here: "e \<in> set (if k_isIPv4 K key then tn_entries L else tn_entries R)" "pf (fst e) = pf key"
    using e unfolding fam [symmetric] t(5) by (simp_all add: key_id_def)
  show ?thesis
  proof (cases "k_isIPv4 K key")
    case True
    obtain c xs ys where c: "erase_loop K dflt key 0 L = Some (c, fst e)" "tn_wf K valid pf dflt True [] c"
        "tn_entries L = xs @ e # ys" "tn_entries c = xs @ ys"
      using erase_loop_ok [OF key, of True dflt "[]" L 0 e] t(2) here True by auto
    have es: "nt_entries t = xs @ e # (ys @ tn_entries R)" using t(5) c(3) by simp
    obtain t' where t': "erase_end t (\<lambda>c. set_left c (d_root t)) (Some (c, fst e)) = Inr t'" "d_root t' = set_left c (d_root t)"
        "d_size t' = length (xs @ ys @ tn_entries R)" "d_left t' = first_key (xs @ ys @ tn_entries R)"
      using erase_end_ok [OF wf es, where set_child = "\<lambda>c. set_left c (d_root t)" and c = c] by blast
    have "nt_erase K dflt key t = Inr t'" using True t(1) c(1) t'(1) by (simp add: nt_erase_def)
    moreover have "nt_entries t' = xs @ (ys @ tn_entries R)" using t'(2) t(1) c(4) by (simp add: nt_entries_def)
    moreover have "nt_wf K valid pf dflt t'" using t' t c(2,4) by (simp add: nt_wf_def nt_entries_def)
    ultimately show ?thesis using es by blast
  next
    case False
    obtain c xs ys where c: "erase_loop K dflt key 0 R = Some (c, fst e)" "tn_wf K valid pf dflt False [] c"
        "tn_entries R = xs @ e # ys" "tn_entries c = xs @ ys"
      using erase_loop_ok [OF key, of False dflt "[]" R 0 e] t(3) here False by auto
    have es: "nt_entries t = (tn_entries L @ xs) @ e # ys" using t(5) c(3) by simp
    obtain t' where t': "erase_end t (\<lambda>c. set_right c (d_root t)) (Some (c, fst e)) = Inr t'" "d_root t' = set_right c (d_root t)"
        "d_size t' = length ((tn_entries L @ xs) @ ys)" "d_left t' = first_key ((tn_entries L @ xs) @ ys)"
      using erase_end_ok [OF wf es, where set_child = "\<lambda>c. set_right c (d_root t)" and c = c] by blast
    have "nt_erase K dflt key t = Inr t'" using False family [OF key] t(1) c(1) t'(1) by (simp add: nt_erase_def)
    moreover have "nt_entries t' = (tn_entries L @ xs) @ ys" using t'(2) t(1) c(4) by (simp add: nt_entries_def)
    moreover have "nt_wf K valid pf dflt t'" using t' t c(2,4) by (simp add: nt_wf_def nt_entries_def)
    ultimately show ?thesis using es by blast
  qed
qed

lemma nt_map_entries: "map fst (map (\<lambda>(k, v). (key_id K pf k, v)) es) = map (key_id K pf \<circ> fst) es"
  by (simp add: case_prod_beta comp_def)

lemma nt_erase_map:
  assumes wf: "nt_wf K valid pf dflt t" and key: "valid key" and e: "nt_map K pf t (key_id K pf key) \<noteq> None"
  shows "\<exists>t'. nt_erase K dflt key t = Inr t' \<and> nt_wf K valid pf dflt t' \<and> nt_map K pf t' = (nt_map K pf t)(key_id K pf key := None)"
proof -
  let ?g = "\<lambda>(k, v). (key_id K pf k, v)" and ?id = "key_id K pf key"
  obtain v where "(?id, v) \<in> set (map ?g (nt_entries t))" using e by (auto simp: nt_map_def dest: map_of_SomeD)
  then obtain e where e: "e \<in> set (nt_entries t)" "key_id K pf (fst e) = ?id" by force
  obtain t' xs ys where t': "nt_erase K dflt key t = Inr t'" "nt_wf K valid pf dflt t'" "nt_entries t = xs @ e # ys" "nt_entries t' = xs @ ys"
    using nt_erase_ok [OF wf key e] by blast
  define P where "P = map ?g xs"
  define Q where "Q = map ?g ys"
  have old: "map ?g (nt_entries t) = P @ (?id, snd e) # Q" using t'(3) e(2) by (simp add: P_def Q_def case_prod_beta)
  have new: "map ?g (nt_entries t') = P @ Q" using t'(4) by (simp add: P_def Q_def)
  have "distinct (map fst (map ?g (nt_entries t)))" using nt_distinct [OF wf] by (simp only: nt_map_entries)
  then have notin: "?id \<notin> fst ` set P" "?id \<notin> fst ` set Q" unfolding old by (blast dest: distinct_middle)+
  then have "map_of (P @ Q) ?id = None" by (simp add: map_of_eq_None_iff)
  then have "nt_map K pf t' = (nt_map K pf t)(?id := None)"
    unfolding nt_map_def old new map_of_middle [OF notin(1)] by (simp del: map_of_append add: fun_upd_idem)
  then show ?thesis using t'(1,2) by blast
qed

lemma nt_erase_absent:
  assumes wf: "nt_wf K valid pf dflt t" and key: "valid key"
    and none: "\<And>e. e \<in> set (nt_entries t) \<Longrightarrow> k_isIPv4 K (fst e) = k_isIPv4 K key \<Longrightarrow> \<not> prefix (pf key) (pf (fst e))"
  shows "nt_erase K dflt key t = Inr t"
proof -
  obtain L R k v d where t: "d_root t = TreeNode L R k v False d" "tn_wf K valid pf dflt True [] L" "tn_wf K valid pf dflt False [] R"
      "nt_entries t = tn_entries L @ tn_entries R"
    using wf by (rule nt_cases)
  note fam = nt_family_entries [OF t(2,3), of "k_isIPv4 K key"]
  have "\<not> prefix (pf key) (pf (fst e))" if "e \<in> set (if k_isIPv4 K key then tn_entries L else tn_entries R)" for e
    using that none [of e] unfolding fam [symmetric] t(4) by simp
  then show ?thesis
    using t family [OF key] erase_loop_none [OF key, of True dflt "[]" L 0] erase_loop_none [OF key, of False dflt "[]" R 0]
    by (cases "k_isIPv4 K key") (simp_all add: nt_erase_def erase_end_def)
qed

lemma copy_loop_ok:
  "fst p \<noteq> nullptr \<Longrightarrow> nt_wf K valid pf dflt t \<Longrightarrow> (\<And>k v. (k, v) \<in> set (assigned_nodes (node_at p # nodes_after p)) \<Longrightarrow> valid k) \<Longrightarrow>
   distinct (map (key_id K pf \<circ> fst) (assigned_nodes (node_at p # nodes_after p))) \<Longrightarrow>
   \<exists>t'. copy_loop K dflt p t = Inr t' \<and> nt_wf K valid pf dflt t' \<and>
     nt_map K pf t' = nt_map K pf t ++ map_of (map (\<lambda>(k, v). (key_id K pf k, v)) (assigned_nodes (node_at p # nodes_after p)))"
proof (induction "length (nodes_after p)" arbitrary: p t rule: less_induct)
  case less
  let ?g = "\<lambda>(k, v). (key_id K pf k, v)"
  define n where "n = tn_first (fst p)"
  define w where "w = tn_second (fst p)"
  have node: "node_at p = (n, w, tn_assigned (fst p))" by (cases p) (simp add: n_def w_def)
  define es where "es = assigned_nodes (nodes_after p)"
  have all: "assigned_nodes (node_at p # nodes_after p) = (if tn_assigned (fst p) then [(n, w)] else []) @ es"
    by (simp add: node es_def)
  obtain t1 where t1: "(if tn_assigned (fst p) then nt_insert K dflt (\<lambda>_. w) n t else Inr t) = Inr t1" "nt_wf K valid pf dflt t1"
      "nt_map K pf t1 = (if tn_assigned (fst p) then (nt_map K pf t)(key_id K pf n \<mapsto> w) else nt_map K pf t)"
    using nt_insert_map [OF less.prems(2), of n "\<lambda>_. w"] less.prems(2,3) by (cases "tn_assigned (fst p)") (auto simp: all)
  have step: "copy_loop K dflt p t = (case traverse_lnr p of None \<Rightarrow> Inr t1 | Some q \<Rightarrow> copy_loop K dflt q t1)"
    by (subst copy_loop.simps) (simp only: n_def [symmetric] w_def [symmetric] t1(1) bindR_simps)
  have "\<exists>t'. copy_loop K dflt p t = Inr t' \<and> nt_wf K valid pf dflt t' \<and> nt_map K pf t' = nt_map K pf t1 ++ map_of (map ?g es)"
  proof (cases "traverse_lnr p")
    case None
    then have "es = []" using traverse_lnr_None [OF less.prems(1)] by (simp add: es_def)
    then show ?thesis using t1(2) None by (simp add: step)
  next
    case (Some q)
    note after = traverse_lnr_Some [OF Some]
    have es: "assigned_nodes (node_at q # nodes_after q) = es" by (simp add: es_def after)
    have "length (nodes_after q) < length (nodes_after p)" by (simp add: after)
    then have "\<exists>t'. copy_loop K dflt q t1 = Inr t' \<and> nt_wf K valid pf dflt t' \<and>
        nt_map K pf t' = nt_map K pf t1 ++ map_of (map ?g (assigned_nodes (node_at q # nodes_after q)))"
      using less.hyps [of q t1] traverse_lnr_not_null [OF Some] t1(2) less.prems(3,4) unfolding all es by (cases "tn_assigned (fst p)") auto
    then show ?thesis using Some unfolding es by (simp add: step)
  qed
  moreover have "nt_map K pf t1 ++ map_of (map ?g es) = nt_map K pf t ++ map_of (map ?g (assigned_nodes (node_at p # nodes_after p)))"
  proof (cases "tn_assigned (fst p)")
    case True
    have "key_id K pf n \<notin> set (map (key_id K pf \<circ> fst) es)" using less.prems(4) unfolding all using True by simp
    then have "key_id K pf n \<notin> dom (map_of (map ?g es))" unfolding dom_map_of_conv_image_fst set_map [symmetric] nt_map_entries .
    then show ?thesis unfolding all t1(3) using True by (simp add: map_add_upd_left)
  qed (simp add: all t1(3))
  ultimately show ?case by simp
qed

lemma NetmaskTree_copy_ok:
  assumes wf: "nt_wf K valid pf dflt t" and "\<not> valid (k_default K)"
  shows "\<exists>t'. NetmaskTree_copy K dflt t = Inr t' \<and> nt_wf K valid pf dflt t' \<and> nt_map K pf t' = nt_map K pf t"
proof -
  have root: "d_root t \<noteq> nullptr" using wf by (simp add: nt_wf_def)
  let ?p = "traverse_l (d_root t) []"
  have es: "assigned_nodes (node_at ?p # nodes_after ?p) = nt_entries t"
    using traverse_l_nodes [OF root, of "[]"] nt_nodes(1) [OF wf] by simp
  have new: "nt_map K pf (NetmaskTree_new K dflt) = Map.empty"
    by (simp add: nt_map_def NetmaskTree_new_def TreeNode_root_def nt_entries_def)
  have "\<exists>t'. copy_loop K dflt ?p (NetmaskTree_new K dflt) = Inr t' \<and> nt_wf K valid pf dflt t' \<and>
      nt_map K pf t' = nt_map K pf (NetmaskTree_new K dflt) ++ map_of (map (\<lambda>(k, v). (key_id K pf k, v)) (assigned_nodes (node_at ?p # nodes_after ?p)))"
  proof (rule copy_loop_ok [OF traverse_l_not_null [OF root] nt_wf_new [OF assms(2)]])
    show "valid k" if "(k, v) \<in> set (assigned_nodes (node_at ?p # nodes_after ?p))" for k v
      using nt_entries_valid [OF wf, of "(k, v)"] that unfolding es by simp
    show "distinct (map (key_id K pf \<circ> fst) (assigned_nodes (node_at ?p # nodes_after ?p)))"
      unfolding es by (rule nt_distinct [OF wf])
  qed
  then show ?thesis unfolding es new using root by (simp add: NetmaskTree_copy_def copyTree_def nt_map_def)
qed


text \<open>The loop of \<^verbatim>\<open>erase\<close> stops at a node below the key as well as at the node of the key.\<close>

lemma erase_loop_wider:
  assumes "valid key" "valid k" "k_isIPv4 K key = k_isIPv4 K k" "prefix (pf key) (pf k)"
  shows "bits \<le> length (pf key) \<Longrightarrow>
    erase_loop K dflt key bits (TreeNode nullptr nullptr k v True (k_getFullBits K k)) = Some (nullptr, k)"
proof (induction "length (pf key) - bits" arbitrary: bits rule: less_induct)
  case less
  note bits = length_pf [OF assms(1)] length_pf [OF assms(2)]
  show ?case
  proof (cases "bits < length (pf key)")
    case True
    then have "bits < length (pf k)" "pf key ! bits = pf k ! bits" "\<not> k_getFullBits K k \<le> bits"
      using assms pf_full [of key] by (auto simp: prefix_def nth_append full_bits)
    then have "erase_loop K dflt key bits (TreeNode nullptr nullptr k v True (k_getFullBits K k)) =
        erase_loop K dflt key (bits + 1) (TreeNode nullptr nullptr k v True (k_getFullBits K k))"
      using True assms(1,2) by (simp add: erase_loop.simps [of _ _ _ bits] bits getBit)
    then show ?thesis using less.hyps [of "bits + 1"] True by simp
  next
    case False
    then show ?thesis by (simp add: erase_loop.simps [of _ _ _ bits] bits cleanup_tree_def)
  qed
qed

end

section \<open>Trees of netmasks\<close>

interpretation netmasks: prefix_key Netmask_ops nm_ok nm_prefix "\<lambda>v4. if v4 then 32 else 128"
proof (unfold_locales, goal_cases)
  case (1 k) then show ?case by (simp add: Netmask_ops_def length_nm_prefix)
next
  case (2 k) then show ?case by (simp add: Netmask_ops_def nm_full)
next
  case (3 k) then show ?case using nm_ok_bits [OF 3] by (simp add: Netmask_ops_def nm_full length_nm_prefix)
next
  case (4 k i) then show ?case by (simp add: Netmask_ops_def nm_getBit_msb length_nm_prefix)
next
  case (5 k) then show ?case by (simp add: Netmask_ops_def nm_ok_def)
next
  case (6 k n) then show ?case by (simp add: Netmask_ops_def nm_getSuper_laws)
next
  case (7 k n) then show ?case by (simp add: Netmask_ops_def nm_getSuper_laws)
next
  case (8 k n) then show ?case by (simp add: Netmask_ops_def nm_getSuper_laws)
next
  case (9 k) then show ?case by (simp add: Netmask_ops_def nm_family)
next
  case (10 k k') then show ?case by (simp add: Netmask_ops_def Netmask_eq_prefix)
qed

definition nmt_wf :: "'v \<Rightarrow> (Netmask, 'v) NetmaskTree \<Rightarrow> bool" where
  "nmt_wf dflt t = nt_wf Netmask_ops nm_ok nm_prefix dflt t"

definition nmt_id :: "Netmask \<Rightarrow> bool \<times> bool list" where
  "nmt_id nm = (nm_isIPv4 nm, nm_prefix nm)"

definition nmt_map :: "(Netmask, 'v) NetmaskTree \<Rightarrow> bool \<times> bool list \<Rightarrow> 'v option" where
  "nmt_map t = map_of (map (\<lambda>(k, v). (nmt_id k, v)) (nt_list t))"

lemma longest_match_Some:
  "longest_match pf q S ret r \<Longrightarrow> e0 \<in> S \<Longrightarrow> prefix (pf (fst e0)) q \<Longrightarrow>
   \<exists>e \<in> S. r = Some e \<and> prefix (pf (fst e)) q \<and> (\<forall>e' \<in> S. prefix (pf (fst e')) q \<longrightarrow> length (pf (fst e')) \<le> length (pf (fst e)))"
  unfolding longest_match_def by (simp split: if_splits)

lemma prefix_iff_take: "prefix xs ys \<longleftrightarrow> xs = take (length xs) ys"
  by (metis append_eq_conv_conj prefix_def take_is_prefix)

lemma nmt_id_key: "nmt_id = key_id Netmask_ops nm_prefix"
  by (simp add: fun_eq_iff nmt_id_def key_id_def Netmask_ops_def)

lemma nmt_map_eq: "nmt_wf dflt t \<Longrightarrow> nmt_map t = nt_map Netmask_ops nm_prefix t"
  by (simp add: nmt_map_def nt_map_def nmt_wf_def netmasks.nt_list_ok nmt_id_key)

lemma not_ok_default: "\<not> nm_ok (k_default Netmask_ops)"
  by (simp add: Netmask_ops_def Netmask_default_def nm_ok_def ca_ok_def ca_isIPv4_def ca_isIPv6_def)

lemma nmt_wf_new: "nmt_wf dflt (NetmaskTree_new Netmask_ops dflt)"
  by (simp add: nmt_wf_def netmasks.nt_wf_new not_ok_default)

lemma nmt_size:
  assumes "nmt_wf dflt t"
  shows "d_size t = card (dom (nmt_map t))"
proof -
  let ?es = "map (\<lambda>(k, v). (nmt_id k, v)) (nt_list t)"
  have "distinct (map fst ?es)"
    using netmasks.nt_distinct [of dflt t] assms
    by (simp add: nmt_wf_def netmasks.nt_list_ok nmt_id_key case_prod_beta comp_def)
  then have "card (dom (map_of ?es)) = length ?es" by (metis distinct_card dom_map_of_conv_image_fst length_map set_map)
  moreover have "nt_list t = nt_entries t" using assms by (simp add: nmt_wf_def netmasks.nt_list_ok)
  moreover have "d_size t = length (nt_entries t)" using assms by (simp add: nmt_wf_def nt_wf_def)
  ultimately show ?thesis by (simp add: nmt_map_def)
qed

text \<open>
  Claim C12 (a prefix tree is a map of networks): storing a value for a network in a well-formed tree
  never throws, keeps the tree well formed, and changes the map that the iterators show at this
  network only; the size is the number of networks stored.
\<close>

theorem NetmaskTree_insert_refines_map:
  assumes "nmt_wf dflt t" and "ca_ok a"
  shows "\<exists>t'. insert_or_assign Netmask_ops dflt (Netmask_of a n) v t = Inr t' \<and> nmt_wf dflt t' \<and>
    nmt_map t' = (nmt_map t)(nmt_id (Netmask_of a n) \<mapsto> v) \<and> d_size t' = card (dom (nmt_map t'))"
proof -
  obtain t' where t': "insert_or_assign Netmask_ops dflt (Netmask_of a n) v t = Inr t'" "nmt_wf dflt t'"
      "nt_map Netmask_ops nm_prefix t' = (nt_map Netmask_ops nm_prefix t)(nmt_id (Netmask_of a n) \<mapsto> v)"
    using netmasks.nt_insert_map [of dflt t "Netmask_of a n" "\<lambda>_. v"] assms
    by (auto simp: insert_or_assign_def nmt_wf_def nmt_id_key)
  moreover have "d_size t' = card (dom (nmt_map t'))" by (rule nmt_size [OF t'(2)])
  ultimately show ?thesis using assms(1) by (auto simp: nmt_map_eq)
qed

text \<open>
  Claim C11 (longest match): looking up an address in a well-formed tree of networks gives, among the
  entries that the iterators visit and whose network matches the address, one with the most
  network bits, and nothing when no network matches.
\<close>

theorem NetmaskTree_lookup_longest_match:
  assumes "nmt_wf dflt t" and "ca_ok a"
  shows "\<exists>r. nt_lookup_address Netmask_ops a 128 t = Inr r \<and>
    (case r of
       None \<Rightarrow> \<forall>e \<in> set (nt_list t). \<not> nm_match (fst e) a
     | Some e \<Rightarrow> e \<in> set (nt_list t) \<and> nm_match (fst e) a \<and>
         (\<forall>e' \<in> set (nt_list t). nm_match (fst e') a \<longrightarrow> nm_bits (fst e') \<le> nm_bits (fst e)))"
proof -
  let ?k = "Netmask_of a (ca_getBits a)"
  have wf: "nt_wf Netmask_ops nm_ok nm_prefix dflt t" using assms(1) by (simp add: nmt_wf_def)
  have list: "nt_list t = nt_entries t" using wf by (rule netmasks.nt_list_ok)
  have k: "nm_ok ?k" "nm_prefix ?k = addr_bits a" "nm_isIPv4 ?k = ca_isIPv4 a" "nm_bits ?k = ca_getBits a"
    using assms(2) by (simp_all add: nm_prefix_Netmask_of length_addr_bits Netmask_of_bits nm_isIPv4_def ca_isIPv4_def)
  have "ca_getBits a \<le> 128" by (simp add: ca_getBits_def)
  then have "nt_lookup_address Netmask_ops a 128 t = (if nt_empty t then Inr None else lookupImpl Netmask_ops ?k (nm_bits ?k) t)"
    using k(4) by (auto simp: nt_lookup_address_def Netmask_ops_def Let_def)
  also have "\<dots> = nt_lookup Netmask_ops ?k t" by (simp add: nt_lookup_def Netmask_ops_def)
  finally obtain r where r: "nt_lookup_address Netmask_ops a 128 t = Inr r"
      "longest_match nm_prefix (addr_bits a) {e \<in> set (nt_entries t). nm_isIPv4 (fst e) = ca_isIPv4 a} None r"
    using netmasks.nt_lookup_ok [OF wf k(1)] k by (auto simp: Netmask_ops_def)
  have m: "nm_match (fst e) a \<longleftrightarrow> nm_isIPv4 (fst e) = ca_isIPv4 a \<and> prefix (nm_prefix (fst e)) (addr_bits a)"
      "length (nm_prefix (fst e)) = nm_bits (fst e)" if "e \<in> set (nt_entries t)" for e
  proof -
    have ok: "nm_ok (fst e)" by (rule netmasks.nt_entries_valid [OF wf that])
    then show "length (nm_prefix (fst e)) = nm_bits (fst e)" by (rule length_nm_prefix)
    with ok assms(2) show "nm_match (fst e) a \<longleftrightarrow> nm_isIPv4 (fst e) = ca_isIPv4 a \<and> prefix (nm_prefix (fst e)) (addr_bits a)"
      by (simp add: nm_match_prefix prefix_iff_take)
  qed
  show ?thesis
  proof (cases "\<exists>e \<in> set (nt_entries t). nm_match (fst e) a")
    case True
    let ?S = "{e \<in> set (nt_entries t). nm_isIPv4 (fst e) = ca_isIPv4 a}"
    from True m(1) obtain e0 where "e0 \<in> ?S" "prefix (nm_prefix (fst e0)) (addr_bits a)" by blast
    then obtain e where e: "e \<in> ?S" "r = Some e" "prefix (nm_prefix (fst e)) (addr_bits a)"
        "\<forall>e' \<in> ?S. prefix (nm_prefix (fst e')) (addr_bits a) \<longrightarrow> length (nm_prefix (fst e')) \<le> length (nm_prefix (fst e))"
      using longest_match_Some [OF r(2)] by blast
    have "e \<in> set (nt_entries t)" "nm_match (fst e) a" using e(1,3) m(1) by simp_all
    moreover have "nm_bits (fst e') \<le> nm_bits (fst e)" if "e' \<in> set (nt_entries t)" "nm_match (fst e') a" for e'
    proof -
      have "e' \<in> ?S" "prefix (nm_prefix (fst e')) (addr_bits a)" using m(1) [OF that(1)] that by simp_all
      then show ?thesis using e(1,4) m(2) [OF that(1)] m(2) [of e] by fastforce
    qed
    moreover note e(2)
    ultimately show ?thesis using r(1) list by simp
  next
    case False
    with r(2) m(1) have "r = None" by (auto simp: longest_match_def split: if_splits)
    then show ?thesis using r(1) list False by simp
  qed
qed

text \<open>
  Claim C13 (removal): erasing a network that is stored removes it and nothing else; erasing a
  network that holds no stored network changes nothing.
\<close>

theorem NetmaskTree_erase_refines_map:
  assumes "nmt_wf dflt t" and "ca_ok a"
    and "nmt_map t (nmt_id (Netmask_of a n)) \<noteq> None \<or>
      (\<forall>e \<in> set (nt_list t). nm_isIPv4 (fst e) = ca_isIPv4 a \<longrightarrow> \<not> prefix (nm_prefix (Netmask_of a n)) (nm_prefix (fst e)))"
  shows "\<exists>t'. nt_erase Netmask_ops dflt (Netmask_of a n) t = Inr t' \<and> nmt_wf dflt t' \<and>
    nmt_map t' = (nmt_map t)(nmt_id (Netmask_of a n) := None)"
proof -
  have wf: "nt_wf Netmask_ops nm_ok nm_prefix dflt t" and k: "nm_ok (Netmask_of a n)" using assms(1,2) by (simp_all add: nmt_wf_def)
  show ?thesis
  proof (cases "nmt_map t (nmt_id (Netmask_of a n))")
    case (Some v)
    then show ?thesis
      using netmasks.nt_erase_map [OF wf k] assms(1) by (auto simp: nmt_map_eq nmt_id_key [symmetric] nmt_wf_def)
  next
    case None
    have "nt_erase Netmask_ops dflt (Netmask_of a n) t = Inr t"
      using assms(3) None netmasks.nt_list_ok [OF wf]
      by (intro netmasks.nt_erase_absent [OF wf k]) (auto simp: Netmask_ops_def nm_isIPv4_def ca_isIPv4_def)
    then show ?thesis using assms(1) None by (auto simp: fun_upd_idem)
  qed
qed

text \<open>
  Claim C14 (copies): the copy constructor, which walks over all nodes and inserts the assigned
  ones into a new tree, never aborts, and the copy maps the same networks to the same values.
\<close>

theorem NetmaskTree_copy_same_map:
  assumes "nmt_wf dflt t"
  shows "\<exists>t'. NetmaskTree_copy Netmask_ops dflt t = Inr t' \<and> nmt_wf dflt t' \<and> nmt_map t' = nmt_map t"
  using netmasks.NetmaskTree_copy_ok [OF _ not_ok_default, of dflt t] assms by (auto simp: nmt_map_eq nmt_wf_def)

section \<open>Erasing a network that is not there\<close>

text \<open>The tree that one insertion makes.\<close>

definition one_network :: "'v \<Rightarrow> Netmask \<Rightarrow> 'v \<Rightarrow> (Netmask, 'v) NetmaskTree" where
  "one_network dflt k v =
     (let node = TreeNode nullptr nullptr k v True (nm_getFullBits k) in
      \<lparr>d_root = (if nm_isIPv4 k then set_left node (TreeNode_root Netmask_ops dflt) else set_right node (TreeNode_root Netmask_ops dflt)),
       d_left = Some k, d_size = 1\<rparr>)"

lemma insert_one:
  assumes "nm_ok k"
  shows "insert_or_assign Netmask_ops dflt k v (NetmaskTree_new Netmask_ops dflt) = Inr (one_network dflt k v)"
  using nm_family [OF assms] assms
  by (simp add: insert_or_assign_def nt_insert_def NetmaskTree_new_def TreeNode_root_def first_node_def one_network_def
      Netmask_ops_def nm_ok_def Let_def)

lemma one_network_ok:
  assumes "nm_ok k"
  shows "nmt_wf dflt (one_network dflt k v)" "nt_list (one_network dflt k v) = [(k, v)]"
proof -
  have "nt_entries (one_network dflt k v) = [(k, v)]"
    by (simp add: one_network_def nt_entries_def TreeNode_root_def Let_def)
  moreover from this show wf: "nmt_wf dflt (one_network dflt k v)"
    using assms not_ok_default by (simp add: nmt_wf_def nt_wf_def one_network_def TreeNode_root_def Let_def Netmask_ops_def)
  ultimately show "nt_list (one_network dflt k v) = [(k, v)]"
    by (simp add: netmasks.nt_list_ok [OF wf [unfolded nmt_wf_def]])
qed

text \<open>
  Claim C39 (erasing a wider network): when a tree holds one network and a wider one, which is
  not in the tree, is erased, the stored network is removed.
\<close>

theorem NetmaskTree_erase_removes_subnet:
  assumes "ca_ok a" "n < m" "m \<le> ca_getBits a"
  shows "\<exists>t t'. insert_or_assign Netmask_ops dflt (Netmask_of a m) v (NetmaskTree_new Netmask_ops dflt) = Inr t \<and>
    nt_list t = [(Netmask_of a m, v)] \<and> nt_has_key Netmask_ops (Netmask_of a n) t = Inr False \<and>
    nt_erase Netmask_ops dflt (Netmask_of a n) t = Inr t' \<and> nt_list t' = []"
proof -
  let ?k = "Netmask_of a m" and ?q = "Netmask_of a n"
  let ?t = "one_network dflt ?k v"
  have ok: "nm_ok ?k" "nm_ok ?q" using assms(1) by simp_all
  have pf: "nm_prefix ?k = take m (addr_bits a)" "nm_prefix ?q = take n (addr_bits a)"
    using assms(1) by (simp_all add: nm_prefix_Netmask_of)
  have fam: "nm_isIPv4 ?k = nm_isIPv4 ?q" by (simp add: nm_isIPv4_def)
  have wf: "nt_wf Netmask_ops nm_ok nm_prefix dflt ?t" using one_network_ok(1) [OF ok(1)] by (simp add: nmt_wf_def)
  have es: "nt_entries ?t = [(?k, v)]" unfolding netmasks.nt_list_ok [OF wf, symmetric] by (rule one_network_ok(2) [OF ok(1)])
  have "\<not> prefix (nm_prefix ?k) (nm_prefix ?q)"
    using assms pf length_addr_bits [OF assms(1)] by (auto dest!: prefix_length_le)
  then have "nt_lookup Netmask_ops ?q ?t = Inr None"
    using netmasks.nt_lookup_ok [OF wf ok(2)] by (auto simp: es longest_match_def)
  then have has: "nt_has_key Netmask_ops ?q ?t = Inr False" by (simp add: nt_has_key_def)
  have "prefix (nm_prefix ?q) (nm_prefix ?k)"
    using assms(2) by (simp add: pf prefix_iff_take min_def)
  note netmasks.erase_loop_wider [OF ok(2,1) _ this, of 0 dflt v]
  then have "erase_loop Netmask_ops dflt ?q 0 (TreeNode nullptr nullptr ?k v True (nm_getFullBits ?k)) = Some (nullptr, ?k)"
    using fam by (simp add: Netmask_ops_def)
  moreover define t' where "t' = (one_network dflt ?k v)\<lparr>d_root := TreeNode_root Netmask_ops dflt, d_size := 0,
      d_left := (case find_node ?k (d_root ?t) [] of None \<Rightarrow> None | Some p \<Rightarrow> map_option (tn_first \<circ> fst) (traverse_lnr_assigned p))\<rparr>"
  ultimately have er: "nt_erase Netmask_ops dflt ?q ?t = Inr t'"
    using fam nm_family [OF ok(2)]
    by (simp add: nt_erase_def erase_end_def one_network_def TreeNode_root_def Let_def Netmask_ops_def)
  have "d_left t' = None"
    using netmasks.nt_find [OF wf es] netmasks.next_assigned by (fastforce simp: t'_def)
  then have l: "nt_list t' = []" by (simp add: nt_list_def)
  show ?thesis
    by (rule exI [where x = ?t], rule exI [where x = t']) (intro conjI insert_one [OF ok(1)] one_network_ok(2) [OF ok(1)] has er l)
qed

section \<open>Instances\<close>

definition example_address :: ComboAddress where
  "example_address = \<lparr>sin_family = AF_INET, sin_port = 0, s_addr = 0xC0000201, s6_addr = replicate 16 0\<rparr>"

lemma example_ok: "ca_ok example_address" "ca_getBits example_address = 32"
  by (simp_all add: example_address_def ca_ok_def ca_isIPv4_def ca_getBits_def)

definition example_tree :: "(Netmask, nat) NetmaskTree" where
  "example_tree = one_network 0 (Netmask_of example_address 24) 7"

lemma example_tree_ok: "nmt_wf 0 example_tree" "nt_list example_tree = [(Netmask_of example_address 24, 7)]"
  by (simp_all add: example_tree_def one_network_ok example_ok)

theorem NetmaskTree_insert_refines_map_witness:
  "\<exists>t'. insert_or_assign Netmask_ops 0 (Netmask_of example_address 16) 5 example_tree = Inr t' \<and> nmt_wf 0 t' \<and>
    nmt_map t' = (nmt_map example_tree)(nmt_id (Netmask_of example_address 16) \<mapsto> 5) \<and> d_size t' = card (dom (nmt_map t'))"
  by (rule NetmaskTree_insert_refines_map [OF example_tree_ok(1) example_ok(1)])

theorem NetmaskTree_lookup_longest_match_witness:
  "nm_match (Netmask_of example_address 24) example_address \<and>
   nt_lookup_address Netmask_ops example_address 128 example_tree = Inr (Some (Netmask_of example_address 24, 7))"
proof -
  have m: "nm_match (Netmask_of example_address 24) example_address"
    by (simp add: nm_match_prefix example_ok nm_prefix_Netmask_of Netmask_of_bits nm_isIPv4_def ca_isIPv4_def)
  then show ?thesis
    using NetmaskTree_lookup_longest_match [OF example_tree_ok(1) example_ok(1)] by (auto simp: example_tree_ok(2) split: option.splits)
qed

theorem NetmaskTree_erase_refines_map_witness:
  "nmt_map example_tree (nmt_id (Netmask_of example_address 24)) \<noteq> None \<and>
   (\<exists>t'. nt_erase Netmask_ops 0 (Netmask_of example_address 24) example_tree = Inr t' \<and> nmt_wf 0 t' \<and>
     nmt_map t' = (nmt_map example_tree)(nmt_id (Netmask_of example_address 24) := None))"
proof -
  have "nmt_map example_tree (nmt_id (Netmask_of example_address 24)) \<noteq> None" by (simp add: nmt_map_def example_tree_ok(2))
  then show ?thesis using NetmaskTree_erase_refines_map [OF example_tree_ok(1) example_ok(1), of 24] by blast
qed

theorem NetmaskTree_copy_same_map_witness:
  "\<exists>t'. NetmaskTree_copy Netmask_ops 0 example_tree = Inr t' \<and> nmt_wf 0 t' \<and> nmt_map t' = nmt_map example_tree"
  by (rule NetmaskTree_copy_same_map [OF example_tree_ok(1)])

theorem NetmaskTree_erase_removes_subnet_witness:
  "\<exists>t t'. insert_or_assign Netmask_ops 0 (Netmask_of example_address 24) (7 :: nat) (NetmaskTree_new Netmask_ops 0) = Inr t \<and>
    nt_list t = [(Netmask_of example_address 24, 7)] \<and> nt_has_key Netmask_ops (Netmask_of example_address 8) t = Inr False \<and>
    nt_erase Netmask_ops 0 (Netmask_of example_address 8) t = Inr t' \<and> nt_list t' = []"
  by (rule NetmaskTree_erase_removes_subnet [OF example_ok(1)]) (simp_all add: example_ok)

end
