(* ===== verification/PortRanges.thy ===== *)
theory PortRanges
  imports NetmaskMap "HOL-Library.Code_Target_Nat"
begin

text \<open>
  Trees whose keys are \<^verbatim>\<open>AddressAndPortRange\<close> (\<^verbatim>\<open>pdns/iputils.hh\<close>), which dnsdist uses for its dynamic blocks. The keys break
  the contract of \<open>prefix_key\<close>: \<^verbatim>\<open>getSuper\<close> does not give a range with the number of bits it was asked for, and
  a tree can lose entries.
\<close>

section \<open>Skipping the common bits\<close>

definition same_bits :: "'k key_ops \<Rightarrow> 'k \<Rightarrow> ('k, 'v) TreeNode \<Rightarrow> nat \<Rightarrow> bool" where
  "same_bits K key node n \<longleftrightarrow> n \<le> k_getBits K key \<and> n \<le> tn_bits node \<and> n \<le> k_getBits K (tn_first node) \<and>
     (\<forall>i \<in> set [0..<n]. k_getBit K key (- 1 - int i) = k_getBit K (tn_first node) (- 1 - int i))"

lemma skip_insert:
  assumes "same_bits K key node n"
  shows "insert_loop K dflt f key 0 il node = insert_loop K dflt f key n il node"
proof -
  have "m \<le> n \<Longrightarrow> insert_loop K dflt f key 0 il node = insert_loop K dflt f key m il node" for m
  proof (induction m)
    case (Suc m)
    with assms have "insert_loop K dflt f key m il node = insert_loop K dflt f key (m + 1) il node"
      by (subst insert_loop.simps) (simp add: same_bits_def)
    with Suc show ?case by simp
  qed simp
  then show ?thesis by simp
qed

lemma skip_lookup:
  assumes "same_bits K key node n" "n \<le> max_bits"
  shows "lookup_loop K key max_bits 0 node ret = lookup_loop K key max_bits n node ret"
proof -
  have "m \<le> n \<Longrightarrow> lookup_loop K key max_bits 0 node ret = lookup_loop K key max_bits m node ret" for m
  proof (induction m)
    case (Suc m)
    with assms have "lookup_loop K key max_bits m node ret = lookup_loop K key max_bits (m + 1) node ret"
      by (subst lookup_loop.simps) (simp add: same_bits_def)
    with Suc show ?case by simp
  qed simp
  then show ?thesis by simp
qed

section \<open>Three ranges of ports\<close>

definition host :: ComboAddress where
  "host = \<lparr>sin_family = AF_INET, sin_port = 0, s_addr = 0xC0000201, s6_addr = replicate 16 0\<rparr>"

text \<open>The ports of \<open>host\<close> that start with the first \<open>bits\<close> bits of \<open>port\<close>.\<close>

definition range_of :: "nat \<Rightarrow> nat \<Rightarrow> AddressAndPortRange" where
  "range_of port bits = apr_make (host\<lparr>sin_port := port\<rparr>) 32 bits"

lemma range_addr: "apr_addr (range_of p b) = host\<lparr>sin_port := sin_port (apr_addr (range_of p b))\<rparr>"
  by (simp add: range_of_def apr_make_def Let_def host_def ca_getBits_def ca_isIPv4_def)

lemma range_bit:
  assumes "i < 32"
  shows "apr_getBit (range_of p b) (- 1 - int i) = ca_getBit host (- 1 - int i)"
proof -
  have full: "apr_getFullBits (range_of p b) = 48"
    by (subst apr_getFullBits_def, subst range_addr) (simp add: host_def ca_getBits_def ca_isIPv4_def)
  show ?thesis using assms
    by (simp add: apr_getBit_def full Let_def, subst range_addr) (simp add: ca_getBit_def host_def ca_isIPv4_def Let_def)
qed

lemma same_bits_36:
  assumes "36 \<le> apr_getBits key" "36 \<le> tn_bits node" "36 \<le> apr_getBits (tn_first node)"
    and "key = range_of p b" "tn_first node = range_of q c"
    and "\<forall>i \<in> set [32..<36]. apr_getBit (range_of p b) (- 1 - int i) = apr_getBit (range_of q c) (- 1 - int i)"
  shows "same_bits AddressAndPortRange_ops key node 36"
proof -
  have "{0..<36} = {..<32} \<union> {32..<36 :: nat}" by auto
  then have "(\<forall>i \<in> set [0..<36]. P i) \<longleftrightarrow> (\<forall>i < 32. P i) \<and> (\<forall>i \<in> set [32..<36]. P i)" for P :: "nat \<Rightarrow> bool"
    by (auto simp only: set_upt)
  with assms show ?thesis unfolding same_bits_def by (simp add: range_bit AddressAndPortRange_ops_def)
qed

definition leaf1 :: "(AddressAndPortRange, nat) TreeNode" where
  "leaf1 = TreeNode nullptr nullptr (range_of 0 16) 1 True 48"

definition leaf2 :: "(AddressAndPortRange, nat) TreeNode" where
  "leaf2 = TreeNode nullptr nullptr (range_of 0x0800 16) 2 True 48"

definition branch :: "(AddressAndPortRange, nat) TreeNode" where
  "branch = TreeNode leaf1 leaf2 (range_of 0 12) 0 False 36"

definition above :: "(AddressAndPortRange, nat) TreeNode" where
  "above = TreeNode branch nullptr (range_of 0 4) 3 True 36"

definition ports :: "(AddressAndPortRange, nat) TreeNode \<Rightarrow> nat \<Rightarrow> (AddressAndPortRange, nat) NetmaskTree" where
  "ports node n = \<lparr>d_root = TreeNode node nullptr (k_default AddressAndPortRange_ops) 0 False 0, d_left = Some (range_of 0 16), d_size = n\<rparr>"

lemma first_range: "insert_or_assign AddressAndPortRange_ops 0 (range_of 0 16) 1 (NetmaskTree_new AddressAndPortRange_ops 0) = Inr (ports leaf1 1)"
  by code_simp

lemma second_range: "insert_or_assign AddressAndPortRange_ops 0 (range_of 0x0800 16) 2 (ports leaf1 1) = Inr (ports branch 2)"
proof -
  have "same_bits AddressAndPortRange_ops (range_of 0x0800 16) leaf1 36"
    by (rule same_bits_36 [OF _ _ _ refl, where q = 0 and c = 16]) (code_simp+)
  moreover have "insert_loop AddressAndPortRange_ops 0 (\<lambda>_. 2) (range_of 0x0800 16) 36 True leaf1 = (branch, False, False, range_of 0x0800 16)"
    by code_simp
  moreover have "k_isIPv4 AddressAndPortRange_ops (range_of 0x0800 16)" by code_simp
  ultimately show ?thesis
    by (simp add: insert_or_assign_def nt_insert_def ports_def skip_insert insert_end_def) (simp add: leaf1_def)
qed

lemma third_range: "insert_or_assign AddressAndPortRange_ops 0 (range_of 0 4) 3 (ports branch 2) = Inr (ports above 3)"
proof -
  have "same_bits AddressAndPortRange_ops (range_of 0 4) branch 36"
    by (rule same_bits_36 [OF _ _ _ refl, where q = 0 and c = 12]) (code_simp+)
  moreover have "insert_loop AddressAndPortRange_ops 0 (\<lambda>_. 3) (range_of 0 4) 36 True branch = (above, False, False, range_of 0 4)"
    by code_simp
  moreover have "k_isIPv4 AddressAndPortRange_ops (range_of 0 4)" by code_simp
  ultimately show ?thesis
    by (simp add: insert_or_assign_def nt_insert_def ports_def skip_insert insert_end_def) (simp add: branch_def)
qed

lemma lookup_ports:
  assumes "same_bits AddressAndPortRange_ops (range_of 0x0800 16) node 36" "node \<noteq> nullptr" "n \<noteq> 0"
  shows "nt_lookup AddressAndPortRange_ops (range_of 0x0800 16) (ports node n) =
    Inr (lookup_loop AddressAndPortRange_ops (range_of 0x0800 16) 48 36 node None)"
proof -
  have "k_isIPv4 AddressAndPortRange_ops (range_of 0x0800 16)" "k_getBits AddressAndPortRange_ops (range_of 0x0800 16) = 48"
    by code_simp+
  with assms show ?thesis
    by (simp add: nt_lookup_def nt_empty_def lookupImpl_def ports_def skip_lookup [OF assms(1)])
qed

text \<open>
  Claim C40 (a range of ports hides an entry): with the ports 0 and 2048 of a host in a tree, the lookup of
  port 2048 finds its entry. Adding the range of the ports below 4096 makes the lookup find the new
  entry instead, although the one for port 2048 is still stored: the branch node between the two
  ports was made with \<^verbatim>\<open>getSuper(36)\<close>, which gives a range of 44 bits.
\<close>

theorem AddressAndPortRange_entry_hidden:
  "\<exists>t1 t2 t3.
    insert_or_assign AddressAndPortRange_ops (0 :: nat) (range_of 0 16) 1 (NetmaskTree_new AddressAndPortRange_ops 0) = Inr t1 \<and>
    insert_or_assign AddressAndPortRange_ops 0 (range_of 0x0800 16) 2 t1 = Inr t2 \<and>
    nt_lookup AddressAndPortRange_ops (range_of 0x0800 16) t2 = Inr (Some (range_of 0x0800 16, 2)) \<and>
    insert_or_assign AddressAndPortRange_ops 0 (range_of 0 4) 3 t2 = Inr t3 \<and>
    (range_of 0x0800 16, 2) \<in> set (nt_list t3) \<and>
    nt_lookup AddressAndPortRange_ops (range_of 0x0800 16) t3 = Inr (Some (range_of 0 4, 3)) \<and>
    apr_getBits (apr_getSuper (range_of 0 16) 36) = 44"
proof (rule exI [of _ "ports leaf1 1"], rule exI [of _ "ports branch 2"], rule exI [of _ "ports above 3"], intro conjI)
  show "insert_or_assign AddressAndPortRange_ops 0 (range_of 0 16) 1 (NetmaskTree_new AddressAndPortRange_ops 0) = Inr (ports leaf1 1)"
    by (rule first_range)
  show "insert_or_assign AddressAndPortRange_ops 0 (range_of 0x0800 16) 2 (ports leaf1 1) = Inr (ports branch 2)"
    by (rule second_range)
  show "insert_or_assign AddressAndPortRange_ops 0 (range_of 0 4) 3 (ports branch 2) = Inr (ports above 3)"
    by (rule third_range)
  have "same_bits AddressAndPortRange_ops (range_of 0x0800 16) branch 36"
    by (rule same_bits_36 [OF _ _ _ refl, where q = 0 and c = 12]) (code_simp+)
  moreover have "same_bits AddressAndPortRange_ops (range_of 0x0800 16) above 36"
    by (rule same_bits_36 [OF _ _ _ refl, where q = 0 and c = 4]) (code_simp+)
  moreover note lookup_ports
  moreover have "lookup_loop AddressAndPortRange_ops (range_of 0x0800 16) 48 36 branch None = Some (range_of 0x0800 16, 2)" by code_simp
  moreover have "lookup_loop AddressAndPortRange_ops (range_of 0x0800 16) 48 36 above None = Some (range_of 0 4, 3)" by code_simp
  ultimately show "nt_lookup AddressAndPortRange_ops (range_of 0x0800 16) (ports branch 2) = Inr (Some (range_of 0x0800 16, 2))"
      "nt_lookup AddressAndPortRange_ops (range_of 0x0800 16) (ports above 3) = Inr (Some (range_of 0 4, 3))"
    by (simp_all add: branch_def above_def)
  show "(range_of 0x0800 16, 2) \<in> set (nt_list (ports above 3))" by code_simp
  show "apr_getBits (apr_getSuper (range_of 0 16) 36) = 44" by code_simp
qed

end
