(* ===== verification/EdnsSubnet.thy ===== *)
theory EdnsSubnet
  imports IpAddress
begin

text \<open>
  The EDNS Client Subnet option (\<^verbatim>\<open>pdns/ednssubnet.hh\<close>, \<^verbatim>\<open>pdns/ednssubnet.cc\<close>): reading and writing it. It cuts addresses with
  \<^verbatim>\<open>ComboAddress::truncate\<close>, which is related here to the masking in \<^verbatim>\<open>Netmask::setBits\<close>.
\<close>

unbundle bit_operations_syntax

section \<open>The option\<close>

record EDNSSubnetOpts =
  eso_source :: Netmask
  eso_scopeBits :: nat

definition eso_getScope :: "EDNSSubnetOpts \<Rightarrow> Netmask" where
  "eso_getScope eso = Netmask_of (nm_network (eso_source eso)) (eso_scopeBits eso)"

text \<open>The number of bytes that hold a prefix.\<close>

definition ecs_octets :: "nat \<Rightarrow> nat" where
  "ecs_octets prefixLength = (if prefixLength > 0 then drop_bit 3 (prefixLength - 1) + 1 else 0)"

text \<open>
  \<^verbatim>\<open>getFromString\<close>: \<open>None\<close> stands for \<^verbatim>\<open>false\<close>. The scope has no effect on the address that is stored, since \<^verbatim>\<open>truncate\<close>
  changes a local copy only.
\<close>

definition eso_getFromString :: "bytes \<Rightarrow> EDNSSubnetOpts option" where
  "eso_getFromString options =
     (if length options < 4 then None
      else let family = be16 (options ! 0) (options ! 1);
               sourcePrefixLength = unat (options ! 2);
               scopePrefixLength = unat (options ! 3);
               octetsin = ecs_octets sourcePrefixLength
           in if family = 1 then
                if length options \<noteq> 4 + octetsin then None
                else if octetsin > 4 then None
                else let raw = take octetsin (drop 4 options) @ replicate (4 - octetsin) 0;
                         address = \<lparr>sin_family = AF_INET, sin_port = 0, s_addr = of_nat (be32 (raw ! 0) (raw ! 1) (raw ! 2) (raw ! 3)),
                                    s6_addr = replicate 16 0\<rparr>
                     in Some \<lparr>eso_source = Netmask_of address sourcePrefixLength, eso_scopeBits = scopePrefixLength\<rparr>
              else if family = 2 then
                if length options \<noteq> 4 + octetsin then None
                else if octetsin > 16 then None
                else let address = \<lparr>sin_family = AF_INET6, sin_port = 0, s_addr = 0,
                                    s6_addr = take octetsin (drop 4 options) @ replicate (16 - octetsin) 0\<rparr>
                     in Some \<lparr>eso_source = Netmask_of address sourcePrefixLength, eso_scopeBits = scopePrefixLength\<rparr>
              else None)"

definition eso_makeOptString :: "EDNSSubnetOpts \<Rightarrow> bytes result" where
  "eso_makeOptString eso =
     (let source = eso_source eso;
          ret = to_be16 (if nm_isIPv4 source then 1 else 2) @ [of_nat (nm_bits source), of_nat (eso_scopeBits eso)];
          octetsout = ecs_octets (nm_bits source);
          src = ca_truncate (nm_bits source) (nm_network source)
      in if nm_isIPv4 source then
           if octetsout > 4 then Inl (runtime_error ''Trying to copy too many bytes while generating an EDNS Client Subnet option'')
           else Inr (ret @ take octetsout (to_be32 (unat (s_addr src))))
         else
           if octetsout > 16 then Inl (runtime_error ''Trying to copy too many bytes while generating an EDNS Client Subnet option'')
           else Inr (ret @ take octetsout (s6_addr src)))"

section \<open>Truncation\<close>

lemma ecs_octets: "ecs_octets n = (n + 7) div 8"
  by (cases n) (auto simp: ecs_octets_def drop_bit_eq_div)

lemma low_bits: "r < 8 \<Longrightarrow> j < 8 \<Longrightarrow> bit (NOT (push_bit r 1 - 1 :: u8)) j \<longleftrightarrow> r \<le> j"
  by (simp add: push_bit_of_1 mask_eq_exp_minus_1 [symmetric] bit_simps not_less)

lemma length_truncate_bytes: "length start = len \<Longrightarrow> n \<le> len * 8 \<Longrightarrow> length (truncate_bytes len n start) = len"
  by (simp add: truncate_bytes_def Let_def)

lemma truncate_bytes_bit:
  assumes "length start = len" "n < len * 8" "i < len * 8"
  shows "bit (truncate_bytes len n start ! (i div 8)) (7 - i mod 8) \<longleftrightarrow> i < n \<and> bit (start ! (i div 8)) (7 - i mod 8)"
proof -
  define q where "q = n div 8"
  define r where "r = n mod 8"
  have n: "n = 8 * q + r" "r < 8" "q < len" using assms(2) by (auto simp: q_def r_def)
  define j where "j = i div 8"
  define m where "m = i mod 8"
  have i: "i = 8 * j + m" "m < 8" "j < len" using assms(3) by (auto simp: j_def m_def)
  have lt: "i < n \<longleftrightarrow> j < q \<or> j = q \<and> m < r" using n i by auto
  show ?thesis
  proof (cases "r = 0")
    case True
    then have "len * 8 - n = 8 * (len - q)" using n by (simp add: diff_mult_distrib2)
    then have "truncate_bytes len n start = take q start @ replicate (len - q) 0"
      using n by (simp add: truncate_bytes_def Let_def)
    then show ?thesis
      using assms(1) i(3) n(3) lt True unfolding j_def [symmetric] m_def [symmetric] by (auto simp: nth_append)
  next
    case False
    define a where "a = len - 1 - q"
    define b where "b = 8 - r"
    have ab: "len * 8 - n = 8 * a + b" "b < 8" "len = q + 1 + a" using n False by (auto simp: a_def b_def)
    then have "(len * 8 - n) div 8 = a" "(len * 8 - n) mod 8 = b" "len - a = q + 1" "len - 1 - a = q" by simp_all
    then have t: "truncate_bytes len n start = (take (q + 1) start @ replicate a 0)[q := start ! q AND NOT (push_bit b 1 - 1)]"
      using assms(1) n(3) False n(2) by (simp add: truncate_bytes_def Let_def b_def nth_append)
    have "truncate_bytes len n start ! j = (if j = q then start ! q AND NOT (push_bit b 1 - 1) else if j < q then start ! j else 0)"
      unfolding t using assms(1) i(3) ab(3) by (auto simp: nth_list_update nth_append)
    moreover have "bit (NOT (push_bit b 1 - 1 :: u8)) (7 - m) \<longleftrightarrow> m < r"
      using low_bits [OF ab(2), of "7 - m"] i(2) n(2) False by (auto simp: b_def)
    ultimately show ?thesis
      using lt unfolding j_def [symmetric] m_def [symmetric] by (auto simp: bit_and_iff)
  qed
qed

lemma byte_bits_nth: "i < 8 * length bs \<Longrightarrow> concat (map bits_of bs) ! i \<longleftrightarrow> bit ((bs :: bytes) ! (i div 8)) (7 - i mod 8)"
  by (simp add: concat_nth_8 bits_of_nth)

lemma truncate_bits:
  assumes "length start = len" "n < len * 8"
  shows "concat (map bits_of (truncate_bytes len n start)) = take n (concat (map bits_of start)) @ replicate (len * 8 - n) False"
proof (rule nth_equalityI)
  have len: "length (truncate_bytes len n start) = len" using assms by (simp add: length_truncate_bytes)
  then show "length (concat (map bits_of (truncate_bytes len n start))) = length (take n (concat (map bits_of start)) @ replicate (len * 8 - n) False)"
    using assms by (simp add: length_concat_8)
  fix i assume "i < length (concat (map bits_of (truncate_bytes len n start)))"
  then have i: "i < len * 8" using len by (simp add: length_concat_8)
  show "concat (map bits_of (truncate_bytes len n start)) ! i = (take n (concat (map bits_of start)) @ replicate (len * 8 - n) False) ! i"
    using truncate_bytes_bit [OF assms i] assms i len
    by (auto simp: byte_bits_nth nth_append length_concat_8)
qed

lemma bit_byte_of_nat: "m < 8 \<Longrightarrow> bit (of_nat (unat (w :: u32) div 2 ^ k) :: u8) m \<longleftrightarrow> bit w (k + m)"
  by (simp add: bit_simps drop_bit_eq_div [symmetric])

lemma bits_be32: "concat (map bits_of (to_be32 (unat w))) = bits_of (w :: u32)"
proof -
  have b: "bits_of (of_nat (unat w div 2 ^ k) :: u8) = map (\<lambda>j. bit w (k + j)) (rev [0..<8])" for k
    by (auto simp: bits_of_def bit_byte_of_nat)
  have "concat (map bits_of (to_be32 (unat w))) = map (bit w) (rev [0..<32])"
  proof -
    have "[0..<8 :: nat] = [0, 1, 2, 3, 4, 5, 6, 7]" by code_simp
    moreover have "[0..<32 :: nat] = [0, 1, 2, 3, 4, 5, 6, 7, 8, 9, 10, 11, 12, 13, 14, 15, 16, 17, 18, 19, 20, 21, 22, 23, 24, 25, 26, 27, 28, 29, 30, 31]"
      by code_simp
    ultimately show ?thesis using b [of 0] b [of 8] b [of 16] b [of 24] by (simp add: to_be32_def)
  qed
  then show ?thesis by (simp add: bits_of_def)
qed

lemma be32_bits: "bits_of (of_nat (be32 a b c d) :: u32) = concat (map bits_of [a, b, c, d])"
proof -
  have "unat (of_nat (be32 a b c d) :: u32) = be32 a b c d" using be32_less [of a b c d] by (simp add: unat_of_nat take_bit_nat_eq_self)
  then show ?thesis using bits_be32 [of "of_nat (be32 a b c d)"] by (simp add: to_be32_be32)
qed

text \<open>Both ways to clear the host bits of an address give the same address.\<close>

lemma ca_truncate_ok:
  assumes "ca_ok a"
  shows "ca_ok (ca_truncate n a)" "ca_isIPv4 (ca_truncate n a) = ca_isIPv4 a" "sin_family (ca_truncate n a) = sin_family a"
    "addr_bits (ca_truncate n a) = addr_bits (nm_network (Netmask_of a n))"
proof -
  show fam: "ca_isIPv4 (ca_truncate n a) = ca_isIPv4 a" "sin_family (ca_truncate n a) = sin_family a"
    by (simp_all add: ca_truncate_def ca_isIPv4_def)
  have len: "length (s6_addr a) = 16" using assms by (simp add: ca_ok_def)
  show "ca_ok (ca_truncate n a)"
    using assms len by (auto simp: ca_ok_def ca_truncate_def ca_isIPv4_def ca_isIPv6_def length_truncate_bytes)
  have bits: "addr_bits (ca_truncate n a) = take n (addr_bits a) @ replicate (ca_getBits a - n) False" if "n < ca_getBits a"
  proof (cases "ca_isIPv4 a")
    case True
    let ?bs = "truncate_bytes 4 n (to_be32 (unat (s_addr a)))"
    have n: "n < 32" using that True by (simp add: ca_getBits_def)
    have "length ?bs = 4" using n by (simp add: length_truncate_bytes)
    then obtain b0 b1 b2 b3 where bs: "?bs = [b0, b1, b2, b3]" by (auto simp: numeral_eq_Suc length_Suc_conv)
    have "addr_bits (ca_truncate n a) = concat (map bits_of ?bs)"
      using True n by (simp add: addr_bits_def fam ca_truncate_def bs be32_bits ca_isIPv4_def)
    also have "\<dots> = take n (concat (map bits_of (to_be32 (unat (s_addr a))))) @ replicate (4 * 8 - n) False"
      using n by (intro truncate_bits) simp_all
    finally show ?thesis using True by (simp add: bits_be32 addr_bits_def ca_getBits_def)
  next
    case False
    have n: "n < 128" using that by (simp add: ca_getBits_def split: if_splits)
    have 6: "ca_isIPv6 a" using assms False by (simp add: ca_ok_def)
    have "addr_bits (ca_truncate n a) = concat (map bits_of (truncate_bytes 16 n (s6_addr a)))"
      using False n by (simp add: addr_bits_def fam ca_truncate_def) (simp add: ca_isIPv4_def)
    also have "\<dots> = take n (concat (map bits_of (s6_addr a))) @ replicate (16 * 8 - n) False"
      using n len by (intro truncate_bits) simp_all
    finally show ?thesis using False 6 by (simp add: addr_bits_def ca_getBits_def)
  qed
  have all: "ca_truncate n a = a" if "\<not> n < ca_getBits a"
    using that assms by (auto simp: ca_truncate_def ca_getBits_def ca_ok_def ca_isIPv4_def ca_isIPv6_def split: if_splits)
  show "addr_bits (ca_truncate n a) = addr_bits (nm_network (Netmask_of a n))"
    using bits all assms length_addr_bits [OF assms] by (cases "n < ca_getBits a") (auto simp: Netmask_of_addr_bits)
qed

section \<open>Round trip\<close>

lemma zero_tail:
  assumes "concat (map bits_of (bs :: bytes)) = P @ replicate k False" "length P = n"
  shows "take (ecs_octets n) bs @ replicate (length bs - ecs_octets n) 0 = bs"
proof (rule nth_equalityI)
  have len: "8 * length bs = n + k" using arg_cong [OF assms(1), of length] assms(2) by (simp add: length_concat_8)
  then show l: "length (take (ecs_octets n) bs @ replicate (length bs - ecs_octets n) 0) = length bs"
    by (simp add: ecs_octets) 
  fix j assume "j < length (take (ecs_octets n) bs @ replicate (length bs - ecs_octets n) 0)"
  then have j: "j < length bs" using l by simp
  have "bs ! j = 0" if "ecs_octets n \<le> j"
  proof (rule bit_word_eqI)
    fix m assume m: "m < LENGTH(8)"
    let ?i = "8 * j + (7 - m)"
    have "(8 * j + r) div 8 = j" "(8 * j + r) mod 8 = r" if "r < 8" for r using that by simp_all
    from this [of "7 - m"] have i: "?i < 8 * length bs" "?i div 8 = j" "?i mod 8 = 7 - m" "n \<le> ?i"
      using j m that unfolding ecs_octets by linarith+
    then have "bit (bs ! j) m \<longleftrightarrow> (P @ replicate k False) ! ?i"
      using byte_bits_nth [OF i(1)] m by (simp add: assms(1))
    then show "bit (bs ! j) m = bit 0 m" using i len assms(2) by (simp add: nth_append)
  qed
  then show "(take (ecs_octets n) bs @ replicate (length bs - ecs_octets n) 0) ! j = bs ! j"
    using j by (simp add: nth_append min_def)
qed

lemma byte_string_bits: "ca_ok a \<Longrightarrow> concat (map bits_of (ca_toByteString a)) = addr_bits a"
  by (simp add: ca_toByteString_def addr_bits_def bits_be32)

lemma makeOptString_bytes:
  assumes "nm_ok source"
  shows "eso_makeOptString \<lparr>eso_source = source, eso_scopeBits = scope\<rparr> =
    Inr (to_be16 (if nm_isIPv4 source then 1 else 2) @ [of_nat (nm_bits source), of_nat scope] @
      take (ecs_octets (nm_bits source)) (ca_toByteString (nm_network source)))"
proof -
  let ?a = "nm_network source" and ?n = "nm_bits source"
  have ok: "ca_ok ?a" and norm: "Netmask_of ?a ?n = source" using assms by (simp_all add: nm_ok_def nm_getNormalized_def)
  note t = ca_truncate_ok [OF ok, of ?n]
  have "addr_bits (ca_truncate ?n ?a) = addr_bits ?a" using t(4) norm by simp
  then have "if ca_isIPv4 ?a then s_addr (ca_truncate ?n ?a) = s_addr ?a else s6_addr (ca_truncate ?n ?a) = s6_addr ?a"
    using addr_bits_eq [OF t(1) ok t(3)] t(2) by simp
  then have "ca_toByteString (ca_truncate ?n ?a) = ca_toByteString ?a" using t(2) by (simp add: ca_toByteString_def split: if_splits)
  moreover have "ecs_octets ?n \<le> (if nm_isIPv4 source then 4 else 16)"
    using nm_ok_bits [OF assms] nm_full [OF assms] by (simp add: ecs_octets split: if_splits)
  moreover have "nm_isIPv4 source = ca_isIPv4 ?a" by (simp add: nm_isIPv4_def ca_isIPv4_def)
  ultimately show ?thesis using t(2) by (auto simp: eso_makeOptString_def Let_def ca_toByteString_def split: if_splits)
qed

text \<open>Reading the bytes of a prefix \<open>raw\<close> whose tail is zero.\<close>

lemma getFromString_bytes:
  fixes n scope :: nat and raw :: bytes
  assumes "n < 256" "scope < 256" "ecs_octets n \<le> length raw" and tail: "take (ecs_octets n) raw @ replicate (length raw - ecs_octets n) 0 = raw"
  shows "length raw = 4 \<Longrightarrow> eso_getFromString (to_be16 1 @ [of_nat n, of_nat scope] @ take (ecs_octets n) raw) =
      Some \<lparr>eso_source = Netmask_of \<lparr>sin_family = AF_INET, sin_port = 0, s_addr = of_nat (be32 (raw ! 0) (raw ! 1) (raw ! 2) (raw ! 3)),
        s6_addr = replicate 16 0\<rparr> n, eso_scopeBits = scope\<rparr>"
    and "length raw = 16 \<Longrightarrow> eso_getFromString (to_be16 2 @ [of_nat n, of_nat scope] @ take (ecs_octets n) raw) =
      Some \<lparr>eso_source = Netmask_of \<lparr>sin_family = AF_INET6, sin_port = 0, s_addr = 0, s6_addr = raw\<rparr> n, eso_scopeBits = scope\<rparr>"
proof -
  let ?s = "\<lambda>family. to_be16 family @ [of_nat n, of_nat scope] @ take (ecs_octets n) raw"
  have u: "unat (of_nat n :: u8) = n" "unat (of_nat scope :: u8) = scope"
    using assms(1,2) by (simp_all add: unat_of_nat take_bit_nat_eq_self)
  have s: "length (?s f) = 4 + ecs_octets n" "?s f ! 2 = of_nat n" "?s f ! 3 = of_nat scope" "drop 4 (?s f) = take (ecs_octets n) raw"
    and be: "f < 65536 \<Longrightarrow> be16 (?s f ! 0) (?s f ! 1) = f" for f
    using assms(3) be16_to_be16 [of f] by (simp_all add: to_be16_def nth_append)
  have fam: "be16 (?s 1 ! 0) (?s 1 ! 1) = 1" "be16 (?s 2 ! 0) (?s 2 ! 1) = 2" by (rule be, simp)+
  show "eso_getFromString (?s 1) = Some \<lparr>eso_source = Netmask_of \<lparr>sin_family = AF_INET, sin_port = 0, s_addr = of_nat (be32 (raw ! 0) (raw ! 1) (raw ! 2) (raw ! 3)),
        s6_addr = replicate 16 0\<rparr> n, eso_scopeBits = scope\<rparr>" if "length raw = 4"
    using assms(3) tail unfolding eso_getFromString_def Let_def s fam u that by (simp add: take_all)
  show "eso_getFromString (?s 2) = Some \<lparr>eso_source = Netmask_of \<lparr>sin_family = AF_INET6, sin_port = 0, s_addr = 0, s6_addr = raw\<rparr> n, eso_scopeBits = scope\<rparr>" if "length raw = 16"
    using assms(3) tail unfolding eso_getFromString_def Let_def s fam u that by (simp add: take_all)
qed

text \<open>The client 192.0.2.1.\<close>

definition example_client :: ComboAddress where
  "example_client = \<lparr>sin_family = AF_INET, sin_port = 0, s_addr = 0xc0000201, s6_addr = replicate 16 0\<rparr>"

text \<open>
  Claim C19 (client subnets survive the wire): the option string of a client subnet is always made, has
  four bytes and the bytes of the prefix, and reading it gives back an equal network and the same scope.
\<close>

theorem EDNSSubnetOpts_roundtrip:
  assumes "ca_ok a" "scope < 256"
  shows "\<exists>s eso. eso_makeOptString \<lparr>eso_source = Netmask_of a n, eso_scopeBits = scope\<rparr> = Inr s \<and>
    length s = 4 + (nm_bits (Netmask_of a n) + 7) div 8 \<and> eso_getFromString s = Some eso \<and>
    Netmask_eq (eso_source eso) (Netmask_of a n) \<and> eso_scopeBits eso = scope"
proof -
  let ?k = "Netmask_of a n"
  let ?n = "nm_bits ?k" and ?bs = "ca_toByteString (nm_network ?k)"
  have k: "nm_ok ?k" "ca_ok (nm_network ?k)" using assms(1) by simp_all
  have fam: "nm_isIPv4 ?k = ca_isIPv4 (nm_network ?k)" by (simp add: nm_isIPv4_def ca_isIPv4_def)
  have len: "length ?bs = (if nm_isIPv4 ?k then 4 else 16)" using length_ca_toByteString [OF k(2)] fam by simp
  have o: "ecs_octets ?n \<le> length ?bs" using nm_ok_bits [OF k(1)] nm_full [OF k(1)] len by (simp add: ecs_octets split: if_splits)
  have n: "?n < 256" using nm_ok_bits [OF k(1)] nm_full [OF k(1)] by (simp split: if_splits)
  define s where "s = to_be16 (if nm_isIPv4 ?k then 1 else 2) @ [of_nat ?n, of_nat scope] @ take (ecs_octets ?n) ?bs"
  have make: "eso_makeOptString \<lparr>eso_source = ?k, eso_scopeBits = scope\<rparr> = Inr s"
    unfolding s_def by (rule makeOptString_bytes [OF k(1)])
  have "concat (map bits_of ?bs) = nm_prefix ?k @ replicate (nm_getFullBits ?k - ?n) False"
    using byte_string_bits [OF k(2)] nm_ok_addr_bits [OF k(1)] by simp
  from zero_tail [OF this length_nm_prefix [OF k(1)]]
  have tail: "take (ecs_octets ?n) ?bs @ replicate (length ?bs - ecs_octets ?n) 0 = ?bs" .
  obtain b where b: "eso_getFromString s = Some \<lparr>eso_source = Netmask_of b ?n, eso_scopeBits = scope\<rparr>" "ca_ok b"
      "ca_isIPv4 b = nm_isIPv4 ?k" "addr_bits b = addr_bits (nm_network ?k)"
  proof (cases "nm_isIPv4 ?k")
    case True
    obtain b0 b1 b2 b3 where bs: "?bs = [b0, b1, b2, b3]" using len True by (auto simp: numeral_eq_Suc length_Suc_conv)
    let ?b = "\<lparr>sin_family = AF_INET, sin_port = 0, s_addr = of_nat (be32 b0 b1 b2 b3), s6_addr = replicate 16 0\<rparr>"
    have "eso_getFromString s = Some \<lparr>eso_source = Netmask_of ?b ?n, eso_scopeBits = scope\<rparr>"
      using getFromString_bytes(1) [OF n assms(2) o tail] True len by (simp add: s_def bs)
    moreover have "addr_bits ?b = addr_bits (nm_network ?k)"
      using byte_string_bits [OF k(2)] bs by (simp add: addr_bits_def [of ?b] ca_isIPv4_def be32_bits)
    ultimately show ?thesis using True by (intro that [of ?b]) (simp_all add: ca_ok_def ca_isIPv4_def)
  next
    case False
    let ?b = "\<lparr>sin_family = AF_INET6, sin_port = 0, s_addr = 0, s6_addr = ?bs\<rparr>"
    have "eso_getFromString s = Some \<lparr>eso_source = Netmask_of ?b ?n, eso_scopeBits = scope\<rparr>"
      using getFromString_bytes(2) [OF n assms(2) o tail] False len by (simp add: s_def)
    moreover have "addr_bits ?b = addr_bits (nm_network ?k)"
      using byte_string_bits [OF k(2)] by (simp add: addr_bits_def [of ?b] ca_isIPv4_def)
    ultimately show ?thesis using False len by (intro that [of ?b]) (simp_all add: ca_ok_def ca_isIPv4_def ca_isIPv6_def)
  qed
  have "Netmask_eq (Netmask_of b ?n) ?k"
    using b(2,3,4) k(1) by (simp add: Netmask_eq_prefix nm_prefix_Netmask_of [OF b(2)] nm_prefix_def [of ?k]) (simp add: nm_isIPv4_def ca_isIPv4_def)
  moreover have "length s = 4 + (?n + 7) div 8" using o by (simp add: s_def min_def ecs_octets)
  ultimately show ?thesis using make b(1) by auto
qed

theorem EDNSSubnetOpts_roundtrip_witness:
  "\<exists>s eso. eso_makeOptString \<lparr>eso_source = Netmask_of example_client 20, eso_scopeBits = 24\<rparr> = Inr s \<and> length s = 7 \<and>
     eso_getFromString s = Some eso \<and> Netmask_eq (eso_source eso) (Netmask_of example_client 20) \<and> eso_scopeBits eso = 24"
proof -
  have "ca_ok example_client" "nm_bits (Netmask_of example_client 20) = 20" by (simp_all add: example_client_def ca_ok_def ca_isIPv4_def Netmask_of_bits ca_getBits_def)
  then show ?thesis using EDNSSubnetOpts_roundtrip [of example_client 24 20] by simp
qed

end
