(* ===== verification/EdnsCookies.thy ===== *)
theory EdnsCookies
  imports IpAddress
begin

text \<open>
  EDNS cookies (\<^verbatim>\<open>pdns/ednscookies.hh\<close>, \<^verbatim>\<open>pdns/ednscookies.cc\<close>) and the extended DNS error option (\<^verbatim>\<open>pdns/ednsextendederror.cc\<close>).
  The keyed hash \<^verbatim>\<open>crypto_shorthash\<close> of libsodium, the readings of the clock and
  the random bytes are arguments. The build is the one with \<^verbatim>\<open>HAVE_CRYPTO_SHORTHASH\<close>.
\<close>

unbundle bit_operations_syntax

section \<open>Comparing serials and strings\<close>

definition rfc1982LessThan :: "u32 \<Rightarrow> u32 \<Rightarrow> bool" where
  "rfc1982LessThan lhs rhs \<longleftrightarrow> sint (lhs - rhs) < 0"

text \<open>The loop of the build that has no \<^verbatim>\<open>CRYPTO_memcmp\<close>.\<close>

definition constantTimeStringEquals :: "bytes \<Rightarrow> bytes \<Rightarrow> bool" where
  "constantTimeStringEquals lhs rhs \<longleftrightarrow>
     (if length lhs \<noteq> length rhs then False
      else fold (\<lambda>(a, b) res. res OR (a XOR b)) (zip lhs rhs) (0 :: u8) = 0)"

section \<open>Cookies\<close>

record EDNSCookiesOpt =
  ck_client :: bytes
  ck_server :: bytes

text \<open>The key size of libsodium, which the source fixes with a \<^verbatim>\<open>static_assert\<close> to half of \<^verbatim>\<open>EDNSCookieSecretSize\<close>, 32.\<close>

definition crypto_shorthash_KEYBYTES :: nat where
  "crypto_shorthash_KEYBYTES = 16"

definition ck_isWellFormed :: "EDNSCookiesOpt \<Rightarrow> bool" where
  "ck_isWellFormed c \<longleftrightarrow>
     length (ck_client c) = 8 \<and> (ck_server c = [] \<or> length (ck_server c) \<ge> 8 \<and> length (ck_server c) \<le> 32)"

definition getEDNSCookiesOptFromString :: "bytes \<Rightarrow> EDNSCookiesOpt" where
  "getEDNSCookiesOptFromString option =
     (if length option < 8 then \<lparr>ck_client = [], ck_server = []\<rparr>
      else \<lparr>ck_client = take 8 option, ck_server = (if length option > 8 then drop 8 option else [])\<rparr>)"

definition ck_makeFromString :: "bytes \<Rightarrow> bool \<times> EDNSCookiesOpt" where
  "ck_makeFromString option = (let c = getEDNSCookiesOptFromString option in (ck_isWellFormed c, c))"

definition ck_makeOptString :: "EDNSCookiesOpt \<Rightarrow> bytes" where
  "ck_makeOptString c =
     (if \<not> ck_isWellFormed c then []
      else ck_client c @ (if length (ck_server c) \<noteq> 0 then ck_server c else []))"

definition cookieTSIsValid :: "u32 \<Rightarrow> u32 \<Rightarrow> bool" where
  "cookieTSIsValid timestamp now \<longleftrightarrow> rfc1982LessThan (now - 3600) timestamp \<and> rfc1982LessThan timestamp (now + 300)"

abbreviation ck_timestamp :: "EDNSCookiesOpt \<Rightarrow> u32" where
  "ck_timestamp c \<equiv> of_nat (be32 (ck_server c ! 4) (ck_server c ! 5) (ck_server c ! 6) (ck_server c ! 7))"

text \<open>The loop over the old secrets.\<close>

fun ck_anyOld :: "(bytes \<Rightarrow> bytes \<Rightarrow> bytes) \<Rightarrow> bytes \<Rightarrow> bytes \<Rightarrow> bytes list \<Rightarrow> bool" where
  "ck_anyOld shorthash toHash expected [] = False"
| "ck_anyOld shorthash toHash expected (oldSecret # oldSecrets) =
     (if length oldSecret \<noteq> crypto_shorthash_KEYBYTES then ck_anyOld shorthash toHash expected oldSecrets
      else if constantTimeStringEquals expected (shorthash toHash oldSecret) then True
      else ck_anyOld shorthash toHash expected oldSecrets)"

definition ck_isValid :: "(bytes \<Rightarrow> bytes \<Rightarrow> bytes) \<Rightarrow> u32 \<Rightarrow> bytes \<Rightarrow> ComboAddress \<Rightarrow> bytes list \<Rightarrow> EDNSCookiesOpt \<Rightarrow> bool" where
  "ck_isValid shorthash now secret source oldSecrets c \<longleftrightarrow>
     (if length (ck_server c) \<noteq> 16 \<or> length (ck_client c) \<noteq> 8 then False
      else if ck_server c ! 0 \<noteq> 1 then False
      else if \<not> cookieTSIsValid (ck_timestamp c) now then False
      else if length secret \<noteq> crypto_shorthash_KEYBYTES then False
      else let toHash = ck_client c @ take 8 (ck_server c) @ ca_toByteString source
           in if constantTimeStringEquals (drop 8 (ck_server c)) (shorthash toHash secret) then True
              else ck_anyOld shorthash toHash (drop 8 (ck_server c)) oldSecrets)"

definition ck_shouldRefresh :: "u32 \<Rightarrow> EDNSCookiesOpt \<Rightarrow> bool" where
  "ck_shouldRefresh now c \<longleftrightarrow>
     (if length (ck_server c) < 16 then True
      else if \<not> cookieTSIsValid (ck_timestamp c) now then True
      else rfc1982LessThan (ck_timestamp c + 1800) now)"

definition ck_makeClientCookie :: "(nat \<Rightarrow> bytes) \<Rightarrow> EDNSCookiesOpt \<Rightarrow> EDNSCookiesOpt" where
  "ck_makeClientCookie dns_random c = c\<lparr>ck_client := dns_random 8\<rparr>"

text \<open>The clock is read by \<^verbatim>\<open>isValid\<close>, by \<^verbatim>\<open>shouldRefresh\<close> and for the new cookie: three readings.\<close>

definition ck_makeServerCookie :: "(bytes \<Rightarrow> bytes \<Rightarrow> bytes) \<Rightarrow> u32 \<Rightarrow> u32 \<Rightarrow> u32 \<Rightarrow> bytes \<Rightarrow> ComboAddress \<Rightarrow> EDNSCookiesOpt \<Rightarrow> bool \<times> EDNSCookiesOpt" where
  "ck_makeServerCookie shorthash now1 now2 now3 secret source c =
     (if ck_isValid shorthash now1 secret source [] c \<and> \<not> ck_shouldRefresh now2 c then (True, c)
      else if length secret \<noteq> crypto_shorthash_KEYBYTES then (False, c)
      else let server = [1, 0, 0, 0] @ to_be32 (unat now3);
               toHash = ck_client c @ server @ ca_toByteString source
           in (True, c\<lparr>ck_server := server @ shorthash toHash secret\<rparr>))"

section \<open>Extended errors\<close>

record EDNSExtendedError =
  infoCode :: nat
  extraText :: bytes

text \<open>The object is left as it was where the option is too short, and keeps its text where the option has none.\<close>

definition getEDNSExtendedErrorOptFromString :: "bytes \<Rightarrow> EDNSExtendedError \<Rightarrow> bool \<times> EDNSExtendedError" where
  "getEDNSExtendedErrorOptFromString option eee =
     (if length option < 2 then (False, eee)
      else let eee = eee\<lparr>infoCode := be16 (option ! 0) (option ! 1)\<rparr>
           in (True, if length option > 2 then eee\<lparr>extraText := drop 2 option\<rparr> else eee))"

definition makeEDNSExtendedErrorOptString :: "EDNSExtendedError \<Rightarrow> bytes result" where
  "makeEDNSExtendedErrorOptString eee =
     (if length (extraText eee) > 65535 - 2
      then Inl (runtime_error ''Trying to create an EDNS Extended Error option with an extra text of size '')
      else Inr (to_be16 (infoCode eee) @ extraText eee))"

section \<open>Laws\<close>

lemma xor_eq_0: "a XOR b = 0 \<longleftrightarrow> (a :: u8) = b"
  by (auto simp: bit_eq_iff bit_simps)

lemma fold_or_xor: "fold (\<lambda>(a, b) res. res OR (a XOR b)) ps (r :: u8) = 0 \<longleftrightarrow> r = 0 \<and> (\<forall>(a, b) \<in> set ps. a = b)"
  by (induction ps arbitrary: r) (auto simp: or_eq_0_iff xor_eq_0)

lemma constantTimeStringEquals_eq: "constantTimeStringEquals lhs rhs \<longleftrightarrow> lhs = rhs"
  by (auto simp: constantTimeStringEquals_def fold_or_xor set_zip list_eq_iff_nth_eq)

lemma ck_anyOld_iff: "ck_anyOld h m e olds \<longleftrightarrow> (\<exists>k \<in> set olds. length k = crypto_shorthash_KEYBYTES \<and> e = h m k)"
  by (induction olds) (auto simp: constantTimeStringEquals_eq)

lemma cookie_option_roundtrip: "ck_isWellFormed c \<Longrightarrow> ck_makeFromString (ck_makeOptString c) = (True, c)"
  by (cases c) (auto simp: ck_isWellFormed_def ck_makeFromString_def ck_makeOptString_def getEDNSCookiesOptFromString_def Let_def)

lemma sint_small: "- (2 ^ 31) \<le> k \<Longrightarrow> k < 2 ^ 31 \<Longrightarrow> sint (word_of_int k :: u32) = k"
  by (transfer fixing: k) (simp add: signed_take_bit_int_eq_self)

lemma extended_error_roundtrip:
  assumes "infoCode eee < 65536" "length (extraText eee) \<le> 65533" "extraText e0 = []"
  shows "\<exists>s. makeEDNSExtendedErrorOptString eee = Inr s \<and> getEDNSExtendedErrorOptFromString s e0 = (True, eee)"
proof -
  obtain a b where ab: "to_be16 (infoCode eee) = [a, b]" by (simp add: to_be16_def)
  then show ?thesis using assms be16_to_be16 [OF assms(1) ab]
    by (auto simp: makeEDNSExtendedErrorOptString_def getEDNSExtendedErrorOptFromString_def Let_def)
qed

text \<open>A cookie that is valid and not to be refreshed at one time is valid at any time in the next half hour.\<close>

lemma cookie_kept:
  assumes "cookieTSIsValid ts now" "\<not> rfc1982LessThan (ts + 1800) now" "now' - now < 1800"
  shows "cookieTSIsValid ts now'"
proof -
  define d where "d = uint (now' - now)"
  define y where "y = sint (ts + 1800 - now)"
  have "uint (now' - now) < uint (1800 :: u32)" using assms(3) by (simp only: word_less_def)
  then have d: "0 \<le> d" "d < 1800" "now' = now + word_of_int d" by (simp_all add: d_def)
  have ts: "ts = now + word_of_int (y - 1800)" by (simp add: y_def algebra_simps)
  have y0: "0 \<le> y" "y < 2 ^ 31" using assms(2) sint_lt [of "ts + 1800 - now"] by (simp_all add: rfc1982LessThan_def y_def)
  have e: "ts - (now + 300) = word_of_int (y - 2100)" "now' - 3600 - ts = word_of_int (d - 1800 - y)"
      "ts - (now' + 300) = word_of_int (y - d - 2100)"
    by (simp_all add: ts d(3) algebra_simps)
  have "sint (ts - (now + 300)) < 0" using assms(1) by (simp add: cookieTSIsValid_def rfc1982LessThan_def)
  then have "y < 2100" unfolding e(1) using y0 by (subst (asm) sint_small) simp_all
  then show ?thesis unfolding cookieTSIsValid_def rfc1982LessThan_def e
    using y0 d sint_small [of "d - 1800 - y"] sint_small [of "y - d - 2100"] by simp
qed

lemma cookie_new: "now' - now < 1800 \<Longrightarrow> cookieTSIsValid now now'"
proof (rule cookie_kept)
  have "sint (- 3600 :: u32) = - 3600" "sint (- 300 :: u32) = - 300" "sint (1800 :: u32) = 1800"
    using sint_small [of "- 3600"] sint_small [of "- 300"] sint_small [of 1800] by simp_all
  then show "cookieTSIsValid now now" "\<not> rfc1982LessThan (now + 1800) now"
    by (simp_all add: cookieTSIsValid_def rfc1982LessThan_def)
qed

text \<open>
  Claim C18 (server cookies are accepted, across a change of secret): making a server cookie with a secret of the
  right size succeeds and keeps the client's cookie. The cookie that results, fresh or kept, is well formed
  and valid for the same client address for half an hour, with that secret or with a new one when the first is among the old ones.
\<close>

theorem makeServerCookie_isValid:
  assumes "\<And>m k. length (shorthash m k) = 8"
    and "length (ck_client c) = 8" "length secret = crypto_shorthash_KEYBYTES"
    and "now' - now2 < 1800" "now' - now3 < 1800"
    and "secret' = secret \<or> length secret' = crypto_shorthash_KEYBYTES \<and> secret \<in> set oldSecrets"
  shows "\<exists>c'. ck_makeServerCookie shorthash now1 now2 now3 secret source c = (True, c') \<and> ck_client c' = ck_client c \<and>
    ck_makeFromString (ck_makeOptString c') = (True, c') \<and> ck_isValid shorthash now' secret' source oldSecrets c'"
proof (cases "ck_isValid shorthash now1 secret source [] c \<and> \<not> ck_shouldRefresh now2 c")
  case True
  then have "cookieTSIsValid (ck_timestamp c) now'"
    using cookie_kept [OF _ _ assms(4)] by (auto simp: ck_shouldRefresh_def split: if_splits)
  with True have "ck_isValid shorthash now' secret' source oldSecrets c" "ck_isWellFormed c"
    using assms(3,6) by (auto simp: ck_isValid_def ck_isWellFormed_def constantTimeStringEquals_eq ck_anyOld_iff Let_def split: if_splits)
  with True show ?thesis by (simp add: ck_makeServerCookie_def cookie_option_roundtrip)
next
  case False
  obtain b0 b1 b2 b3 where b: "to_be32 (unat now3) = [b0, b1, b2, b3]" by (simp add: to_be32_def)
  have "be32 b0 b1 b2 b3 = unat now3" using b by (intro be32_to_be32) (use unsigned_less [of now3] in simp)
  then have ts: "of_nat (be32 b0 b1 b2 b3) = now3" by simp
  let ?server = "[1, 0, 0, 0, b0, b1, b2, b3]"
  define h where "h = shorthash (ck_client c @ ?server @ ca_toByteString source) secret"
  define c' where "c' = c\<lparr>ck_server := ?server @ h\<rparr>"
  have "length h = 8" by (simp add: h_def assms(1))
  then have "ck_isValid shorthash now' secret' source oldSecrets c'" "ck_isWellFormed c'"
    using assms(2,3,6) ts cookie_new [OF assms(5)]
    by (auto simp: c'_def h_def ck_isValid_def ck_isWellFormed_def constantTimeStringEquals_eq ck_anyOld_iff Let_def)
  moreover have "ck_makeServerCookie shorthash now1 now2 now3 secret source c = (True, c')"
    using False assms(3) b by (auto simp: ck_makeServerCookie_def c'_def h_def Let_def)
  ultimately show ?thesis by (simp add: cookie_option_roundtrip c'_def)
qed

theorem makeServerCookie_isValid_witness:
  "\<exists>c'. ck_makeServerCookie (\<lambda>m k. take 8 (k @ m @ replicate 8 0)) 100 100 101 (replicate 16 7) (ComboAddress_default) \<lparr>ck_client = replicate 8 5, ck_server = []\<rparr> = (True, c') \<and>
    ck_client c' = replicate 8 5 \<and> ck_makeFromString (ck_makeOptString c') = (True, c') \<and>
    ck_isValid (\<lambda>m k. take 8 (k @ m @ replicate 8 0)) 1000 (replicate 16 9) (ComboAddress_default) [replicate 16 7] c'"
  using makeServerCookie_isValid [of "\<lambda>m k. take 8 (k @ m @ replicate 8 0)" "\<lparr>ck_client = replicate 8 5, ck_server = []\<rparr>" "replicate 16 7"
      1000 100 101 "replicate 16 9" "[replicate 16 7]"]
  by (simp add: crypto_shorthash_KEYBYTES_def)

end
