(* ===== verification/EdnsOptions.thy ===== *)
theory EdnsOptions
  imports Mangler Reader
begin

text \<open>
  EDNS options (\<^verbatim>\<open>pdns/ednsoptions.hh\<close>, \<^verbatim>\<open>pdns/ednsoptions.cc\<close>): finding the OPT record of a packet, and writing and reading
  the options in its data. A view of a value is a position in the buffer that was read, and a size. Pointers
  are never null.
\<close>

section \<open>Options in the data of an OPT record\<close>

datatype errno = EOK | EINVAL | ENOENT

definition getNextEDNSOption :: "bytes \<Rightarrow> (nat \<times> nat) option" where
  "getNextEDNSOption data =
     (if length data < 4 then None else Some (be16 (data ! 0) (data ! 1), be16 (data ! 2) (data ! 3)))"

text \<open>\<^verbatim>\<open>getEDNSOption\<close>: position and size of the first option with the wanted code.\<close>

function getEDNSOption_loop :: "bytes \<Rightarrow> nat \<Rightarrow> nat \<Rightarrow> nat \<Rightarrow> nat \<Rightarrow> errno + nat \<times> nat" where
  "getEDNSOption_loop optRR rdLen wantedOption pos rdPos =
     (if length optRR \<ge> pos + 4 \<and> rdLen \<ge> rdPos + 4 then
        case getNextEDNSOption (drop pos optRR) of
          None \<Rightarrow> Inl ENOENT
        | Some (optionCode, optionLen) \<Rightarrow>
            if optionLen > rdLen - (rdPos + 4) \<or> optionLen > length optRR - (pos + 4) then Inl EINVAL
            else if optionCode = wantedOption then Inr (pos + 4 - 4, optionLen + 4)
            else getEDNSOption_loop optRR rdLen wantedOption (pos + 4 + optionLen) (rdPos + 4 + optionLen)
      else Inl ENOENT)"
  by pat_completeness auto
termination
  by (relation "measure (\<lambda>(optRR, _, _, pos, _). length optRR - pos)") auto

declare getEDNSOption_loop.simps [simp del]

definition getEDNSOption :: "bytes \<Rightarrow> nat \<Rightarrow> errno + nat \<times> nat" where
  "getEDNSOption optRR wantedOption =
     (if length optRR < 2 then Inl EINVAL
      else let rdLen = be16 (optRR ! 0) (optRR ! 1) in
        if 2 + rdLen > length optRR then Inl EINVAL
        else getEDNSOption_loop optRR rdLen wantedOption 2 0)"

text \<open>\<^verbatim>\<open>getEDNSOptions\<close>: the views of all options, by code. What was read before an error stays in the map.\<close>

record EDNSOptionViewValue =
  ev_content :: nat
  ev_size :: nat

type_synonym EDNSOptionViewMap = "nat \<rightharpoonup> EDNSOptionViewValue list"

abbreviation values_of :: "EDNSOptionViewMap \<Rightarrow> nat \<Rightarrow> EDNSOptionViewValue list" where
  "values_of options code \<equiv> (case options code of None \<Rightarrow> [] | Some vs \<Rightarrow> vs)"

function getEDNSOptions_loop :: "bytes \<Rightarrow> nat \<Rightarrow> nat \<Rightarrow> nat \<Rightarrow> EDNSOptionViewMap \<Rightarrow> errno \<times> EDNSOptionViewMap" where
  "getEDNSOptions_loop optRR rdLen pos rdPos options =
     (if length optRR \<ge> pos + 4 \<and> rdLen \<ge> rdPos + 4 then
        let optionCode = be16 (optRR ! pos) (optRR ! (pos + 1));
            optionLen = be16 (optRR ! (pos + 2)) (optRR ! (pos + 3))
        in if optionLen > rdLen - (rdPos + 4) \<or> optionLen > length optRR - (pos + 4) then (EINVAL, options)
           else getEDNSOptions_loop optRR rdLen (pos + 4 + optionLen) (rdPos + 4 + optionLen)
                  (options(optionCode \<mapsto> values_of options optionCode @ [\<lparr>ev_content = pos + 4, ev_size = optionLen\<rparr>]))
      else (EOK, options))"
  by pat_completeness auto
termination
  by (relation "measure (\<lambda>(optRR, _, pos, _, _). length optRR - pos)") auto

declare getEDNSOptions_loop.simps [simp del]

definition getEDNSOptions :: "bytes \<Rightarrow> EDNSOptionViewMap \<Rightarrow> errno \<times> EDNSOptionViewMap" where
  "getEDNSOptions optRR options =
     (if length optRR < 2 then (EINVAL, options)
      else let rdLen = be16 (optRR ! 0) (optRR ! 1) in
        if 2 + rdLen > length optRR then (EINVAL, options)
        else getEDNSOptions_loop optRR rdLen 2 0 options)"

function getEDNSOptionsFromContent_loop :: "bytes \<Rightarrow> nat \<Rightarrow> (nat \<times> bytes) list \<Rightarrow> bool \<times> (nat \<times> bytes) list" where
  "getEDNSOptionsFromContent_loop content pos options =
     (if pos < length content \<and> length content - pos \<ge> 4 then
        let code = be16 (content ! pos) (content ! (pos + 1));
            len = be16 (content ! (pos + 2)) (content ! (pos + 3));
            pos = pos + 4
        in if pos > length content \<or> len > length content - pos then (False, options)
           else getEDNSOptionsFromContent_loop content (pos + len) (options @ [(code, take len (drop pos content))])
      else (True, options))"
  by pat_completeness auto
termination
  by (relation "measure (\<lambda>(content, pos, _). length content - pos)") auto

declare getEDNSOptionsFromContent_loop.simps [simp del]

definition getEDNSOptionsFromContent :: "bytes \<Rightarrow> (nat \<times> bytes) list \<Rightarrow> bool \<times> (nat \<times> bytes) list" where
  "getEDNSOptionsFromContent content options = getEDNSOptionsFromContent_loop content 0 options"

definition generateEDNSOption :: "nat \<Rightarrow> bytes \<Rightarrow> bytes \<Rightarrow> bytes" where
  "generateEDNSOption optionCode payload res = res @ to_be16 optionCode @ to_be16 (length payload mod 65536) @ payload"

section \<open>The OPT record of a packet\<close>

definition slowParse_record :: "dnsheader \<Rightarrow> nat \<Rightarrow> ((bool \<times> EDNSOptionViewMap) mangler_locals, bool) call" where
  "slowParse_record dh index =
     bindC skipDomainName (\<lambda>wasRoot. bindC dpm_get16BitInt (\<lambda>dnstype. bindC dpm_get16BitInt (\<lambda>_. bindC (dpm_skipBytes 4) (\<lambda>_.
       if section_of dh index = 3 \<and> dnstype = QType_OPT \<and> wasRoot then
         bindC (getC d_notyouroffset) (\<lambda>offset. bindC (getC d_packet) (\<lambda>packet.
           if offset \<ge> length packet then returnC True
           else bindC dpm_skipRData (\<lambda>_.
             bindC (set_result (\<lambda>(_, options). let (e, options') = getEDNSOptions (drop offset packet) options in (e = EOK, options')))
               (\<lambda>_. returnC True))))
       else bindC dpm_skipRData (\<lambda>_. returnC False)))))"

definition slowParseEDNSOptions :: "bytes \<Rightarrow> EDNSOptionViewMap \<Rightarrow> bool \<times> EDNSOptionViewMap" where
  "slowParseEDNSOptions packet options =
     (if length packet < sizeof_dnsheader then (False, options)
      else
        let dh = dnsheader_of packet in
        if h_qdcount dh = 0 then (False, options)
        else if h_arcount dh = 0 then (False, options)
        else d_result (snd (bindC (skip_questions (h_qdcount dh)) (\<lambda>_.
               forC [0..<numrecords dh] (slowParse_record dh)) (locals_init packet (False, options)))))"

text \<open>
  \<^verbatim>\<open>locateEDNSOptRR\<close>: start and length of the OPT record and whether it is the last record. \<open>None\<close> stands for \<^verbatim>\<open>ENOENT\<close>.
\<close>

fun locate_additional :: "bytes \<Rightarrow> nat \<Rightarrow> nat list \<Rightarrow> (PacketReader, (nat \<times> nat \<times> bool) option) call" where
  "locate_additional packet arcount [] = returnC None"
| "locate_additional packet arcount (idx # idxs) =
     bindC (getC getPosition) (\<lambda>start. bindC pr_getName (\<lambda>rrname. bindC getDnsrecordheader (\<lambda>recordHeader.
       if DNSName_isRoot rrname \<and> rh_type recordHeader = QType_OPT then
         bindC (getC getPosition) (\<lambda>p.
           let optLen = p - start + rh_clen recordHeader in
           if length packet < start + optLen then throwC (range_error ''Opt record overflow'')
           else returnC (Some (start, optLen, idx = arcount - 1)))
       else bindC (pr_skip (rh_clen recordHeader)) (\<lambda>_. locate_additional packet arcount idxs))))"

definition locateEDNSOptRR :: "bytes \<Rightarrow> (nat \<times> nat \<times> bool) option result" where
  "locateEDNSOptRR packet =
     (if length packet < sizeof_dnsheader then Inl (runtime_error ''Packet passed to locateEDNSOptRR was too small'')
      else
        let dh = dnsheader_of packet in
        if h_arcount dh = 0 then Inr None
        else if h_qdcount dh \<noteq> 1 then Inl (runtime_error ''Packet passed to locateEDNSOptRR did not have QDCOUNT=1'')
        else bindR (PacketReader_init packet sizeof_dnsheader False False) (\<lambda>packetReader.
          fst (bindC pr_getName (\<lambda>_. bindC (pr_skip 4) (\<lambda>_.
            bindC (forC [0..<h_ancount dh + h_nscount dh] (\<lambda>_.
              bindC pr_getName (\<lambda>_. bindC getDnsrecordheader (\<lambda>recordHeader. bindC (pr_skip (rh_clen recordHeader)) (\<lambda>_. returnC False))))) (\<lambda>_.
              locate_additional packet (h_arcount dh) [0..<h_arcount dh]))) packetReader)))"

section \<open>Options written and read\<close>

definition option_ok :: "nat \<times> bytes \<Rightarrow> bool" where
  "option_ok opt \<longleftrightarrow> fst opt < 65536 \<and> length (snd opt) < 65536"

definition option_wire :: "nat \<times> bytes \<Rightarrow> bytes" where
  "option_wire opt = to_be16 (fst opt) @ to_be16 (length (snd opt)) @ snd opt"

definition generate_all :: "(nat \<times> bytes) list \<Rightarrow> bytes" where
  "generate_all opts = fold (\<lambda>(code, payload). generateEDNSOption code payload) opts []"

lemma generate_fold: "\<forall>opt \<in> set opts. option_ok opt \<Longrightarrow>
   fold (\<lambda>(code, payload). generateEDNSOption code payload) opts res = res @ concat (map option_wire opts)"
  by (induction opts arbitrary: res) (auto simp: generateEDNSOption_def option_wire_def option_ok_def)

lemma generate_all_wire: "\<forall>opt \<in> set opts. option_ok opt \<Longrightarrow> generate_all opts = concat (map option_wire opts)"
  by (simp add: generate_all_def generate_fold)

lemma length_option_wire [simp]: "length (option_wire opt) = 4 + length (snd opt)"
  by (simp add: option_wire_def)

text \<open>The code and the length of an option at a position.\<close>

lemma option_header:
  assumes "option_ok opt" "c = pre @ option_wire opt @ rest" "pos = length pre"
  shows "be16 (c ! pos) (c ! (pos + 1)) = fst opt" "be16 (c ! (pos + 2)) (c ! (pos + 3)) = length (snd opt)"
    "take (length (snd opt)) (drop (pos + 4) c) = snd opt" "length c = pos + 4 + length (snd opt) + length rest"
proof -
  obtain a b where ab: "to_be16 (fst opt) = [a, b]" by (simp add: to_be16_def)
  obtain d e where de: "to_be16 (length (snd opt)) = [d, e]" by (simp add: to_be16_def)
  have c: "c = pre @ [a, b, d, e] @ snd opt @ rest" by (simp add: assms(2) option_wire_def ab de)
  show "be16 (c ! pos) (c ! (pos + 1)) = fst opt" "be16 (c ! (pos + 2)) (c ! (pos + 3)) = length (snd opt)"
    using assms(1) be16_to_be16 [OF _ ab] be16_to_be16 [OF _ de] by (simp_all add: c assms(3) nth_append option_ok_def)
  show "take (length (snd opt)) (drop (pos + 4) c) = snd opt" "length c = pos + 4 + length (snd opt) + length rest"
    by (simp_all add: c assms(3))
qed

lemma from_content_wire:
  "\<forall>opt \<in> set opts. option_ok opt \<Longrightarrow> c = pre @ concat (map option_wire opts) \<Longrightarrow>
   getEDNSOptionsFromContent_loop c (length pre) res = (True, res @ opts)"
proof (induction opts arbitrary: pre res)
  case Nil
  then show ?case by (subst getEDNSOptionsFromContent_loop.simps) simp
next
  case (Cons opt opts)
  have c: "c = pre @ option_wire opt @ concat (map option_wire opts)" using Cons.prems(2) by simp
  note h = option_header [OF _ c refl]
  have "getEDNSOptionsFromContent_loop c (length (pre @ option_wire opt)) (res @ [opt]) = (True, (res @ [opt]) @ opts)"
    by (rule Cons.IH) (use Cons.prems in auto)
  then show ?case using h Cons.prems(1) by (subst getEDNSOptionsFromContent_loop.simps) (simp add: Let_def add.assoc)
qed

definition push_value :: "nat \<Rightarrow> EDNSOptionViewValue \<Rightarrow> EDNSOptionViewMap \<Rightarrow> EDNSOptionViewMap" where
  "push_value code value options = options(code \<mapsto> values_of options code @ [value])"

text \<open>The views of a list of options that starts at \<open>pos\<close>.\<close>

fun option_views :: "nat \<Rightarrow> (nat \<times> bytes) list \<Rightarrow> (nat \<times> EDNSOptionViewValue) list" where
  "option_views pos [] = []"
| "option_views pos (opt # opts) =
     (fst opt, \<lparr>ev_content = pos + 4, ev_size = length (snd opt)\<rparr>) # option_views (pos + 4 + length (snd opt)) opts"

lemma options_wire:
  "\<forall>opt \<in> set opts. option_ok opt \<Longrightarrow> c = pre @ concat (map option_wire opts) @ rest \<Longrightarrow> rdLen = rdPos + length (concat (map option_wire opts)) \<Longrightarrow>
   getEDNSOptions_loop c rdLen (length pre) rdPos m = (EOK, fold (\<lambda>(code, v). push_value code v) (option_views (length pre) opts) m)"
proof (induction opts arbitrary: pre rdPos m)
  case Nil
  then show ?case by (subst getEDNSOptions_loop.simps) simp
next
  case (Cons opt opts)
  have c: "c = pre @ option_wire opt @ concat (map option_wire opts) @ rest" using Cons.prems(2) by simp
  note h = option_header [OF _ c refl]
  let ?m = "push_value (fst opt) \<lparr>ev_content = length pre + 4, ev_size = length (snd opt)\<rparr> m"
  have "getEDNSOptions_loop c rdLen (length (pre @ option_wire opt)) (rdPos + 4 + length (snd opt)) ?m =
      (EOK, fold (\<lambda>(code, v). push_value code v) (option_views (length (pre @ option_wire opt)) opts) ?m)"
    by (rule Cons.IH) (use Cons.prems in auto)
  then show ?case using h Cons.prems(1,3) by (subst getEDNSOptions_loop.simps) (simp add: Let_def add.assoc push_value_def)
qed

lemma option_wire_found:
  "\<forall>opt \<in> set opts. option_ok opt \<Longrightarrow> c = pre @ concat (map option_wire opts) @ rest \<Longrightarrow> rdLen = rdPos + length (concat (map option_wire opts)) \<Longrightarrow>
   getEDNSOption_loop c rdLen wanted (length pre) rdPos =
     (case find (\<lambda>v. fst v = wanted) (option_views (length pre) opts) of
        None \<Rightarrow> Inl ENOENT | Some v \<Rightarrow> Inr (ev_content (snd v) - 4, ev_size (snd v) + 4))"
proof (induction opts arbitrary: pre rdPos)
  case Nil
  then show ?case by (subst getEDNSOption_loop.simps) simp
next
  case (Cons opt opts)
  have c: "c = pre @ option_wire opt @ concat (map option_wire opts) @ rest" using Cons.prems(2) by simp
  note h = option_header [OF _ c refl]
  have nxt: "getNextEDNSOption (drop (length pre) c) = Some opt'" if "opt' = (fst opt, length (snd opt))" for opt'
    using h Cons.prems(1) that by (simp add: getNextEDNSOption_def)
  have "getEDNSOption_loop c rdLen wanted (length (pre @ option_wire opt)) (rdPos + 4 + length (snd opt)) =
     (case find (\<lambda>v. fst v = wanted) (option_views (length (pre @ option_wire opt)) opts) of
        None \<Rightarrow> Inl ENOENT | Some v \<Rightarrow> Inr (ev_content (snd v) - 4, ev_size (snd v) + 4))"
    by (rule Cons.IH) (use Cons.prems in auto)
  then show ?case using h nxt [OF refl] Cons.prems(1,3) by (subst getEDNSOption_loop.simps) (simp add: add.assoc)
qed

lemma option_views_payload:
  "\<forall>opt \<in> set opts. option_ok opt \<Longrightarrow> c = pre @ concat (map option_wire opts) @ rest \<Longrightarrow>
   map (\<lambda>(code, v). (code, take (ev_size v) (drop (ev_content v) c))) (option_views (length pre) opts) = opts"
proof (induction opts arbitrary: pre)
  case (Cons opt opts)
  have c: "c = pre @ option_wire opt @ concat (map option_wire opts) @ rest" using Cons.prems(2) by simp
  have "map (\<lambda>(code, v). (code, take (ev_size v) (drop (ev_content v) c))) (option_views (length (pre @ option_wire opt)) opts) = opts"
    by (rule Cons.IH) (use Cons.prems in auto)
  then show ?case using option_header(3) [OF _ c refl] Cons.prems(1) by (simp add: add.assoc)
qed simp

text \<open>
  Options that are generated one after the other are read back from the data of the OPT record, by all three
  readers: as they are, as views by code, and one by its code.
\<close>

theorem EDNSOptions_roundtrip:
  assumes "\<forall>opt \<in> set opts. option_ok opt" "length (generate_all opts) < 65536"
    and "optRR = to_be16 (length (generate_all opts)) @ generate_all opts @ rest"
  shows "getEDNSOptionsFromContent (generate_all opts) [] = (True, opts) \<and>
    getEDNSOptions optRR m = (EOK, fold (\<lambda>(code, v). push_value code v) (option_views 2 opts) m) \<and>
    map (\<lambda>(code, v). (code, take (ev_size v) (drop (ev_content v) optRR))) (option_views 2 opts) = opts \<and>
    getEDNSOption optRR wanted =
      (case find (\<lambda>v. fst v = wanted) (option_views 2 opts) of
         None \<Rightarrow> Inl ENOENT | Some v \<Rightarrow> Inr (ev_content (snd v) - 4, ev_size (snd v) + 4))"
proof -
  let ?w = "concat (map option_wire opts)"
  have g: "generate_all opts = ?w" using generate_all_wire [OF assms(1)] .
  obtain a b where ab: "to_be16 (length ?w) = [a, b]" by (simp add: to_be16_def)
  have rd: "be16 a b = length ?w" using be16_to_be16 [OF _ ab] assms(2) g by simp
  have c: "optRR = [a, b] @ ?w @ rest" using assms(3) g ab by simp
  have "getEDNSOptionsFromContent (generate_all opts) [] = (True, opts)"
    using from_content_wire [OF assms(1), of "generate_all opts" "[]" "[]"] by (simp add: getEDNSOptionsFromContent_def g)
  moreover have "getEDNSOptions optRR m = (EOK, fold (\<lambda>(code, v). push_value code v) (option_views 2 opts) m)"
    using options_wire [OF assms(1) c, of "length ?w" 0 m] rd by (simp add: getEDNSOptions_def c numeral_2_eq_2)
  moreover have "map (\<lambda>(code, v). (code, take (ev_size v) (drop (ev_content v) optRR))) (option_views 2 opts) = opts"
    using option_views_payload [OF assms(1) c] by (simp add: numeral_2_eq_2)
  moreover have "getEDNSOption optRR wanted =
      (case find (\<lambda>v. fst v = wanted) (option_views 2 opts) of
         None \<Rightarrow> Inl ENOENT | Some v \<Rightarrow> Inr (ev_content (snd v) - 4, ev_size (snd v) + 4))"
    using option_wire_found [OF assms(1) c, of "length ?w" 0 wanted] rd by (simp add: getEDNSOption_def c numeral_2_eq_2)
  ultimately show ?thesis by blast
qed

end
