(* ===== verification/Spec2Isabelle.thy ===== *)
theory Spec2Isabelle
  imports NameOrder ZoneNames SuffixTree Burtle PacketTTL Shuffle Message ParserSound PortRanges EdnsSubnet EdnsCookies EdnsOptions
begin

text \<open>
  Verification of the DNS name and DNS message library of PowerDNS: the code under \<^verbatim>\<open>pdns/\<close> that the authoritative
  server, the recursor and dnsdist share to read, build, compare and edit names and messages.

  \<^bold>\<open>The program.\<close> A \<^verbatim>\<open>DNSName\<close> keeps a name in wire format. \<^verbatim>\<open>PacketReader\<close> is a cursor over a packet that takes
  names, integers and text out of it; \<^verbatim>\<open>GenericDNSPacketWriter\<close> builds a packet record by record and compresses
  names. Each record type describes its content once, and both classes run this description.
  \<^verbatim>\<open>MOADNSParser\<close> reads a whole message with a \<^verbatim>\<open>PacketReader\<close>; \<^verbatim>\<open>DNSPacket::wrapup\<close> writes one with the writer.
  \<^verbatim>\<open>DNSPacketMangler\<close> edits packets in place for the packet caches. Suffix trees and zone names are
  containers and keys made of names. Addresses, netmasks and the prefix trees over them are the
  keys of access lists and views; the classes for EDNS options use addresses, the reader and the mangler.

  \<^bold>\<open>Conventions\<close> (\<open>Prelude\<close>). A byte is an \<open>8 word\<close>, a \<^verbatim>\<open>std::string\<close> or a packet a list of bytes, 16- and 32-bit
  values are words where the code counts on wrapping and natural numbers with the bound stated
  elsewhere. An exception is a value of type \<open>exn\<close>; a function that may throw returns \<open>exn + 'a\<close> (\<open>result\<close>). A
  method of a stateful object is a \<open>call\<close>, a function from the state to a result and the new state,
  which keeps what was done before an exception. Out-parameters are components of the result.
  Collections of theorems and simplification rules shared by the components are in \<open>Prelude\<close>.

  \<^bold>\<open>Names.\<close>
  \<^item> \<open>CaseFold\<close> (\<^verbatim>\<open>dnsname.hh\<close>): case tables and comparisons. The locale \<open>three_way\<close> is the contract of a
    three-way comparison; it is interpreted for the comparison of labels and of names.
  \<^item> \<open>NameCore\<close> (\<^verbatim>\<open>dnsname.hh\<close>, \<^verbatim>\<open>dnsname.cc\<close>): the class \<^verbatim>\<open>DNSName\<close>. \<open>DNSName_inv\<close> is its invariant, and each
    operation is related to the list operation on labels that it implements.
  \<^item> \<open>NameWire\<close> (\<^verbatim>\<open>dnsname.cc\<close>): the parser of names in packets. It returns exactly the labels that the
    bytes denote, within the limits on pointers, reads inside the packet only, and inverts the wire form.
  \<^item> \<open>NameText\<close> (\<^verbatim>\<open>dnsname.cc\<close>, \<^verbatim>\<open>dnslabeltext.rl\<close>): printing and parsing of names are inverse.
  \<^item> \<open>NameOrder\<close>: the canonical order is the one of RFC 4034 and the fast comparison equals the slow one.
  \<^item> \<open>Burtle\<close> (\<^verbatim>\<open>burtle.hh\<close>): hashing respects equality of names.
  \<^item> \<open>ZoneNames\<close>: names with a variant, with the same laws for text, order and hash.
  \<^item> \<open>OrderedSet\<close> and \<open>SuffixTree\<close>: the \<^verbatim>\<open>std::set\<close> of children (locale \<open>keyed_set\<close>), and the suffix trees over it,
    refined to a finite map with longest-suffix lookup.

  \<^bold>\<open>Packets edited in place.\<close>
  \<^item> \<open>DnsHeader\<close> (\<^verbatim>\<open>dns.hh\<close>): \<^verbatim>\<open>struct dnsheader\<close> and its 12 bytes.
  \<^item> \<open>Mangler\<close>, \<open>PacketTTL\<close>, \<open>Shuffle\<close> (\<^verbatim>\<open>dnsparser.hh\<close>, \<^verbatim>\<open>dnsparser.cc\<close>): \<^verbatim>\<open>DNSPacketMangler\<close> and the functions over it.
    Ageing changes the TTLs it reaches and nothing else; shuffling permutes whole addresses.

  \<^bold>\<open>Reading and writing.\<close>
  \<^item> \<open>Reader\<close>, \<open>ReadAhead\<close> (\<^verbatim>\<open>dnsparser.hh\<close>, \<^verbatim>\<open>dnsparser.cc\<close>): \<^verbatim>\<open>PacketReader\<close>. Reads of record data stay inside
    the record and every read inside the packet; only the name that starts at the end of a record, which is
    the owner name of the next one, leaves the record. \<open>ReadAhead\<close> turns each read over known bytes into an equation.
  \<^item> \<open>TextSegments\<close> (\<^verbatim>\<open>dnslabeltext.rl\<close>): quoted text, inverse to the reader's text output.
  \<^item> \<open>Writer\<close>, \<open>Compression\<close>, \<open>CompressionLaws\<close>, \<open>WriterRecords\<close> (\<^verbatim>\<open>dnswriter.hh\<close>, \<^verbatim>\<open>dnswriter.cc\<close>): \<^verbatim>\<open>GenericDNSPacketWriter\<close>.
    A compressed name reads back as the name given, up to case, and stays readable whatever is
    written after it; the condition is that the packet has at most 16384 bytes before the name, and
    one theorem shows what happens otherwise.
  \<^item> \<open>SvcParams\<close> (\<^verbatim>\<open>svc-records.hh\<close>, \<^verbatim>\<open>svc-records.cc\<close>), \<open>NsecBitmap\<close> and \<open>Apl\<close> (\<^verbatim>\<open>dnsrecords.hh\<close>, \<^verbatim>\<open>nsecrecords.cc\<close>, \<^verbatim>\<open>dnsrecords.cc\<close>):
    the structured fields of records, with their round trips.

  \<^bold>\<open>Records and messages.\<close>
  \<^item> \<open>Convertor\<close>, \<open>ConvertorLaws\<close>, \<open>RecordTypes\<close> (\<^verbatim>\<open>dnsrecords.cc\<close>, \<^verbatim>\<open>nsecrecords.cc\<close>, \<^verbatim>\<open>sillyrecords.cc\<close>): descriptions of record
    contents as data, the two interpreters that stand for the two instances of \<^verbatim>\<open>xfrPacket\<close>, and one
    description for each record type, in the order of the source.
  \<^item> \<open>Content\<close>, \<open>ContentLaws\<close> (\<^verbatim>\<open>dnsrecords.cc\<close>, \<^verbatim>\<open>dnsparser.cc\<close>): the registered types and the choice of a maker. The
    locale \<open>content_codec\<close> says what a message needs of contents; it is interpreted for them all.
  \<^item> \<open>Parser\<close>, \<open>ParserLaws\<close> (\<^verbatim>\<open>dnsparser.cc\<close>): \<^verbatim>\<open>MOADNSParser::init\<close> with its treatment of truncated packets. The
    counts in the header it keeps are those of the records it holds.
  \<^item> \<open>ParserSound\<close>: the records of any accepted packet lie in it one after the other, with the data that is there, and an
    A record that fails its size check is never passed over.
  \<^item> \<open>MessageWrite\<close>, \<open>MessageRead\<close>, \<open>Message\<close> (\<^verbatim>\<open>dnspacket.cc\<close>): the loop that writes the records of an answer,
    where it leaves them, and that the parser gives back the question, the counts and every record.

  \<^bold>\<open>Addresses and prefix trees.\<close>
  \<^item> \<open>IpAddress\<close> (\<^verbatim>\<open>iputils.hh\<close>, \<^verbatim>\<open>iputils.cc\<close>): \<^verbatim>\<open>ComboAddress\<close>, \<^verbatim>\<open>Netmask\<close> and \<^verbatim>\<open>AddressAndPortRange\<close> in their binary forms. A netmask is a
    prefix of the bits of an address, and matching is having this prefix.
  \<^item> \<open>NetmaskTree\<close>, \<open>NetmaskTreeLaws\<close>, \<open>NetmaskMap\<close> (\<^verbatim>\<open>iputils.hh\<close>): \<^verbatim>\<open>NetmaskTree\<close> and \<^verbatim>\<open>NetmaskGroup\<close>. The locale \<open>prefix_key\<close> says what the
    tree needs of its keys; it is interpreted for netmasks. Insertion, removal and copies refine the
    operations on a finite map, and lookup is the longest match.
  \<^item> \<open>PortRanges\<close>: the tree over address and port ranges, whose keys do not obey \<open>prefix_key\<close>, and what goes wrong.

  \<^bold>\<open>EDNS options.\<close>
  \<^item> \<open>EdnsSubnet\<close> (\<^verbatim>\<open>ednssubnet.hh\<close>, \<^verbatim>\<open>ednssubnet.cc\<close>): the client subnet option and its round trip.
  \<^item> \<open>EdnsCookies\<close> (\<^verbatim>\<open>ednscookies.hh\<close>, \<^verbatim>\<open>ednscookies.cc\<close>, \<^verbatim>\<open>ednsextendederror.cc\<close>): cookies, for any keyed hash of eight bytes and
    any clock. The cookies that a server makes are those that it accepts.
  \<^item> \<open>EdnsOptions\<close> (\<^verbatim>\<open>ednsoptions.hh\<close>, \<^verbatim>\<open>ednsoptions.cc\<close>): options in the data of an OPT record, written and read back.

  \<^bold>\<open>Loops and bounds.\<close> Every loop is a structural recursion or a \<open>function\<close> with a termination proof: the name
  parser by the offset of the pointer, which only decreases, the readers by the bytes left. No
  definition uses fuel. Packets have at most 65535 bytes where the reader is used, which its
  constructor checks, and the pointer budget is the one of the reader or the one passed to the parser.

  \<^bold>\<open>Not modelled.\<close> The text format of record contents (\<^verbatim>\<open>RecordTextReader\<close>, \<^verbatim>\<open>RecordTextWriter\<close>), the rest of
  \<^verbatim>\<open>DNSPacket\<close> (TSIG, and the calls that add EDNS options), which calls cryptographic libraries, addresses as text,
  which are read and printed by the C library, and the
  programs around the library: query answering and backends, the recursor, dnsdist, DNSSEC, the
  web servers and the tools, which are I/O, threads and third-party libraries. Texts of exceptions
  are given without the data that the source puts into them.
\<close>

end
